(* ===== verification/Prelude.thy ===== *)
theory Prelude
  imports Main "HOL-Library.Word" "HOL-Library.Monad_Syntax"
begin

unbundle bit_operations_syntax

text \<open>
  What every component of the development shares.

  \<^item> the machine types of the build in objs/ (an LP64 platform): bytes (\<open>u_char\<close>), 32-bit
    and 64-bit integers; a signed \<open>ngx_int_t\<close>, \<open>ssize_t\<close>, \<open>off_t\<close> or \<open>time_t\<close> is a
    64-bit word read with \<open>sint\<close> and compared with \<open><s\<close>; signed arithmetic wraps, as the
    tests \<open>value < 0\<close> of the sources take it to;
  \<^item> the return codes of src/core/ngx_core.h;
  \<^item> checked reads: \<open>rd xs i\<close> is \<open>None\<close> when the C code would read outside the object, so
    that \<open>None\<close> is the value of an execution with undefined behaviour;
  \<^item> decimal and hexadecimal digits, their values and their printed form;
  \<^item> \<open>feed\<close>, the loop \<open>for (p = b->pos; p < b->last; p++)\<close> that all incremental parsers
    of src/http/ngx_http_parse.c share, with the locale of what makes it resumable.
\<close>

named_theorems byte_simps \<open>facts about single bytes\<close>
named_theorems res_simps \<open>return codes\<close>

section \<open>Machine types and constants\<close>

type_synonym byte = "8 word"
type_synonym u16 = "16 word"
type_synonym u32 = "32 word"
type_synonym u64 = "64 word"
type_synonym i64 = "64 word"

text \<open>\<open>asc CHR ''x''\<close> is the byte of an ASCII character, \<open>bytes ''...''\<close> of a C literal.\<close>

abbreviation asc :: "char \<Rightarrow> byte" where
  "asc c \<equiv> of_char c"

definition bytes :: "string \<Rightarrow> byte list" where
  "bytes s = map of_char s"

lemma bytes_simps [simp]:
  "bytes [] = []" "bytes (c # cs) = asc c # bytes cs"
  by (simp_all add: bytes_def)

abbreviation CR :: byte where "CR \<equiv> 0x0d"
abbreviation LF :: byte where "LF \<equiv> 0x0a"
abbreviation SP :: byte where "SP \<equiv> 0x20"
abbreviation NUL :: byte where "NUL \<equiv> 0"

definition NGX_OK :: i64 where "NGX_OK = 0"
definition NGX_ERROR :: i64 where "NGX_ERROR = -1"
definition NGX_AGAIN :: i64 where "NGX_AGAIN = -2"
definition NGX_DONE :: i64 where "NGX_DONE = -4"
definition NGX_DECLINED :: i64 where "NGX_DECLINED = -5"

declare NGX_OK_def [res_simps] NGX_ERROR_def [res_simps] NGX_AGAIN_def [res_simps]
  NGX_DONE_def [res_simps] NGX_DECLINED_def [res_simps]

section \<open>Checked reads\<close>

definition rd :: "'a list \<Rightarrow> nat \<Rightarrow> 'a option" where
  "rd xs i = (if i < length xs then Some (xs ! i) else None)"

lemma rd_simps [simp]:
  "rd [] i = None" "rd (x # xs) 0 = Some x" "rd (x # xs) (Suc i) = rd xs i"
  by (simp_all add: rd_def)

lemma rd_numeral [simp]: "rd (x # xs) (numeral k) = rd xs (pred_numeral k)"
  by (simp add: numeral_eq_Suc)

lemma rd_Some: "i < length xs \<Longrightarrow> rd xs i = Some (xs ! i)"
  by (simp add: rd_def)

lemma rd_append1: "i < length xs \<Longrightarrow> rd (xs @ ys) i = rd xs i"
  by (simp add: rd_def nth_append)

lemma rd_append2 [simp]: "rd (xs @ ys) (length xs + i) = rd ys i"
  by (simp add: rd_def nth_append)

lemma rd_append3 [simp]: "rd (xs @ ys) (length xs) = rd ys 0"
  using rd_append2 [of xs ys 0] by (simp del: rd_append2)

text \<open>The bytes from index \<open>i\<close> up to, not including, \<open>j\<close>.\<close>

definition seg :: "nat \<Rightarrow> nat \<Rightarrow> byte list \<Rightarrow> byte list" where
  "seg i j d = take (j - i) (drop i d)"

lemma seg_append: "j \<le> length d \<Longrightarrow> seg i j (d @ e) = seg i j d"
  by (simp add: seg_def)

lemma seg_mid: "seg (length a) (length a + length b) (a @ b @ c) = b"
  by (simp add: seg_def)

lemma seg_empty [simp]: "seg i i d = []"
  by (simp add: seg_def)

lemma seg_Suc: "i \<le> p \<Longrightarrow> p < length d \<Longrightarrow> seg i (Suc p) d = seg i p d @ [d ! p]"
  by (simp add: seg_def Suc_diff_le take_Suc_conv_app_nth)

lemma length_seg: "j \<le> length d \<Longrightarrow> length (seg i j d) = j - i"
  by (simp add: seg_def)

lemma nth_seg: "i + k < j \<Longrightarrow> j \<le> length d \<Longrightarrow> seg i j d ! k = d ! (i + k)"
  by (simp add: seg_def)

section \<open>Bytes\<close>

definition is_digit :: "byte \<Rightarrow> bool" where
  "is_digit c \<longleftrightarrow> asc CHR ''0'' \<le> c \<and> c \<le> asc CHR ''9''"

definition is_lower :: "byte \<Rightarrow> bool" where
  "is_lower c \<longleftrightarrow> asc CHR ''a'' \<le> c \<and> c \<le> asc CHR ''z''"

definition is_upper :: "byte \<Rightarrow> bool" where
  "is_upper c \<longleftrightarrow> asc CHR ''A'' \<le> c \<and> c \<le> asc CHR ''Z''"

text \<open>The letter test of the parsers: fold with \<open>| 0x20\<close>, then compare.\<close>

definition is_hex_letter :: "byte \<Rightarrow> bool" where
  "is_hex_letter ch \<longleftrightarrow> (let c = ch OR 0x20 in asc CHR ''a'' \<le> c \<and> c \<le> asc CHR ''f'')"

definition dval :: "byte \<Rightarrow> nat" where
  "dval c = unat (c - asc CHR ''0'')"

definition hval :: "byte \<Rightarrow> nat" where
  "hval ch = (if is_digit ch then dval ch else unat ((ch OR 0x20) - asc CHR ''a'' + 10))"

text \<open>A statement about all bytes is a statement about 256 of them.\<close>

lemma all_bytes: "(\<forall>b::byte. P b) \<longleftrightarrow> list_all P (map of_nat [0..<256])"
proof
  assume P: "list_all P (map of_nat [0..<256])"
  show "\<forall>b. P b"
  proof
    fix b :: byte
    have "unat b < 256" using unsigned_less [of b] by simp
    then have "b \<in> set (map of_nat [0..<256])"
      by (auto intro!: image_eqI [of _ _ "unat b"])
    with P show "P b" by (auto simp: list_all_iff)
  qed
qed (simp add: list_all_iff)

lemma all_bytesI: "list_all P (map of_nat [0..<256]) \<Longrightarrow> P (b :: byte)"
  using all_bytes by blast

lemma is_digit_unat: "is_digit c \<longleftrightarrow> 48 \<le> unat c \<and> unat c \<le> 57"
  by (simp add: is_digit_def word_le_nat_alt)

lemma dval_unat: "is_digit c \<Longrightarrow> dval c = unat c - 48"
  by (simp add: dval_def is_digit_def unat_sub)

lemma dval_less: "is_digit c \<Longrightarrow> dval c < 10"
  using dval_unat [of c] is_digit_unat [of c] by auto

lemma hval_less:
  assumes "is_digit c \<or> is_hex_letter c"
  shows "hval c < 16"
proof (cases "is_digit c")
  case True
  with dval_less [of c] show ?thesis by (simp add: hval_def)
next
  case False
  define x where "x = c OR 0x20"
  from False assms have x: "97 \<le> x" "x \<le> 102" by (simp_all add: is_hex_letter_def x_def Let_def)
  have "87 \<le> x" using x(1) by (rule order.trans [rotated]) simp
  then have "unat (x - 87) = unat x - 87" by (simp add: unat_sub)
  moreover have "unat x \<le> 102" using x(2) by (simp add: word_le_nat_alt)
  ultimately have "unat (x - 87) < 16" by simp
  with False show ?thesis by (simp add: hval_def x_def)
qed

text \<open>The value of \<open>*line - '0'\<close> once it is promoted to 64 bits.\<close>

lemma ucast_digit:
  assumes "is_digit c"
  shows "(ucast (c - asc CHR ''0'') :: 64 word) = of_nat (dval c)"
  unfolding dval_def by (simp only: unsigned_of_nat of_nat_unat)


section \<open>Signed 64-bit values\<close>

lemma sint_of_nat [simp]: "n < 2 ^ 63 \<Longrightarrow> sint (of_nat n :: 64 word) = int n"
  by (simp add: signed_of_nat signed_take_bit_int_eq_self)

lemma of_nat_not_neg: "n < 2 ^ 63 \<Longrightarrow> \<not> (of_nat n :: 64 word) <s 0"
  by (simp add: word_sless_alt del: of_nat_less_0_iff)

lemma of_nat_ne_error: "n < 2 ^ 63 \<Longrightarrow> (of_nat n :: 64 word) \<noteq> NGX_ERROR"
proof
  assume n: "n < 2 ^ 63" and "(of_nat n :: 64 word) = NGX_ERROR"
  then have "sint (of_nat n :: 64 word) = -1" by (simp add: NGX_ERROR_def)
  with n show False by simp
qed

lemma of_nat_le_word: "m < 2 ^ 64 \<Longrightarrow> n \<le> m \<Longrightarrow> (of_nat n :: 64 word) \<le> of_nat m"
  by (simp add: word_of_nat_less_eq_iff take_bit_nat_eq_self)

text \<open>A count that overflowed is read modulo \<open>2 ^ 64\<close>, and as negative from \<open>2 ^ 63\<close> on.\<close>

lemma sint_of_nat_mod:
  "sint (of_nat n :: i64) =
     (if n mod 2 ^ 64 < 2 ^ 63 then int (n mod 2 ^ 64) else int (n mod 2 ^ 64) - 2 ^ 64)"
proof -
  have eq: "(of_nat n :: i64) = of_nat (n mod 2 ^ 64)"
    by (simp add: word_of_nat_eq_iff take_bit_eq_mod)
  have lt: "n mod 2 ^ 64 < 2 ^ 64" by simp
  show ?thesis
  proof (cases "n mod 2 ^ 64 < 2 ^ 63")
    case True
    then show ?thesis unfolding eq by (simp only: sint_of_nat if_True)
  next
    case False
    have "(of_nat (n mod 2 ^ 64) :: i64) = of_int (int (n mod 2 ^ 64) - 2 ^ 64)"
      by (simp add: word_of_int_eq_iff take_bit_eq_mod)
    moreover have "sint (of_int (int (n mod 2 ^ 64) - 2 ^ 64) :: i64) = int (n mod 2 ^ 64) - 2 ^ 64"
      using False lt by (simp add: signed_of_int signed_take_bit_int_eq_self del: of_int_diff)
    ultimately show ?thesis unfolding eq using False by (simp only: if_False)
  qed
qed

section \<open>Decimal and hexadecimal numerals\<close>

definition digit :: "nat \<Rightarrow> byte" where
  "digit d = of_nat (48 + d)"

lemma digit_props [simp]:
  assumes "d < 10"
  shows "is_digit (digit d)" "dval (digit d) = d" "unat (digit d) = 48 + d"
proof -
  show u: "unat (digit d) = 48 + d"
    using assms by (simp add: digit_def unat_of_nat del: of_nat_add)
  show i: "is_digit (digit d)"
    using assms by (simp add: is_digit_unat u)
  show "dval (digit d) = d"
    using i by (simp add: dval_unat u)
qed

lemma digit_dval: "is_digit c \<Longrightarrow> digit (dval c) = c"
  by (simp add: digit_def dval_unat is_digit_unat del: of_nat_add)

lemma digit_facts:
  assumes "is_digit c"
  shows "(ucast (c - asc CHR ''0'') :: i64) = of_nat (dval c)" "c \<noteq> asc CHR ''.''" "c \<noteq> asc CHR ''s''"
  using assms by (rule ucast_digit) (use assms in \<open>auto simp: is_digit_def\<close>)

text \<open>\<open>num_val b f xs\<close> is the value of the numeral \<open>xs\<close> in base \<open>b\<close>, \<open>f\<close> giving each digit.\<close>

definition num_val :: "nat \<Rightarrow> (byte \<Rightarrow> nat) \<Rightarrow> byte list \<Rightarrow> nat" where
  "num_val b f xs = foldl (\<lambda>n c. b * n + f c) 0 xs"

abbreviation dec_val :: "byte list \<Rightarrow> nat" where "dec_val \<equiv> num_val 10 dval"
abbreviation hex_val :: "byte list \<Rightarrow> nat" where "hex_val \<equiv> num_val 16 hval"

lemma num_val_Nil [simp]: "num_val b f [] = 0"
  by (simp add: num_val_def)

lemma num_val_snoc [simp]: "num_val b f (xs @ [c]) = b * num_val b f xs + f c"
  by (simp add: num_val_def)

lemma num_val_append: "num_val b f (xs @ ys) = b ^ length ys * num_val b f xs + num_val b f ys"
proof (induction ys rule: rev_induct)
  case (snoc y ys)
  then show ?case
    by (simp add: append_assoc [symmetric] algebra_simps del: append_assoc)
qed simp

lemma num_val_Cons: "num_val b f (c # xs) = b ^ length xs * f c + num_val b f xs"
  using num_val_append [of b f "[c]" xs] by (simp add: num_val_def)

lemma num_val_less:
  assumes "\<forall>c \<in> set xs. f c < b" and "0 < b"
  shows "num_val b f xs < b ^ length xs"
  using assms
proof (induction xs rule: rev_induct)
  case (snoc x xs)
  then have "num_val b f xs + 1 \<le> b ^ length xs" and "f x < b" by simp_all
  then have "b * num_val b f xs + b \<le> b * b ^ length xs"
    by (metis add.commute mult.commute mult_Suc mult_le_mono1 plus_1_eq_Suc)
  with \<open>f x < b\<close> show ?case by simp
qed simp

fun to_dec :: "nat \<Rightarrow> byte list" where
  "to_dec n = (if n < 10 then [digit n] else to_dec (n div 10) @ [digit (n mod 10)])"

declare to_dec.simps [simp del]

lemma to_dec_small: "n < 10 \<Longrightarrow> to_dec n = [digit n]"
  by (subst to_dec.simps) simp

lemma to_dec_big: "10 \<le> n \<Longrightarrow> to_dec n = to_dec (n div 10) @ [digit (n mod 10)]"
  by (subst to_dec.simps) simp

lemma to_dec_ne [simp]: "to_dec n \<noteq> []"
  by (subst to_dec.simps) simp

lemma to_dec_digits: "\<forall>c \<in> set (to_dec n). is_digit c"
proof (induction n rule: to_dec.induct)
  case (1 n)
  show ?case
    by (cases "n < 10") (use 1 in \<open>auto simp: to_dec_small to_dec_big not_less\<close>)
qed

lemma dec_val_to_dec [simp]: "dec_val (to_dec n) = n"
proof (induction n rule: to_dec.induct)
  case (1 n)
  show ?case
    by (cases "n < 10")
      (use 1 in \<open>simp_all add: to_dec_small to_dec_big not_less num_val_Cons\<close>)
qed

lemma hd_to_dec: "\<exists>c cs. to_dec n = c # cs \<and> is_digit c"
  using to_dec_ne [of n] to_dec_digits [of n] by (cases "to_dec n") auto

lemma length_to_dec_le: "n < 10 ^ Suc k \<Longrightarrow> length (to_dec n) \<le> Suc k"
proof (induction k arbitrary: n)
  case (Suc k)
  show ?case
  proof (cases "n < 10")
    case False
    with Suc.prems have "n div 10 < 10 ^ Suc k" by auto
    with Suc.IH False show ?thesis by (simp add: to_dec_big not_less)
  qed (simp add: to_dec_small)
qed (simp add: to_dec_small)

section \<open>The scanning loop of the parsers\<close>

text \<open>
  \<open>feed step d p s\<close> runs \<open>step\<close> on the bytes \<open>d[p], d[p+1], \<dots>\<close> from state \<open>s\<close>.
  \<open>Inl s'\<close>: all bytes read (the code saves the state and returns \<open>NGX_AGAIN\<close>);
  \<open>Inr (q, r)\<close>: the step at position \<open>q\<close> left the loop with \<open>r\<close>.
\<close>

function feed ::
  "(byte list \<Rightarrow> nat \<Rightarrow> 's \<Rightarrow> byte \<Rightarrow> 's + 'r) \<Rightarrow> byte list \<Rightarrow> nat \<Rightarrow> 's \<Rightarrow> 's + nat \<times> 'r" where
  "feed step d p s =
     (if p < length d
      then (case step d p s (d ! p) of
              Inl s' \<Rightarrow> feed step d (Suc p) s'
            | Inr r \<Rightarrow> Inr (p, r))
      else Inl s)"
  by pat_completeness auto
termination
  by (relation "measure (\<lambda>(step, d, p, s). length d - p)") auto

declare feed.simps [simp del]

lemma feed_end: "length d \<le> p \<Longrightarrow> feed step d p s = Inl s"
  by (simp add: feed.simps)

lemma feed_step:
  "p < length d \<Longrightarrow> feed step d p s =
     (case step d p s (d ! p) of Inl s' \<Rightarrow> feed step d (Suc p) s' | Inr r \<Rightarrow> Inr (p, r))"
  by (simp add: feed.simps)

lemma feed_bound: "feed step d p s = Inr (q, r) \<Longrightarrow> p \<le> q \<and> q < length d"
proof (induction step d p s rule: feed.induct)
  case (1 step d p s)
  show ?case
  proof (cases "p < length d")
    case True
    with 1 show ?thesis
      by (fastforce simp: feed_step split: sum.splits)
  next
    case False
    with 1 show ?thesis by (simp add: feed_end)
  qed
qed

text \<open>
  A property of the state that every step keeps holds at the end of the loop, whichever
  way it is left.
\<close>

lemma feed_invariant:
  assumes step: "\<And>p s s'. p < length d \<Longrightarrow> I p s \<Longrightarrow> step d p s (d ! p) = Inl s' \<Longrightarrow> I (Suc p) s'"
    and stop: "\<And>p s r. p < length d \<Longrightarrow> I p s \<Longrightarrow> step d p s (d ! p) = Inr r \<Longrightarrow> J p r"
    and "I p s" and "p \<le> length d"
  shows "case feed step d p s of Inl s' \<Rightarrow> I (length d) s' | Inr (q, r) \<Rightarrow> J q r"
  using assms(3,4)
proof (induction "length d - p" arbitrary: p s)
  case 0
  then show ?case by (simp add: feed_end)
next
  case (Suc n)
  then have p: "p < length d" by simp
  show ?case
  proof (cases "step d p s (d ! p)")
    case (Inl s')
    with step p Suc have "I (Suc p) s'" by blast
    with Suc p Inl show ?thesis by (simp add: feed_step)
  next
    case (Inr r)
    with stop p Suc show ?thesis by (simp add: feed_step)
  qed
qed

text \<open>\<open>run step pre post s\<close>: the loop on the buffer \<open>pre @ post\<close> when \<open>pre\<close> is behind it.\<close>

definition run ::
  "(byte list \<Rightarrow> nat \<Rightarrow> 's \<Rightarrow> byte \<Rightarrow> 's + 'r) \<Rightarrow> byte list \<Rightarrow> byte list \<Rightarrow> 's \<Rightarrow> 's + nat \<times> 'r" where
  "run step pre post s = feed step (pre @ post) (length pre) s"

lemma run_Nil [simp]: "run step pre [] s = Inl s"
  by (simp add: run_def feed_end)

lemma run_Cons:
  "run step pre (c # post) s =
     (case step (pre @ c # post) (length pre) s c of
        Inl s' \<Rightarrow> run step (pre @ [c]) post s'
      | Inr r \<Rightarrow> Inr (length pre, r))"
  by (simp add: run_def feed_step split: sum.split)

lemma run_skip:
  assumes "\<And>c d p. c \<in> set xs \<Longrightarrow> step d p s c = Inl s"
  shows "run step pre (xs @ post) s = run step (pre @ xs) post s"
  using assms by (induction xs arbitrary: pre) (simp_all add: run_Cons)

text \<open>
  The contract of an incremental parser: a step may look back into the buffer but not ahead
  of the byte it handles. Then a buffer that arrives in two pieces is parsed like one that
  arrives at once.
\<close>

locale incremental =
  fixes step :: "byte list \<Rightarrow> nat \<Rightarrow> 's \<Rightarrow> byte \<Rightarrow> 's + 'r"
  assumes no_lookahead: "p < length d \<Longrightarrow> step (d @ e) p s c = step d p s c"
begin

lemma feed_append:
  "p \<le> length d \<Longrightarrow> feed step (d @ e) p s =
     (case feed step d p s of Inl s' \<Rightarrow> feed step (d @ e) (length d) s' | Inr qr \<Rightarrow> Inr qr)"
proof (induction "length d - p" arbitrary: p s)
  case 0
  then show ?case by (simp add: feed_end)
next
  case (Suc n)
  then have "p < length d" by simp
  with Suc show ?case
    by (simp add: feed_step nth_append no_lookahead split: sum.split)
qed

lemma feed_again:
  "p \<le> length d \<Longrightarrow> feed step d p s = Inl s' \<Longrightarrow>
     feed step (d @ e) p s = feed step (d @ e) (length d) s'"
  by (simp add: feed_append)

lemma feed_stop:
  "p \<le> length d \<Longrightarrow> feed step d p s = Inr qr \<Longrightarrow> feed step (d @ e) p s = Inr qr"
  by (simp add: feed_append)

end

section \<open>Bits of a byte\<close>

lemma bit_byte_ge [simp]: "8 \<le> n \<Longrightarrow> \<not> bit (b :: byte) n"
  using bit_imp_le_length [of b n] by auto

lemma less_8D: "n < (8 :: nat) \<Longrightarrow>
    n = 0 \<or> n = 1 \<or> n = 2 \<or> n = 3 \<or> n = 4 \<or> n = 5 \<or> n = 6 \<or> n = 7"
  by presburger

lemma byte_eqI:
  assumes "bit (a :: byte) 0 = bit b 0" "bit a 1 = bit b 1" "bit a 2 = bit b 2"
    "bit a 3 = bit b 3" "bit a 4 = bit b 4" "bit a 5 = bit b 5" "bit a 6 = bit b 6"
    "bit a 7 = bit b 7"
  shows "a = b"
proof (rule bit_word_eqI)
  fix n assume "n < LENGTH(8)"
  then have "n < 8" by simp
  from less_8D [OF this] show "bit a n = bit b n"
    by (elim disjE) (simp_all only: assms)
qed

text \<open>
  Membership in a set of bytes given as a bitmap of eight 32-bit words, the test
  \<open>map[ch >> 5] & (1 << (ch & 0x1f))\<close> of the sources.
\<close>

definition bitmap_test :: "u32 list \<Rightarrow> byte \<Rightarrow> bool" where
  "bitmap_test tbl ch \<longleftrightarrow>
     tbl ! unat (drop_bit 5 ch) AND push_bit (unat (ch AND 0x1f)) 1 \<noteq> 0"

section \<open>Encodings\<close>

text \<open>
  What a pair of an encoder and a decoder promises, and what a caller that sizes its buffer
  before it encodes relies on: the announced size is the size written.
\<close>

locale codec =
  fixes enc :: "'a list \<Rightarrow> byte list"
    and dec :: "byte list \<Rightarrow> 'a list option"
  assumes dec_enc: "dec (enc x) = Some x"
begin

lemma enc_inject: "enc x = enc y \<longleftrightarrow> x = y"
  by (metis dec_enc option.inject)

lemma dec_onto: "\<exists>d. dec d = Some x"
  using dec_enc by blast

end

locale sized_codec = codec enc dec
  for enc :: "'a list \<Rightarrow> byte list" and dec :: "byte list \<Rightarrow> 'a list option" +
  fixes enc_size :: "'a list \<Rightarrow> nat"
  assumes length_enc: "length (enc x) = enc_size x"
begin

lemma fits: "enc_size x \<le> n \<Longrightarrow> length (enc x) \<le> n \<and> dec (enc x) = Some x"
  by (simp add: length_enc dec_enc)

end

end
