(* ===== verification/NgxRbtree.thy ===== *)
theory NgxRbtree
  imports Prelude
begin

text \<open>
  The red-black tree of src/core/ngx_rbtree.c: rotations, insertion and its repair. The nodes live
  in a memory with one function for each field; the trees they form are a data type whose nodes
  are addresses, and \<open>plug\<close> puts a tree at a place of another one. The keys are ordered by the
  comparison of the function that a tree is initialised with.
\<close>

section \<open>The memory\<close>

type_synonym ptr = u64

abbreviation (input) NULL :: ptr where
  "NULL \<equiv> 0"

record rbs =
  rb_root :: ptr
  n_key :: "ptr \<Rightarrow> u64"
  n_left :: "ptr \<Rightarrow> ptr"
  n_right :: "ptr \<Rightarrow> ptr"
  n_parent :: "ptr \<Rightarrow> ptr"
  n_red :: "ptr \<Rightarrow> bool"

definition set_left :: "ptr \<Rightarrow> ptr \<Rightarrow> rbs \<Rightarrow> rbs" where
  "set_left x v m = m\<lparr>n_left := (n_left m)(x := v)\<rparr>"

definition set_right :: "ptr \<Rightarrow> ptr \<Rightarrow> rbs \<Rightarrow> rbs" where
  "set_right x v m = m\<lparr>n_right := (n_right m)(x := v)\<rparr>"

definition set_parent :: "ptr \<Rightarrow> ptr \<Rightarrow> rbs \<Rightarrow> rbs" where
  "set_parent x v m = m\<lparr>n_parent := (n_parent m)(x := v)\<rparr>"

definition ngx_rbt_red :: "ptr \<Rightarrow> rbs \<Rightarrow> rbs" where
  "ngx_rbt_red x m = m\<lparr>n_red := (n_red m)(x := True)\<rparr>"

definition ngx_rbt_black :: "ptr \<Rightarrow> rbs \<Rightarrow> rbs" where
  "ngx_rbt_black x m = m\<lparr>n_red := (n_red m)(x := False)\<rparr>"

definition ngx_rbt_copy_color :: "ptr \<Rightarrow> ptr \<Rightarrow> rbs \<Rightarrow> rbs" where
  "ngx_rbt_copy_color x y m = m\<lparr>n_red := (n_red m)(x := n_red m y)\<rparr>"

section \<open>Rotations\<close>

definition ngx_rbtree_left_rotate :: "ptr \<Rightarrow> ptr \<Rightarrow> rbs \<Rightarrow> rbs" where
  "ngx_rbtree_left_rotate sentinel node m =
     (let temp = n_right m node;
          m = set_right node (n_left m temp) m;
          m = (if n_left m temp \<noteq> sentinel then set_parent (n_left m temp) node m else m);
          m = set_parent temp (n_parent m node) m;
          m = (if node = rb_root m then m\<lparr>rb_root := temp\<rparr>
               else if node = n_left m (n_parent m node) then set_left (n_parent m node) temp m
               else set_right (n_parent m node) temp m);
          m = set_left temp node m
      in set_parent node temp m)"

definition ngx_rbtree_right_rotate :: "ptr \<Rightarrow> ptr \<Rightarrow> rbs \<Rightarrow> rbs" where
  "ngx_rbtree_right_rotate sentinel node m =
     (let temp = n_left m node;
          m = set_left node (n_right m temp) m;
          m = (if n_right m temp \<noteq> sentinel then set_parent (n_right m temp) node m else m);
          m = set_parent temp (n_parent m node) m;
          m = (if node = rb_root m then m\<lparr>rb_root := temp\<rparr>
               else if node = n_right m (n_parent m node) then set_right (n_parent m node) temp m
               else set_left (n_parent m node) temp m);
          m = set_right temp node m
      in set_parent node temp m)"

section \<open>Insertion\<close>

text \<open>
  The loop that goes down to the place of the new node: it ends at a node whose left or right child
  is the sentinel. The comparison \<open>lt\<close> is \<open>node->key < temp->key\<close> of the respective function.
\<close>

partial_function (option) insert_place :: "(ptr \<Rightarrow> bool) \<Rightarrow> ptr \<Rightarrow> rbs \<Rightarrow> ptr \<Rightarrow> (bool \<times> ptr) option" where
  "insert_place lt sentinel m temp =
     (let p = (if lt temp then n_left m temp else n_right m temp)
      in if p = sentinel then Some (lt temp, temp) else insert_place lt sentinel m p)"

definition insert_by :: "(ptr \<Rightarrow> bool) \<Rightarrow> ptr \<Rightarrow> ptr \<Rightarrow> ptr \<Rightarrow> rbs \<Rightarrow> rbs option" where
  "insert_by lt temp node sentinel m =
     (case insert_place lt sentinel m temp of
        None \<Rightarrow> None
      | Some (is_left, temp) \<Rightarrow>
          let m = (if is_left then set_left temp node m else set_right temp node m);
              m = set_parent node temp m;
              m = set_left node sentinel m;
              m = set_right node sentinel m
          in Some (ngx_rbt_red node m))"

definition ngx_rbtree_insert_value :: "ptr \<Rightarrow> ptr \<Rightarrow> ptr \<Rightarrow> rbs \<Rightarrow> rbs option" where
  "ngx_rbtree_insert_value temp node sentinel m =
     insert_by (\<lambda>temp. n_key m node < n_key m temp) temp node sentinel m"

definition ngx_rbtree_insert_timer_value :: "ptr \<Rightarrow> ptr \<Rightarrow> ptr \<Rightarrow> rbs \<Rightarrow> rbs option" where
  "ngx_rbtree_insert_timer_value temp node sentinel m =
     insert_by (\<lambda>temp. n_key m node - n_key m temp <s 0) temp node sentinel m"

text \<open>One turn of the loop that repairs the tree, and the loop.\<close>

definition insert_fix_left :: "ptr \<Rightarrow> ptr \<Rightarrow> rbs \<Rightarrow> ptr \<times> rbs" where
  "insert_fix_left sentinel node m =
     (let temp = n_right m (n_parent m (n_parent m node)) in
      if n_red m temp then
        (let m = ngx_rbt_black (n_parent m node) m;
             m = ngx_rbt_black temp m;
             m = ngx_rbt_red (n_parent m (n_parent m node)) m
         in (n_parent m (n_parent m node), m))
      else
        (let (node, m) =
               (if node = n_right m (n_parent m node)
                then (n_parent m node, ngx_rbtree_left_rotate sentinel (n_parent m node) m)
                else (node, m));
             m = ngx_rbt_black (n_parent m node) m;
             m = ngx_rbt_red (n_parent m (n_parent m node)) m
         in (node, ngx_rbtree_right_rotate sentinel (n_parent m (n_parent m node)) m)))"

definition insert_fix_right :: "ptr \<Rightarrow> ptr \<Rightarrow> rbs \<Rightarrow> ptr \<times> rbs" where
  "insert_fix_right sentinel node m =
     (let temp = n_left m (n_parent m (n_parent m node)) in
      if n_red m temp then
        (let m = ngx_rbt_black (n_parent m node) m;
             m = ngx_rbt_black temp m;
             m = ngx_rbt_red (n_parent m (n_parent m node)) m
         in (n_parent m (n_parent m node), m))
      else
        (let (node, m) =
               (if node = n_left m (n_parent m node)
                then (n_parent m node, ngx_rbtree_right_rotate sentinel (n_parent m node) m)
                else (node, m));
             m = ngx_rbt_black (n_parent m node) m;
             m = ngx_rbt_red (n_parent m (n_parent m node)) m
         in (node, ngx_rbtree_left_rotate sentinel (n_parent m (n_parent m node)) m)))"

definition insert_fix :: "ptr \<Rightarrow> ptr \<Rightarrow> rbs \<Rightarrow> ptr \<times> rbs" where
  "insert_fix sentinel node m =
     (if n_parent m node = n_left m (n_parent m (n_parent m node)) then insert_fix_left sentinel node m
      else insert_fix_right sentinel node m)"

partial_function (option) insert_loop :: "ptr \<Rightarrow> ptr \<Rightarrow> rbs \<Rightarrow> rbs option" where
  "insert_loop sentinel node m =
     (if node \<noteq> rb_root m \<and> n_red m (n_parent m node)
      then (case insert_fix sentinel node m of (node, m) \<Rightarrow> insert_loop sentinel node m)
      else Some m)"

definition ngx_rbtree_insert ::
  "(ptr \<Rightarrow> ptr \<Rightarrow> ptr \<Rightarrow> rbs \<Rightarrow> rbs option) \<Rightarrow> ptr \<Rightarrow> ptr \<Rightarrow> rbs \<Rightarrow> rbs option" where
  "ngx_rbtree_insert ins sentinel node m =
     (if rb_root m = sentinel then
        (let m = set_parent node NULL m;
             m = set_left node sentinel m;
             m = set_right node sentinel m;
             m = ngx_rbt_black node m
         in Some (m\<lparr>rb_root := node\<rparr>))
      else case ins (rb_root m) node sentinel m of
             None \<Rightarrow> None
           | Some m \<Rightarrow>
               (case insert_loop sentinel node m of
                  None \<Rightarrow> None
                | Some m \<Rightarrow> Some (ngx_rbt_black (rb_root m) m)))"

section \<open>Trees of nodes\<close>

datatype rbt = Leaf | Node bool rbt ptr rbt

fun nodes :: "rbt \<Rightarrow> ptr list" where
  "nodes Leaf = []"
| "nodes (Node c l x r) = nodes l @ x # nodes r"

fun addr :: "ptr \<Rightarrow> rbt \<Rightarrow> ptr" where
  "addr s Leaf = s"
| "addr s (Node c l x r) = x"

fun is_red :: "rbt \<Rightarrow> bool" where
  "is_red Leaf = False"
| "is_red (Node c l x r) = c"

text \<open>The tree \<open>t\<close> lies in the memory, below the node \<open>q\<close>.\<close>

fun lies :: "rbs \<Rightarrow> ptr \<Rightarrow> ptr \<Rightarrow> rbt \<Rightarrow> bool" where
  "lies m s q Leaf = True"
| "lies m s q (Node c l x r) =
     (n_red m x = c \<and> n_parent m x = q \<and> n_left m x = addr s l \<and> n_right m x = addr s r \<and>
      lies m s x l \<and> lies m s x r)"

text \<open>The way from a place up to the root: the nodes above it, with their colours and other subtrees.\<close>

datatype frame = GoL bool ptr rbt | GoR bool rbt ptr

fun plug :: "frame list \<Rightarrow> rbt \<Rightarrow> rbt" where
  "plug [] t = t"
| "plug (GoL c x r # path) t = plug path (Node c t x r)"
| "plug (GoR c l x # path) t = plug path (Node c l x t)"

fun above :: "ptr \<Rightarrow> frame list \<Rightarrow> ptr" where
  "above q [] = q"
| "above q (GoL c x r # path) = x"
| "above q (GoR c l x # path) = x"

fun lies_path :: "rbs \<Rightarrow> ptr \<Rightarrow> ptr \<Rightarrow> frame list \<Rightarrow> ptr \<Rightarrow> bool" where
  "lies_path m s q [] p = True"
| "lies_path m s q (GoL c x r # path) p =
     (n_red m x = c \<and> n_parent m x = above q path \<and> n_left m x = p \<and> n_right m x = addr s r \<and>
      lies m s x r \<and> lies_path m s q path x)"
| "lies_path m s q (GoR c l x # path) p =
     (n_red m x = c \<and> n_parent m x = above q path \<and> n_left m x = addr s l \<and> n_right m x = p \<and>
      lies m s x l \<and> lies_path m s q path x)"

fun before :: "frame list \<Rightarrow> ptr list" where
  "before [] = []"
| "before (GoL c x r # path) = before path"
| "before (GoR c l x # path) = before path @ nodes l @ [x]"

fun behind :: "frame list \<Rightarrow> ptr list" where
  "behind [] = []"
| "behind (GoL c x r # path) = x # nodes r @ behind path"
| "behind (GoR c l x # path) = behind path"

definition on_path :: "frame list \<Rightarrow> ptr set" where
  "on_path path = set (before path) \<union> set (behind path)"

lemma on_path_simps [simp]:
  "on_path [] = {}"
  "on_path (GoL c x r # path) = insert x (set (nodes r) \<union> on_path path)"
  "on_path (GoR c l x # path) = insert x (set (nodes l) \<union> on_path path)"
  by (auto simp: on_path_def)

lemma nodes_plug: "nodes (plug path t) = before path @ nodes t @ behind path"
  by (induction path t rule: plug.induct) simp_all

lemma lies_plug: "lies m s q (plug path t) \<longleftrightarrow> lies_path m s q path (addr s t) \<and> lies m s (above q path) t"
  by (induction path t rule: plug.induct) auto

fun root_at :: "frame list \<Rightarrow> ptr \<Rightarrow> ptr" where
  "root_at [] p = p"
| "root_at (GoL c x r # path) p = root_at path x"
| "root_at (GoR c l x # path) p = root_at path x"

lemma addr_plug: "addr s (plug path t) = root_at path (addr s t)"
  by (induction path t rule: plug.induct) simp_all

lemma root_at_cases: "root_at path p = p \<or> root_at path p \<in> on_path path"
  by (induction path p rule: root_at.induct) auto

lemma root_at_Cons: "root_at (f # path) p \<in> on_path (f # path)"
  using root_at_cases [of path] by (cases f) (simp_all, metis+)

lemma root_at_upd: "path \<noteq> [] \<Longrightarrow> root_at path p = root_at path p'"
  by (induction path p rule: root_at.induct) simp_all

section \<open>Assignments outside a tree\<close>

lemmas set_defs = set_left_def set_right_def set_parent_def ngx_rbt_red_def ngx_rbt_black_def ngx_rbt_copy_color_def

lemma lies_other:
  "(\<And>x. x \<in> set (nodes t) \<Longrightarrow> n_left m' x = n_left m x \<and> n_right m' x = n_right m x \<and>
      n_parent m' x = n_parent m x \<and> n_red m' x = n_red m x) \<Longrightarrow>
   lies m' s q t = lies m s q t"
  by (induction t arbitrary: q) auto

lemma lies_path_other:
  "(\<And>x. x \<in> on_path path \<Longrightarrow> n_left m' x = n_left m x \<and> n_right m' x = n_right m x \<and>
      n_parent m' x = n_parent m x \<and> n_red m' x = n_red m x) \<Longrightarrow>
   lies_path m' s q path p = lies_path m s q path p"
proof (induction path arbitrary: p)
  case (Cons f path)
  then show ?case by (cases f) (auto simp: lies_other [of _ m' m])
qed simp

lemma lies_upd [simp]:
  "x \<notin> set (nodes t) \<Longrightarrow> lies (set_left x v m) s q t = lies m s q t"
  "x \<notin> set (nodes t) \<Longrightarrow> lies (set_right x v m) s q t = lies m s q t"
  "x \<notin> set (nodes t) \<Longrightarrow> lies (set_parent x v m) s q t = lies m s q t"
  "x \<notin> set (nodes t) \<Longrightarrow> lies (ngx_rbt_red x m) s q t = lies m s q t"
  "x \<notin> set (nodes t) \<Longrightarrow> lies (ngx_rbt_black x m) s q t = lies m s q t"
  "x \<notin> set (nodes t) \<Longrightarrow> lies (ngx_rbt_copy_color x y m) s q t = lies m s q t"
  "lies (m\<lparr>rb_root := p\<rparr>) s q t = lies m s q t"
  by (rule lies_other; force simp: set_defs)+

lemma lies_path_upd [simp]:
  "x \<notin> on_path path \<Longrightarrow> lies_path (set_left x v m) s q path p = lies_path m s q path p"
  "x \<notin> on_path path \<Longrightarrow> lies_path (set_right x v m) s q path p = lies_path m s q path p"
  "x \<notin> on_path path \<Longrightarrow> lies_path (set_parent x v m) s q path p = lies_path m s q path p"
  "x \<notin> on_path path \<Longrightarrow> lies_path (ngx_rbt_red x m) s q path p = lies_path m s q path p"
  "x \<notin> on_path path \<Longrightarrow> lies_path (ngx_rbt_black x m) s q path p = lies_path m s q path p"
  "x \<notin> on_path path \<Longrightarrow> lies_path (ngx_rbt_copy_color x y m) s q path p = lies_path m s q path p"
  "lies_path (m\<lparr>rb_root := r\<rparr>) s q path p = lies_path m s q path p"
  by (rule lies_path_other; force simp: set_defs)+

lemma set_simps [simp]:
  "n_left (set_left x v m) = (n_left m)(x := v)" "n_right (set_left x v m) = n_right m"
  "n_parent (set_left x v m) = n_parent m" "n_red (set_left x v m) = n_red m" "rb_root (set_left x v m) = rb_root m"
  "n_left (set_right x v m) = n_left m" "n_right (set_right x v m) = (n_right m)(x := v)"
  "n_parent (set_right x v m) = n_parent m" "n_red (set_right x v m) = n_red m" "rb_root (set_right x v m) = rb_root m"
  "n_left (set_parent x v m) = n_left m" "n_right (set_parent x v m) = n_right m"
  "n_parent (set_parent x v m) = (n_parent m)(x := v)" "n_red (set_parent x v m) = n_red m" "rb_root (set_parent x v m) = rb_root m"
  "n_key (set_left x v m) = n_key m" "n_key (set_right x v m) = n_key m" "n_key (set_parent x v m) = n_key m"
  by (simp_all add: set_defs)

lemma colour_simps [simp]:
  "n_left (ngx_rbt_red x m) = n_left m" "n_right (ngx_rbt_red x m) = n_right m" "n_parent (ngx_rbt_red x m) = n_parent m"
  "n_red (ngx_rbt_red x m) = (n_red m)(x := True)" "rb_root (ngx_rbt_red x m) = rb_root m" "n_key (ngx_rbt_red x m) = n_key m"
  "n_left (ngx_rbt_black x m) = n_left m" "n_right (ngx_rbt_black x m) = n_right m" "n_parent (ngx_rbt_black x m) = n_parent m"
  "n_red (ngx_rbt_black x m) = (n_red m)(x := False)" "rb_root (ngx_rbt_black x m) = rb_root m" "n_key (ngx_rbt_black x m) = n_key m"
  "n_left (ngx_rbt_copy_color x y m) = n_left m" "n_right (ngx_rbt_copy_color x y m) = n_right m"
  "n_parent (ngx_rbt_copy_color x y m) = n_parent m" "n_red (ngx_rbt_copy_color x y m) = (n_red m)(x := n_red m y)"
  "rb_root (ngx_rbt_copy_color x y m) = rb_root m" "n_key (ngx_rbt_copy_color x y m) = n_key m"
  by (simp_all add: set_defs)

text \<open>The address at the place of a path is replaced.\<close>

fun link :: "frame list \<Rightarrow> ptr \<Rightarrow> rbs \<Rightarrow> rbs" where
  "link [] p m = m\<lparr>rb_root := p\<rparr>"
| "link (GoL c x r # path) p m = set_left x p m"
| "link (GoR c l x # path) p m = set_right x p m"

lemma addr_in: "addr s t = s \<or> addr s t \<in> set (nodes t)"
  by (cases t) auto

lemma link_code:
  assumes "rb_root m = root_at path x" "lies_path m s q path x" "n_parent m x = above q path"
    "x \<notin> on_path path" "x \<noteq> s"
  shows "(if x = rb_root m then m\<lparr>rb_root := y\<rparr>
          else if x = n_left m (n_parent m x) then set_left (n_parent m x) y m
          else set_right (n_parent m x) y m) = link path y m" (is "?left = _")
    and "(if x = rb_root m then m\<lparr>rb_root := y\<rparr>
          else if x = n_right m (n_parent m x) then set_right (n_parent m x) y m
          else set_left (n_parent m x) y m) = link path y m" (is "?right = _")
proof -
  have "?left = link path y m \<and> ?right = link path y m"
  proof (cases path)
    case (Cons f path')
    have ne: "x \<noteq> rb_root m" using assms(1,4) root_at_Cons [of f path' x] Cons by auto
    show ?thesis
    proof (cases f)
      case (GoL c p r)
      have "x \<noteq> addr s r" using addr_in [of s r] assms(4,5) Cons GoL by auto
      with ne assms Cons GoL show ?thesis by simp
    next
      case (GoR c l p)
      have "x \<noteq> addr s l" using addr_in [of s l] assms(4,5) Cons GoR by auto
      with ne assms Cons GoR show ?thesis by simp
    qed
  qed (use assms in simp)
  then show "?left = link path y m" "?right = link path y m" by auto
qed

definition in_mem :: "rbs \<Rightarrow> ptr \<Rightarrow> rbt \<Rightarrow> bool" where
  "in_mem m s t \<longleftrightarrow>
     rb_root m = addr s t \<and> (\<exists>q. lies m s q t) \<and> distinct (nodes t) \<and> s \<notin> set (nodes t) \<and> \<not> n_red m s"

definition distinct_path :: "frame list \<Rightarrow> rbt \<Rightarrow> bool" where
  "distinct_path path t \<longleftrightarrow> distinct (nodes t) \<and> distinct (before path @ behind path) \<and> on_path path \<inter> set (nodes t) = {}"

lemma distinct_plug: "distinct (nodes (plug path t)) = distinct_path path t"
  by (auto simp: distinct_path_def nodes_plug on_path_def)

lemma set_plug: "set (nodes (plug path t)) = on_path path \<union> set (nodes t)"
  by (auto simp: nodes_plug on_path_def)

lemma in_mem_plug:
  "in_mem m s (plug path t) \<longleftrightarrow>
     rb_root m = root_at path (addr s t) \<and>
     (\<exists>q. lies_path m s q path (addr s t) \<and> lies m s (above q path) t) \<and>
     distinct_path path t \<and> s \<notin> on_path path \<and> s \<notin> set (nodes t) \<and> \<not> n_red m s"
  by (auto simp: in_mem_def addr_plug lies_plug distinct_plug set_plug)

lemma link_simps [simp]:
  "n_parent (link path p m) = n_parent m" "n_red (link path p m) = n_red m" "n_key (link path p m) = n_key m"
  by (induction path p m rule: link.induct) (simp_all add: set_defs)

lemma link_other:
  "x \<notin> on_path path \<Longrightarrow> n_left (link path p m) x = n_left m x \<and> n_right (link path p m) x = n_right m x"
  by (induction path p m rule: link.induct) (auto simp: set_defs)

lemma lies_link: "on_path path \<inter> set (nodes t) = {} \<Longrightarrow> lies (link path p m) s q t = lies m s q t"
  by (rule lies_other) (use link_other [of _ path p m] in auto)

lemma lies_path_link:
  assumes "lies_path m s q path p" "distinct (before path @ behind path)"
  shows "lies_path (link path p' m) s q path p'"
proof (cases path)
  case (Cons f path')
  show ?thesis
  proof (cases f)
    case (GoL c x r)
    with Cons assms show ?thesis
      by (auto simp: on_path_def)
  next
    case (GoR c l x)
    with Cons assms show ?thesis
      by (auto simp: on_path_def)
  qed
qed simp

lemma root_link: "rb_root m = root_at path p \<Longrightarrow> rb_root (link path p' m) = root_at path p'"
  by (induction path p' m rule: link.induct) (simp_all add: set_defs)

text \<open>The parent of a subtree is replaced.\<close>

lemma lies_reparent:
  assumes "lies m s q t" "distinct (nodes t)" "s \<notin> set (nodes t)"
  shows "lies (if addr s t \<noteq> s then set_parent (addr s t) q' m else m) s q' t"
  using assms by (cases t) auto

definition relink_child :: "ptr \<Rightarrow> ptr \<Rightarrow> ptr \<Rightarrow> rbs \<Rightarrow> rbs" where
  "relink_child s p x m = (if p \<noteq> s then set_parent p x m else m)"

lemma relink_simps [simp]:
  "rb_root (relink_child s p x m) = rb_root m" "n_left (relink_child s p x m) = n_left m"
  "n_right (relink_child s p x m) = n_right m" "n_red (relink_child s p x m) = n_red m" "n_key (relink_child s p x m) = n_key m"
  "p \<noteq> y \<Longrightarrow> n_parent (relink_child s p x m) y = n_parent m y"
  "p \<notin> on_path path \<Longrightarrow> lies_path (relink_child s p x m) s' q path v = lies_path m s' q path v"
  "p \<notin> set (nodes t) \<Longrightarrow> lies (relink_child s p x m) s' q t = lies m s' q t"
  by (auto simp: relink_child_def)

lemma lies_relink [simp]:
  "lies m s q t \<Longrightarrow> distinct (nodes t) \<Longrightarrow> s \<notin> set (nodes t) \<Longrightarrow> lies (relink_child s (addr s t) q' m) s q' t"
  unfolding relink_child_def by (rule lies_reparent)

lemma left_rotate_code:
  assumes "in_mem m s (plug path (Node c a x (Node d b y e)))"
  shows "ngx_rbtree_left_rotate s x m =
    set_parent x y (set_left y x (link path y (set_parent y (n_parent m x) (relink_child s (addr s b) x (set_right x (addr s b) m)))))"
proof -
  from assms obtain q where q: "rb_root m = root_at path x" "lies_path m s q path x"
     "lies m s (above q path) (Node c a x (Node d b y e))"
     "distinct_path path (Node c a x (Node d b y e))" "s \<notin> on_path path" "s \<notin> set (nodes (Node c a x (Node d b y e)))"
    unfolding in_mem_plug addr.simps by blast
  have n: "x \<noteq> s" "x \<notin> on_path path" "y \<notin> on_path path" "x \<noteq> y" using q(4,6) by (auto simp: distinct_path_def)
  have b: "addr s b \<notin> on_path path" "addr s b \<noteq> x"
    using addr_in [of s b] q(4-6) by (auto simp: distinct_path_def)
  have p: "n_right m x = y" "n_left m y = addr s b" using q(3) by simp_all
  define m2 where "m2 = set_parent y (n_parent m x) (relink_child s (addr s b) x (set_right x (addr s b) m))"
  have "rb_root m2 = root_at path x" "lies_path m2 s q path x" "n_parent m2 x = above q path"
    using q n b unfolding m2_def by simp_all
  note code = link_code(1) [OF this n(2,1), of y]
  have "ngx_rbtree_left_rotate s x m = set_parent x y (set_left y x
      (if x = rb_root m2 then m2\<lparr>rb_root := y\<rparr>
       else if x = n_left m2 (n_parent m2 x) then set_left (n_parent m2 x) y m2
       else set_right (n_parent m2 x) y m2))"
    unfolding ngx_rbtree_left_rotate_def Let_def m2_def p set_simps relink_child_def [symmetric]
    using b n by (simp add: p relink_child_def [symmetric])
  from this [unfolded code] show ?thesis unfolding m2_def .
qed

lemma left_rotate:
  assumes "in_mem m s (plug path (Node c a x (Node d b y e)))"
  shows "in_mem (ngx_rbtree_left_rotate s x m) s (plug path (Node d (Node c a x b) y e))"
proof -
  from assms obtain q where q: "rb_root m = root_at path x" "lies_path m s q path x"
     "lies m s (above q path) (Node c a x (Node d b y e))"
     "distinct_path path (Node c a x (Node d b y e))" "s \<notin> on_path path" "s \<notin> set (nodes (Node c a x (Node d b y e)))"
    "\<not> n_red m s"
    unfolding in_mem_plug addr.simps by blast
  have d: "distinct (before path @ behind path)" "x \<notin> on_path path" "y \<notin> on_path path" "x \<noteq> y"
    "on_path path \<inter> set (nodes a) = {}" "on_path path \<inter> set (nodes b) = {}" "on_path path \<inter> set (nodes e) = {}"
    "x \<notin> set (nodes a)" "x \<notin> set (nodes b)" "x \<notin> set (nodes e)" "y \<notin> set (nodes a)" "y \<notin> set (nodes b)" "y \<notin> set (nodes e)"
    "distinct (nodes b)" "set (nodes b) \<inter> set (nodes a) = {}" "set (nodes b) \<inter> set (nodes e) = {}"
    using q(4) by (auto simp: distinct_path_def)
  have b: "addr s b \<notin> on_path path" "addr s b \<noteq> x" "addr s b \<noteq> y" "addr s b \<notin> set (nodes a)" "addr s b \<notin> set (nodes e)"
    using addr_in [of s b] q(5,6) d by auto
  let ?m = "set_parent x y (set_left y x (link path y (set_parent y (n_parent m x) (relink_child s (addr s b) x (set_right x (addr s b) m)))))"
  have "rb_root ?m = root_at path y" using q(1) by (simp add: root_link)
  moreover have "lies_path ?m s q path y"
    using q d b by (auto intro!: lies_path_link [where p = x])
  moreover have "lies ?m s (above q path) (Node d (Node c a x b) y e)"
    using q(3,6) d b by (auto simp: lies_link link_other)
  ultimately show ?thesis
    unfolding left_rotate_code [OF assms] in_mem_plug addr.simps
    using q(4-7) d by (auto simp: distinct_path_def)
qed

text \<open>Nothing outside a set of addresses is changed.\<close>

definition same_outside :: "ptr set \<Rightarrow> rbs \<Rightarrow> rbs \<Rightarrow> bool" where
  "same_outside A m m' \<longleftrightarrow>
     (\<forall>y. y \<notin> A \<longrightarrow> n_left m' y = n_left m y \<and> n_right m' y = n_right m y \<and>
        n_parent m' y = n_parent m y \<and> n_red m' y = n_red m y \<and> n_key m' y = n_key m y)"

lemma same_outside_refl [simp]: "same_outside A m m"
  by (simp add: same_outside_def)

lemma same_outside_trans [trans]: "same_outside A m1 m2 \<Longrightarrow> same_outside A m2 m3 \<Longrightarrow> same_outside A m1 m3"
  by (simp add: same_outside_def)

lemma same_outside_mono: "same_outside A m m' \<Longrightarrow> A \<subseteq> B \<Longrightarrow> same_outside B m m'"
  by (auto simp: same_outside_def)

lemma same_outside_set [simp]:
  "x \<in> A \<Longrightarrow> same_outside A m (set_left x v m') = same_outside A m m'"
  "x \<in> A \<Longrightarrow> same_outside A m (set_right x v m') = same_outside A m m'"
  "x \<in> A \<Longrightarrow> same_outside A m (set_parent x v m') = same_outside A m m'"
  "x \<in> A \<Longrightarrow> same_outside A m (ngx_rbt_red x m') = same_outside A m m'"
  "x \<in> A \<Longrightarrow> same_outside A m (ngx_rbt_black x m') = same_outside A m m'"
  "x \<in> A \<Longrightarrow> same_outside A m (ngx_rbt_copy_color x y m') = same_outside A m m'"
  "same_outside A m (m'\<lparr>rb_root := p\<rparr>) = same_outside A m m'"
  by (auto simp: same_outside_def set_defs)

lemma same_outside_link: "on_path path \<subseteq> A \<Longrightarrow> same_outside A m (link path p m') = same_outside A m m'"
  by (induction path p m' rule: link.induct) simp_all

lemma left_rotate_outside:
  assumes "in_mem m s (plug path (Node c a x (Node d b y e)))"
  shows "same_outside (set (nodes (plug path (Node c a x (Node d b y e))))) m (ngx_rbtree_left_rotate s x m)"
    (is "same_outside ?A _ _")
proof -
  have "on_path path \<subseteq> ?A" "x \<in> ?A" "y \<in> ?A" "addr s b \<noteq> s \<Longrightarrow> addr s b \<in> ?A"
    using addr_in [of s b] by (auto simp: set_plug)
  then show ?thesis unfolding left_rotate_code [OF assms] by (simp add: same_outside_link relink_child_def)
qed

section \<open>Left and right exchanged\<close>

definition flip :: "rbs \<Rightarrow> rbs" where
  "flip m = m\<lparr>n_left := n_right m, n_right := n_left m\<rparr>"

fun mirror :: "rbt \<Rightarrow> rbt" where
  "mirror Leaf = Leaf"
| "mirror (Node c l x r) = Node c (mirror r) x (mirror l)"

fun mirror_frame :: "frame \<Rightarrow> frame" where
  "mirror_frame (GoL c x r) = GoR c (mirror r) x"
| "mirror_frame (GoR c l x) = GoL c x (mirror l)"

lemma flip_simps [simp]:
  "n_left (flip m) = n_right m" "n_right (flip m) = n_left m" "n_parent (flip m) = n_parent m"
  "n_red (flip m) = n_red m" "n_key (flip m) = n_key m" "rb_root (flip m) = rb_root m" "flip (flip m) = m"
  by (simp_all add: flip_def)

lemma flip_set [simp]:
  "flip (set_left x v m) = set_right x v (flip m)" "flip (set_right x v m) = set_left x v (flip m)"
  "flip (set_parent x v m) = set_parent x v (flip m)" "flip (ngx_rbt_red x m) = ngx_rbt_red x (flip m)"
  "flip (ngx_rbt_black x m) = ngx_rbt_black x (flip m)" "flip (ngx_rbt_copy_color x y m) = ngx_rbt_copy_color x y (flip m)"
  "flip (m\<lparr>rb_root := p\<rparr>) = flip m\<lparr>rb_root := p\<rparr>"
  by (simp_all add: flip_def set_defs)

lemma flip_if [simp]: "flip (if b then m else m') = (if b then flip m else flip m')"
  by simp

lemma mirror_simps [simp]:
  "mirror (mirror t) = t" "addr s (mirror t) = addr s t" "nodes (mirror t) = rev (nodes t)" "is_red (mirror t) = is_red t"
  by (induction t) simp_all

lemma mirror_eq: "mirror t = u \<longleftrightarrow> t = mirror u"
  by (metis mirror_simps(1))

lemma mirror_plug [simp]: "mirror (plug path t) = plug (map mirror_frame path) (mirror t)"
  by (induction path t rule: plug.induct) simp_all

lemma mirror_frame_simps [simp]: "mirror_frame (mirror_frame f) = f" "mirror_frame \<circ> mirror_frame = id"
proof -
  show *: "mirror_frame (mirror_frame f) = f" for f by (cases f) simp_all
  then show "mirror_frame \<circ> mirror_frame = id" by (simp add: fun_eq_iff)
qed

lemma lies_flip: "lies (flip m) s q (mirror t) = lies m s q t"
  by (induction t arbitrary: q) auto

lemma in_mem_flip: "in_mem (flip m) s (mirror t) = in_mem m s t"
  by (simp add: in_mem_def lies_flip)

lemma right_rotate_flip: "ngx_rbtree_right_rotate s x m = flip (ngx_rbtree_left_rotate s x (flip m))"
  by (simp only: ngx_rbtree_right_rotate_def ngx_rbtree_left_rotate_def Let_def flip_set [symmetric] flip_if [symmetric] flip_simps)

lemma insert_fix_right_flip: "insert_fix_right s x m = apsnd flip (insert_fix_left s x (flip m))"
  by (simp add: insert_fix_right_def insert_fix_left_def Let_def right_rotate_flip)

lemma right_rotate:
  assumes "in_mem m s (plug path (Node c (Node d e y b) x a))"
  shows "in_mem (ngx_rbtree_right_rotate s x m) s (plug path (Node d e y (Node c b x a)))"
proof -
  from assms have "in_mem (flip m) s (plug (map mirror_frame path) (Node c (mirror a) x (Node d (mirror b) y (mirror e))))"
    using in_mem_flip [of m s "plug path (Node c (Node d e y b) x a)"] by simp
  from left_rotate [OF this]
  show ?thesis
    using in_mem_flip [of "flip (ngx_rbtree_left_rotate s x (flip m))" s "plug path (Node d e y (Node c b x a))"]
    by (simp add: right_rotate_flip)
qed

lemma same_outside_flip: "same_outside A (flip m) (flip m') = same_outside A m m'"
  by (auto simp: same_outside_def)

lemma set_mirror_plug: "set (nodes (plug (map mirror_frame path) (mirror t))) = set (nodes (plug path t))"
  by (simp add: mirror_plug [symmetric] del: mirror_plug)

lemma right_rotate_outside:
  assumes "in_mem m s (plug path (Node c (Node d e y b) x a))"
  shows "same_outside (set (nodes (plug path (Node c (Node d e y b) x a)))) m (ngx_rbtree_right_rotate s x m)"
proof -
  from assms have "in_mem (flip m) s (plug (map mirror_frame path) (Node c (mirror a) x (Node d (mirror b) y (mirror e))))"
    using in_mem_flip [of m s "plug path (Node c (Node d e y b) x a)"] by simp
  from left_rotate_outside [OF this]
  have "same_outside (set (nodes (plug (map mirror_frame path) (mirror (Node c (Node d e y b) x a))))) (flip m)
      (ngx_rbtree_left_rotate s x (flip m))" by simp
  then show ?thesis
    using same_outside_flip [of _ m "flip (ngx_rbtree_left_rotate s x (flip m))"]
    unfolding set_mirror_plug by (simp add: right_rotate_flip)
qed

section \<open>What the memory says of a place\<close>

lemma rotate_simps [simp]:
  "n_red (ngx_rbtree_left_rotate s x m) = n_red m" "n_key (ngx_rbtree_left_rotate s x m) = n_key m"
  "n_red (ngx_rbtree_right_rotate s x m) = n_red m" "n_key (ngx_rbtree_right_rotate s x m) = n_key m"
  by (simp_all add: ngx_rbtree_left_rotate_def ngx_rbtree_right_rotate_def Let_def set_defs)

lemma in_mem_node:
  assumes "in_mem m s (plug path (Node c l x r))"
  shows "n_left m x = addr s l" "n_right m x = addr s r" "n_red m x = c" "x \<noteq> s"
    "path \<noteq> [] \<Longrightarrow> n_parent m x = above q path"
    "rb_root m = x \<longleftrightarrow> path = []"
proof -
  from assms obtain q' where q: "rb_root m = root_at path x" "lies m s (above q' path) (Node c l x r)"
     "distinct_path path (Node c l x r)" "s \<notin> set (nodes (Node c l x r))"
    unfolding in_mem_plug addr.simps by blast
  then show "n_left m x = addr s l" "n_right m x = addr s r" "n_red m x = c" "x \<noteq> s" by auto
  have above: "path \<noteq> [] \<Longrightarrow> above q' path = above q path" by (induction q' path rule: above.induct) simp_all
  then show "path \<noteq> [] \<Longrightarrow> n_parent m x = above q path" using q(2) by simp
  show "rb_root m = x \<longleftrightarrow> path = []"
    using q(1,3) root_at_Cons [of "hd path" "tl path" x] by (cases path) (auto simp: distinct_path_def)
qed

lemma in_mem_red: "in_mem m s (plug path t) \<Longrightarrow> n_red m (addr s t) = is_red t"
  by (cases t) (simp add: in_mem_def, simp add: in_mem_node(3))

lemma in_mem_recolour:
  assumes "in_mem m s (plug path (Node c l x r))"
  shows "in_mem (m\<lparr>n_red := (n_red m)(x := c')\<rparr>) s (plug path (Node c' l x r))" (is "in_mem ?m _ _")
proof -
  from assms obtain q where q: "rb_root m = root_at path x" "lies_path m s q path x"
     "lies m s (above q path) (Node c l x r)"
     "distinct_path path (Node c l x r)" "s \<notin> on_path path" "s \<notin> set (nodes (Node c l x r))" "\<not> n_red m s"
    unfolding in_mem_plug addr.simps by blast
  have d: "x \<notin> on_path path" "x \<notin> set (nodes l)" "x \<notin> set (nodes r)" "x \<noteq> s" using q by (auto simp: distinct_path_def)
  have "lies_path ?m s q path x = lies_path m s q path x" by (rule lies_path_other) (use d in auto)
  moreover have "lies ?m s x l = lies m s x l" "lies ?m s x r = lies m s x r" by (rule lies_other; use d in auto)+
  ultimately have "lies_path ?m s q path x" "lies ?m s (above q path) (Node c' l x r)" using q(2,3) by simp_all
  then show ?thesis
    unfolding in_mem_plug addr.simps using q(1,4-7) d(4) by (auto simp: distinct_path_def)
qed

lemma in_mem_colour:
  assumes "in_mem m s (plug path (Node c l x r))"
  shows "in_mem (ngx_rbt_red x m) s (plug path (Node True l x r))"
    "in_mem (ngx_rbt_black x m) s (plug path (Node False l x r))"
    "in_mem (ngx_rbt_copy_color x y m) s (plug path (Node (n_red m y) l x r))"
  unfolding ngx_rbt_red_def ngx_rbt_black_def ngx_rbt_copy_color_def by (rule in_mem_recolour [OF assms])+

section \<open>The colours and the black height\<close>

fun bheight :: "rbt \<Rightarrow> nat" where
  "bheight Leaf = 0"
| "bheight (Node c l x r) = (if c then bheight l else Suc (bheight l))"

fun balanced :: "rbt \<Rightarrow> bool" where
  "balanced Leaf = True"
| "balanced (Node c l x r) = (bheight l = bheight r \<and> balanced l \<and> balanced r)"

fun colour_ok :: "rbt \<Rightarrow> bool" where
  "colour_ok Leaf = True"
| "colour_ok (Node c l x r) = ((c \<longrightarrow> \<not> is_red l \<and> \<not> is_red r) \<and> colour_ok l \<and> colour_ok r)"

fun blacken :: "rbt \<Rightarrow> rbt" where
  "blacken Leaf = Leaf"
| "blacken (Node c l x r) = Node False l x r"

definition red_black :: "rbt \<Rightarrow> bool" where
  "red_black t \<longleftrightarrow> balanced t \<and> colour_ok t \<and> \<not> is_red t"

text \<open>A place where a tree of a black height, and of a colour, may be put.\<close>

fun balanced_path :: "frame list \<Rightarrow> nat \<Rightarrow> bool" where
  "balanced_path [] n = True"
| "balanced_path (GoL c x r # path) n =
     (bheight r = n \<and> balanced r \<and> balanced_path path (if c then n else Suc n))"
| "balanced_path (GoR c l x # path) n =
     (bheight l = n \<and> balanced l \<and> balanced_path path (if c then n else Suc n))"

fun colour_path :: "frame list \<Rightarrow> bool \<Rightarrow> bool" where
  "colour_path [] b = True"
| "colour_path (GoL c x r # path) b = (colour_ok r \<and> (c \<longrightarrow> \<not> b \<and> \<not> is_red r) \<and> colour_path path c)"
| "colour_path (GoR c l x # path) b = (colour_ok l \<and> (c \<longrightarrow> \<not> b \<and> \<not> is_red l) \<and> colour_path path c)"

lemma balanced_plug: "balanced (plug path t) \<longleftrightarrow> balanced_path path (bheight t) \<and> balanced t"
  by (induction path t rule: plug.induct) auto

lemma colour_plug: "colour_ok (plug path t) \<longleftrightarrow> colour_path path (is_red t) \<and> colour_ok t"
  by (induction path t rule: plug.induct) auto

lemma colour_path_black: "colour_path path b \<Longrightarrow> colour_path path False"
  by (cases "(path, b)" rule: colour_path.cases) auto

lemma blacken_simps [simp]: "nodes (blacken t) = nodes t" "balanced (blacken t) = balanced t" "\<not> is_red (blacken t)"
  "addr s (blacken t) = addr s t"
  by (cases t; simp)+

lemma colour_blacken: "colour_ok t \<Longrightarrow> colour_ok (blacken t)"
  by (cases t) auto

text \<open>The colour of the root, for a tree below a path.\<close>

lemma is_red_plug: "path \<noteq> [] \<Longrightarrow> is_red (plug path t) = is_red (plug path t')"
  by (induction path t arbitrary: t' rule: plug.induct) (metis plug.simps is_red.simps(2))+

section \<open>The repair after an insertion\<close>

lemma addr_eq_node: "addr s t = x \<Longrightarrow> x \<noteq> s \<Longrightarrow> \<exists>c l r. t = Node c l x r"
  by (cases t) auto

lemma in_mem_parent:
  assumes "in_mem m s (plug path t)" "path \<noteq> []" "t \<noteq> Leaf"
  shows "n_parent m (addr s t) = above q path"
proof -
  from assms(3) obtain c l x r where t: "t = Node c l x r" by (cases t) auto
  from in_mem_node(5) [OF assms(1) [unfolded t] assms(2)] show ?thesis by (simp add: t)
qed

lemma in_mem_GoL:
  assumes "in_mem m s (plug (GoL c p r # path) t)"
  shows "n_left m p = addr s t" "n_right m p = addr s r" "n_red m p = c" "p \<noteq> s"
    "path \<noteq> [] \<Longrightarrow> n_parent m p = above q path" "rb_root m = p \<longleftrightarrow> path = []"
    "n_red m (addr s t) = is_red t" "n_red m (addr s r) = is_red r"
    "t \<noteq> Leaf \<Longrightarrow> n_parent m (addr s t) = p" "r \<noteq> Leaf \<Longrightarrow> n_parent m (addr s r) = p"
    "t \<noteq> Leaf \<Longrightarrow> addr s t \<noteq> addr s r"
proof -
  have n: "in_mem m s (plug path (Node c t p r))" using assms by simp
  show "n_left m p = addr s t" "n_right m p = addr s r" "n_red m p = c" "p \<noteq> s"
    "path \<noteq> [] \<Longrightarrow> n_parent m p = above q path" "rb_root m = p \<longleftrightarrow> path = []"
    by (fact in_mem_node [OF n])+
  show "n_red m (addr s t) = is_red t" using in_mem_red [OF assms] .
  have r: "in_mem m s (plug (GoR c t p # path) r)" using assms by simp
  from in_mem_red [OF this] show "n_red m (addr s r) = is_red r" .
  show "t \<noteq> Leaf \<Longrightarrow> n_parent m (addr s t) = p" using in_mem_parent [OF assms] by simp
  show "r \<noteq> Leaf \<Longrightarrow> n_parent m (addr s r) = p" using in_mem_parent [OF r] by simp
  from n have "distinct_path path (Node c t p r)" "s \<notin> set (nodes (Node c t p r))" unfolding in_mem_plug by blast+
  then show "t \<noteq> Leaf \<Longrightarrow> addr s t \<noteq> addr s r"
    using addr_in [of s r] by (cases t) (auto simp: distinct_path_def)
qed

lemma in_mem_GoR:
  assumes "in_mem m s (plug (GoR c l p # path) t)"
  shows "n_right m p = addr s t" "n_left m p = addr s l" "n_red m p = c" "p \<noteq> s"
    "path \<noteq> [] \<Longrightarrow> n_parent m p = above q path" "rb_root m = p \<longleftrightarrow> path = []"
    "n_red m (addr s t) = is_red t" "n_red m (addr s l) = is_red l"
    "t \<noteq> Leaf \<Longrightarrow> n_parent m (addr s t) = p" "l \<noteq> Leaf \<Longrightarrow> n_parent m (addr s l) = p"
    "t \<noteq> Leaf \<Longrightarrow> addr s t \<noteq> addr s l"
proof -
  have l: "in_mem m s (plug (GoL c p t # path) l)" using assms by simp
  note f = in_mem_GoL [OF l]
  show "n_right m p = addr s t" "n_left m p = addr s l" "n_red m p = c" "p \<noteq> s"
    "path \<noteq> [] \<Longrightarrow> n_parent m p = above q path" "rb_root m = p \<longleftrightarrow> path = []"
    "n_red m (addr s t) = is_red t" "n_red m (addr s l) = is_red l"
    "t \<noteq> Leaf \<Longrightarrow> n_parent m (addr s t) = p" "l \<noteq> Leaf \<Longrightarrow> n_parent m (addr s l) = p"
    by (fact f(1-10))+
  from l have "distinct_path (GoL c p t # path) l" "s \<notin> set (nodes t)" unfolding in_mem_plug by auto
  then show "t \<noteq> Leaf \<Longrightarrow> addr s t \<noteq> addr s l"
    using addr_in [of s l] by (cases t) (auto simp: distinct_path_def)
qed

text \<open>A red uncle: the colours of the parents and the grandparent are exchanged.\<close>

lemma fix_left_red_uncle:
  assumes "in_mem m s (plug (GoL cg g (Node True ul u ur) # rest) (Node cp pl p pr))" "n_parent m x = p"
  shows "\<exists>m'. insert_fix_left s x m = (g, m') \<and>
    same_outside (set (nodes (plug rest (Node cg (Node cp pl p pr) g (Node True ul u ur))))) m m' \<and>
    in_mem m' s (plug rest (Node True (Node False pl p pr) g (Node False ul u ur)))"
proof -
  note g = in_mem_GoL [OF assms(1)]
  from in_mem_colour(2) [OF assms(1)]
  have "in_mem (ngx_rbt_black p m) s (plug (GoR cg (Node False pl p pr) g # rest) (Node True ul u ur))" by simp
  from in_mem_colour(2) [OF this]
  have "in_mem (ngx_rbt_black u (ngx_rbt_black p m)) s (plug rest (Node cg (Node False pl p pr) g (Node False ul u ur)))" by simp
  from in_mem_colour(1) [OF this] show ?thesis
    using g assms(2) by (simp add: insert_fix_left_def Let_def set_plug)
qed

text \<open>A black uncle: one or two rotations, behind which the top is black.\<close>

lemma fix_left_outer:
  assumes "in_mem m s (plug (GoL cg g u # rest) (Node cp pl p pr))" "n_parent m x = p" "x = addr s pl" "pl \<noteq> Leaf" "\<not> is_red u"
  shows "\<exists>m'. insert_fix_left s x m = (x, m') \<and>
    same_outside (set (nodes (plug rest (Node cg (Node cp pl p pr) g u)))) m m' \<and>
    in_mem m' s (plug rest (Node False pl p (Node True pr g u)))"
proof -
  note g = in_mem_GoL [OF assms(1)]
  from assms(1) have "in_mem m s (plug (GoL cp p pr # GoL cg g u # rest) pl)" by simp
  note p = in_mem_GoL [OF this]
  from in_mem_colour(2) [OF assms(1)]
  have "in_mem (ngx_rbt_black p m) s (plug rest (Node cg (Node False pl p pr) g u))" by simp
  note r = in_mem_colour(1) [OF this]
  have "same_outside (set (nodes (plug rest (Node cg (Node cp pl p pr) g u)))) m (ngx_rbt_red g (ngx_rbt_black p m))"
    by (simp add: set_plug)
  also have "same_outside (set (nodes (plug rest (Node cg (Node cp pl p pr) g u))))
      (ngx_rbt_red g (ngx_rbt_black p m)) (ngx_rbtree_right_rotate s g (ngx_rbt_red g (ngx_rbt_black p m)))"
    using right_rotate_outside [OF r] by (simp add: set_plug)
  finally show ?thesis
    using g p assms(2-5) right_rotate [OF r] by (simp add: insert_fix_left_def Let_def)
qed

lemma fix_left_inner:
  assumes "in_mem m s (plug (GoL cg g u # rest) (Node cp pl p (Node cx l x r)))" "\<not> is_red u"
  shows "\<exists>m'. insert_fix_left s x m = (p, m') \<and>
    same_outside (set (nodes (plug rest (Node cg (Node cp pl p (Node cx l x r)) g u)))) m m' \<and>
    in_mem m' s (plug rest (Node False (Node cp pl p l) x (Node True r g u)))"
proof -
  note g = in_mem_GoL [OF assms(1)]
  from assms(1) have "in_mem m s (plug (GoR cp pl p # GoL cg g u # rest) (Node cx l x r))" by simp
  note p = in_mem_GoR [OF this]
  let ?m = "ngx_rbtree_left_rotate s p m"
  note 1 = left_rotate [OF assms(1)]
  note g1 = in_mem_GoL [OF 1]
  from 1 have "in_mem ?m s (plug (GoL cx x r # GoL cg g u # rest) (Node cp pl p l))" by simp
  note p1 = in_mem_GoL [OF this]
  from in_mem_colour(2) [OF 1]
  have "in_mem (ngx_rbt_black x ?m) s (plug rest (Node cg (Node False (Node cp pl p l) x r) g u))" by simp
  note r = in_mem_colour(1) [OF this]
  have "same_outside (set (nodes (plug rest (Node cg (Node cp pl p (Node cx l x r)) g u)))) m ?m"
    using left_rotate_outside [OF assms(1)] by simp
  then have "same_outside (set (nodes (plug rest (Node cg (Node cp pl p (Node cx l x r)) g u)))) m (ngx_rbt_red g (ngx_rbt_black x ?m))"
    by (simp add: set_plug)
  also have "same_outside (set (nodes (plug rest (Node cg (Node cp pl p (Node cx l x r)) g u))))
      (ngx_rbt_red g (ngx_rbt_black x ?m)) (ngx_rbtree_right_rotate s g (ngx_rbt_red g (ngx_rbt_black x ?m)))"
    using right_rotate_outside [OF r] by (simp add: set_plug insert_commute Un_ac)
  finally show ?thesis
    using g p g1 p1 assms(2) right_rotate [OF r] by (simp add: insert_fix_left_def Let_def)
qed

text \<open>
  One turn, above a red node \<open>x\<close> with a red parent: the tree at the grandparent is replaced by one of
  the same nodes and black height, which is red at its top, where the loop goes on, or ends the loop.
\<close>

definition fix_result :: "rbs \<Rightarrow> ptr \<Rightarrow> frame list \<Rightarrow> rbt \<Rightarrow> ptr \<times> rbs \<Rightarrow> rbt \<Rightarrow> bool" where
  "fix_result m s rest t res u \<longleftrightarrow>
     (case res of (x, m') \<Rightarrow>
        same_outside (set (nodes (plug rest t))) m m' \<and> in_mem m' s (plug rest u) \<and> nodes u = nodes t \<and> bheight u = bheight t \<and>
        balanced u \<and> colour_ok u \<and>
        (if is_red u then addr s u = x else x \<noteq> rb_root m' \<and> \<not> n_red m' (n_parent m' x)))"

lemma fix_left:
  assumes "in_mem m s (plug (GoL False g u # rest) P)" "P = plug [f] (Node True l x r)" "is_red P"
    "colour_ok (Node True l x r)" "colour_path [f] False" "colour_ok u" "balanced (Node False P g u)"
  shows "\<exists>v. fix_result m s rest (Node False P g u) (insert_fix_left s x m) v"
proof -
  have cases: "(\<exists>p r'. f = GoL True p r') \<or> (\<exists>p l'. f = GoR True l' p)" using assms(2,3) by (cases f) auto
  have x: "n_parent m x = addr s P"
    using assms(1,2) in_mem_parent [of m s "f # GoL False g u # rest" "Node True l x r"] cases by auto
  show ?thesis
  proof (cases "is_red u")
    case True
    then obtain ul y ur where u: "u = Node True ul y ur" by (cases u) auto
    obtain pl p pr where P: "P = Node True pl p pr" using assms(3) by (cases P) auto
    from fix_left_red_uncle [OF assms(1) [unfolded u P] x [unfolded P addr.simps]] obtain m' where
      "insert_fix_left s x m = (g, m')" "same_outside (set (nodes (plug rest (Node False P g u)))) m m'"
      "in_mem m' s (plug rest (Node True (Node False pl p pr) g (Node False ul y ur)))" unfolding P u by blast
    then have "fix_result m s rest (Node False P g u) (insert_fix_left s x m) (Node True (Node False pl p pr) g (Node False ul y ur))"
      using assms(2-7) cases P u by (auto simp: fix_result_def)
    then show ?thesis ..
  next
    case False
    from cases show ?thesis
    proof
      assume "\<exists>p r'. f = GoL True p r'"
      then obtain p r' where f: "f = GoL True p r'" by blast
      then have P: "P = Node True (Node True l x r) p r'" using assms(2) by simp
      from fix_left_outer [OF assms(1) [unfolded P] x [unfolded P addr.simps], of ] False obtain m' where
        m': "insert_fix_left s x m = (x, m')" "same_outside (set (nodes (plug rest (Node False P g u)))) m m'"
        "in_mem m' s (plug rest (Node False (Node True l x r) p (Node True r' g u)))" unfolding P by auto
      from m'(3) have "in_mem m' s (plug (GoL False p (Node True r' g u) # rest) (Node True l x r))" by simp
      note p = in_mem_GoL [OF this] in_mem_node(6) [OF this]
      have "fix_result m s rest (Node False P g u) (insert_fix_left s x m) (Node False (Node True l x r) p (Node True r' g u))"
        using m' p assms(4-7) False f by (auto simp: fix_result_def P)
      then show ?thesis ..
    next
      assume "\<exists>p l'. f = GoR True l' p"
      then obtain p l' where f: "f = GoR True l' p" by blast
      then have P: "P = Node True l' p (Node True l x r)" using assms(2) by simp
      from fix_left_inner [OF assms(1) [unfolded P]] False obtain m' where
        m': "insert_fix_left s x m = (p, m')" "same_outside (set (nodes (plug rest (Node False P g u)))) m m'"
        "in_mem m' s (plug rest (Node False (Node True l' p l) x (Node True r g u)))" unfolding P by auto
      from m'(3) have "in_mem m' s (plug (GoL False x (Node True r g u) # rest) (Node True l' p l))" by simp
      note p = in_mem_GoL [OF this] in_mem_node(6) [OF this]
      have "fix_result m s rest (Node False P g u) (insert_fix_left s x m) (Node False (Node True l' p l) x (Node True r g u))"
        using m' p assms(4-7) False f by (auto simp: fix_result_def P)
      then show ?thesis ..
    qed
  qed
qed

lemma mirror_invariants [simp]:
  "bheight t = n \<Longrightarrow> balanced t \<Longrightarrow> bheight (mirror t) = n" "balanced (mirror t) = balanced t" "colour_ok (mirror t) = colour_ok t"
proof -
  have h: "bheight (mirror t) = bheight t" if "balanced t" for t using that by (induction t) auto
  then show "bheight t = n \<Longrightarrow> balanced t \<Longrightarrow> bheight (mirror t) = n" by simp
  have "balanced (mirror t)" if "balanced t" for t using that by (induction t) (auto simp: h)
  then show "balanced (mirror t) = balanced t" using mirror_simps(1) by metis
  show "colour_ok (mirror t) = colour_ok t" by (induction t) auto
qed

lemma fix_result_flip:
  assumes "fix_result (flip m) s (map mirror_frame rest) (mirror t) res v" "balanced t"
  shows "fix_result m s rest t (apsnd flip res) (mirror v)"
proof -
  obtain x m' where res: "res = (x, m')" by (cases res)
  from assms(1) have v: "in_mem m' s (plug (map mirror_frame rest) v)" "nodes v = rev (nodes t)" "balanced v"
    "bheight v = bheight (mirror t)"
    by (simp_all add: fix_result_def res)
  from v(1) in_mem_flip [of m' s "plug (map mirror_frame rest) v"] have "in_mem (flip m') s (plug rest (mirror v))" by simp
  moreover have "same_outside (set (nodes (plug rest t))) m (flip m')"
    using assms(1) same_outside_flip [of _ m "flip m'"] by (simp add: fix_result_def res set_mirror_plug)
  ultimately show ?thesis using assms v by (simp add: fix_result_def res)
qed

lemma fix_right:
  assumes "in_mem m s (plug (GoR False u g # rest) P)" "P = plug [f] (Node True l x r)" "is_red P"
    "colour_ok (Node True l x r)" "colour_path [f] False" "colour_ok u" "balanced (Node False u g P)"
  shows "\<exists>v. fix_result m s rest (Node False u g P) (insert_fix_right s x m) v"
proof -
  have 1: "in_mem (flip m) s (plug (GoL False g (mirror u) # map mirror_frame rest) (mirror P))"
    using assms(1) in_mem_flip [of m s "plug (GoR False u g # rest) P"] by simp
  have 2: "mirror P = plug [mirror_frame f] (Node True (mirror r) x (mirror l))" by (simp add: assms(2))
  have 3: "is_red (mirror P)" "colour_ok (Node True (mirror r) x (mirror l))" "colour_ok (mirror u)" using assms(3,4,6) by auto
  have 4: "colour_path [mirror_frame f] False" using assms(5) by (cases f) auto
  have 5: "balanced (Node False (mirror P) g (mirror u))" using assms(7) by auto
  obtain v where "fix_result (flip m) s (map mirror_frame rest) (Node False (mirror P) g (mirror u)) (insert_fix_left s x (flip m)) v"
    using fix_left [OF 1 2 3(1,2) 4 3(3) 5] by blast
  then have "fix_result m s rest (Node False u g P) (insert_fix_right s x m) (mirror v)"
    using fix_result_flip [of m s rest "Node False u g P" "insert_fix_left s x (flip m)" v] assms(7)
    by (simp add: insert_fix_right_flip)
  then show ?thesis ..
qed

lemma insert_fix_key: "n_key (snd (insert_fix s x m)) = n_key m"
  by (simp add: insert_fix_def insert_fix_left_def insert_fix_right_def Let_def)

lemma insert_fix_step:
  assumes "in_mem m s (plug (f1 # f2 # rest) (Node True l x r))" "is_red (plug [f1] (Node True l x r))"
    "colour_ok (Node True l x r)" "colour_path (f1 # f2 # rest) False"
    "balanced (plug (f1 # f2 # rest) (Node True l x r))"
  shows "\<exists>v. fix_result m s rest (plug [f1, f2] (Node True l x r)) (insert_fix s x m) v"
proof -
  define P where "P = plug [f1] (Node True l x r)"
  have P: "plug (f1 # f2 # rest) (Node True l x r) = plug (f2 # rest) P" "plug [f1, f2] (Node True l x r) = plug [f2] P"
    by (cases f1; simp add: P_def)+
  have red: "is_red P" using assms(2) P_def by simp
  have x: "n_parent m x = addr s P"
    using assms(1) in_mem_parent [of m s "f1 # f2 # rest" "Node True l x r"] by (cases f1) (auto simp: P_def)
  have c1: "colour_path [f1] False" using assms(4) by (cases f1) auto
  have ne: "P \<noteq> Leaf" using red by auto
  show ?thesis
  proof (cases f2)
    case (GoL c g u)
    have c: "\<not> c" "colour_ok u" using assms(2,4) by (cases f1; simp add: GoL)+
    have m: "in_mem m s (plug (GoL False g u # rest) P)" using assms(1) P GoL c(1) by simp
    note g = in_mem_GoL [OF m]
    have "balanced (Node False P g u)" using assms(5) [unfolded P(1)] GoL c(1) by (simp add: balanced_plug)
    from fix_left [OF m P_def red assms(3) c1 c(2) this] show ?thesis
      using x g ne P(2) by (simp add: GoL c(1) insert_fix_def)
  next
    case (GoR c u g)
    have c: "\<not> c" "colour_ok u" using assms(2,4) by (cases f1; simp add: GoR)+
    have m: "in_mem m s (plug (GoR False u g # rest) P)" using assms(1) P GoR c(1) by simp
    note g = in_mem_GoR [OF m]
    have "balanced (Node False u g P)" using assms(5) [unfolded P(1)] GoR c(1) by (simp add: balanced_plug)
    from fix_right [OF m P_def red assms(3) c1 c(2) this] show ?thesis
      using x g ne P(2) by (simp add: GoR c(1) insert_fix_def)
  qed
qed

lemma plug_append: "plug (path @ path') t = plug path' (plug path t)"
  by (induction path t rule: plug.induct) simp_all

lemma insert_loop_ok:
  assumes "in_mem m s (plug path (Node True l x r))" "colour_ok (Node True l x r)" "colour_path path False"
    "balanced (plug path (Node True l x r))" "path \<noteq> [] \<Longrightarrow> \<not> is_red (plug path (Node True l x r))"
  shows "\<exists>m' t. insert_loop s x m = Some m' \<and> in_mem m' s t \<and> nodes t = nodes (plug path (Node True l x r)) \<and>
    balanced t \<and> colour_ok (blacken t) \<and> n_key m' = n_key m \<and> same_outside (set (nodes t)) m m'"
  using assms
proof (induction path arbitrary: m l x r rule: length_induct)
  case (1 path)
  let ?t = "Node True l x r"
  note root = in_mem_node [OF "1.prems"(1)]
  show ?case
  proof (cases "path = [] \<or> \<not> is_red (plug [hd path] ?t)")
    case True
    have "\<not> (x \<noteq> rb_root m \<and> n_red m (n_parent m x))"
    proof (cases path)
      case (Cons f path')
      then have "in_mem m s (plug path' (plug [f] ?t))" using "1.prems"(1) by (cases f) simp_all
      from in_mem_red [OF this] have "n_red m (above q path) = is_red (plug [f] ?t)" for q using Cons by (cases f) simp_all
      then show ?thesis using True root(5) Cons by auto
    qed (use root(6) in simp)
    then have "insert_loop s x m = Some m" by (subst insert_loop.simps) auto
    moreover have "colour_ok (blacken (plug path ?t))"
    proof (cases path)
      case (Cons f path')
      then have "colour_path path True" using True "1.prems"(3) by (cases f) auto
      then show ?thesis using "1.prems"(2) colour_blacken by (simp add: colour_plug)
    qed (use "1.prems"(2) in simp)
    ultimately show ?thesis using "1.prems" by auto
  next
    case False
    then obtain f1 path1 where p1: "path = f1 # path1" "is_red (plug [f1] ?t)" by (cases path) auto
    with "1.prems"(5) have "path1 \<noteq> []" by (cases f1) auto
    then obtain f2 rest where path: "path = f1 # f2 # rest" using p1 by (cases path1) auto
    from insert_fix_step [OF "1.prems"(1) [unfolded path] p1(2) "1.prems"(2) "1.prems"(3) [unfolded path] "1.prems"(4) [unfolded path]]
    obtain v where v: "fix_result m s rest (plug [f1, f2] ?t) (insert_fix s x m) v" ..
    obtain x' m' where fx: "insert_fix s x m = (x', m')" by (metis surj_pair)
    have pl: "plug path ?t = plug rest (plug [f1, f2] ?t)" using plug_append [of "[f1, f2]" rest] path by simp
    from v have v: "same_outside (set (nodes (plug path ?t))) m m'" "in_mem m' s (plug rest v)"
      "nodes v = nodes (plug [f1, f2] ?t)" "bheight v = bheight (plug [f1, f2] ?t)" "balanced v" "colour_ok v"
      "if is_red v then addr s v = x' else x' \<noteq> rb_root m' \<and> \<not> n_red m' (n_parent m' x')"
      by (simp_all add: fix_result_def fx pl)
    have nodes: "nodes (plug rest v) = nodes (plug path ?t)" using v(3) by (simp add: pl nodes_plug)
    have key: "n_key m' = n_key m" using insert_fix_key [of s x m] by (simp add: fx)
    have bal: "balanced (plug rest v)" using "1.prems"(4) v(4,5) by (simp add: pl balanced_plug)
    have col: "colour_path rest False"
      using "1.prems"(3) colour_path_black path by (cases f1; cases f2) auto
    have "n_red m (n_parent m x)"
    proof -
      have "in_mem m s (plug (f2 # rest) (plug [f1] ?t))" using "1.prems"(1) path by (cases f1) simp_all
      from in_mem_red [OF this] show ?thesis using p1(2) root(5) path by (cases f1) simp_all
    qed
    moreover have "x \<noteq> rb_root m" using root(6) path by auto
    ultimately have loop: "insert_loop s x m = insert_loop s x' m'" by (subst insert_loop.simps) (simp add: fx)
    show ?thesis
    proof (cases "is_red v")
      case False
      then have "insert_loop s x' m' = Some m'" using v(7) by (subst insert_loop.simps) simp
      moreover have "colour_ok (plug rest v)" using col v(6) False by (simp add: colour_plug)
      ultimately show ?thesis using loop v nodes key bal colour_blacken by metis
    next
      case True
      then obtain vl vr where ve: "v = Node True vl x' vr" using v(7) by (cases v) auto
      have "\<not> is_red (plug path ?t)" using "1.prems"(5) path by simp
      then have "rest \<noteq> [] \<Longrightarrow> \<not> is_red (plug rest v)"
        using is_red_plug [of rest v "plug [f1, f2] ?t"] by (simp add: pl)
      with "1.IH" [rule_format, of rest m' vl x' vr] v(2,6) col bal path ve
      obtain m2 t where "insert_loop s x' m' = Some m2" "in_mem m2 s t" "nodes t = nodes (plug rest v)" "balanced t"
        "colour_ok (blacken t)" "n_key m2 = n_key m'" "same_outside (set (nodes t)) m' m2" by auto
      then show ?thesis using loop v(1) nodes key by (metis same_outside_trans)
    qed
  qed
qed

section \<open>Insertion\<close>

text \<open>Going down, left of the nodes that the new one is less than, and right of the others.\<close>

lemma before_append: "before (path @ path') = before path' @ before path" "behind (path @ path') = behind path @ behind path'"
proof -
  have "before (path @ path') = before path' @ before path \<and> behind (path @ path') = behind path @ behind path'"
  proof (induction path)
    case (Cons f path)
    then show ?case by (cases f) simp_all
  qed simp
  then show "before (path @ path') = before path' @ before path" "behind (path @ path') = behind path @ behind path'" by auto
qed

definition upwards :: "(ptr \<Rightarrow> bool) \<Rightarrow> ptr list \<Rightarrow> bool" where
  "upwards lt xs \<longleftrightarrow> sorted_wrt (\<lambda>a b. lt a \<longrightarrow> lt b) xs"

lemma upwards_Node:
  assumes "upwards lt (nodes (Node c l x r))"
  shows "upwards lt (nodes l)" "upwards lt (nodes r)"
    "\<forall>a \<in> set (nodes l). lt a \<longrightarrow> lt x" "\<forall>b \<in> set (nodes r). lt x \<longrightarrow> lt b"
proof -
  define R where "R a b \<longleftrightarrow> (lt a \<longrightarrow> lt b)" for a b
  have "sorted_wrt R (nodes l @ x # nodes r)" using assms unfolding upwards_def R_def by simp
  then have "sorted_wrt R (nodes l)" "sorted_wrt R (nodes r)" "\<forall>a \<in> set (nodes l). R a x" "\<forall>b \<in> set (nodes r). R x b"
    by (auto simp: sorted_wrt_append)
  then show "upwards lt (nodes l)" "upwards lt (nodes r)"
    "\<forall>a \<in> set (nodes l). lt a \<longrightarrow> lt x" "\<forall>b \<in> set (nodes r). lt x \<longrightarrow> lt b"
    unfolding upwards_def R_def by blast+
qed

lemma split_while:
  assumes "\<forall>a \<in> set xs. \<not> P a" "\<forall>a \<in> set ys. P a"
  shows "takeWhile (\<lambda>a. \<not> P a) (xs @ ys) = xs" "dropWhile (\<lambda>a. \<not> P a) (xs @ ys) = ys"
  using assms by (cases ys; simp add: takeWhile_append2 dropWhile_append2)+

definition place_for :: "(ptr \<Rightarrow> bool) \<Rightarrow> frame list \<Rightarrow> bool" where
  "place_for lt path \<longleftrightarrow> (\<forall>a \<in> set (before path). \<not> lt a) \<and> (\<forall>a \<in> set (behind path). lt a)"

lemma place_for_append: "place_for lt (path @ path') \<longleftrightarrow> place_for lt path \<and> place_for lt path'"
  unfolding place_for_def before_append set_append ball_Un by blast

definition ends_at :: "bool \<Rightarrow> ptr \<Rightarrow> frame list \<Rightarrow> bool" where
  "ends_at b p path \<longleftrightarrow> (\<exists>c u path'. path = (if b then GoL c p u else GoR c u p) # path')"

lemma ends_at_append: "ends_at b p path \<Longrightarrow> ends_at b p (path @ path')"
  by (auto simp: ends_at_def)

lemma insert_place_ok:
  assumes "lies m s q t" "t \<noteq> Leaf" "s \<notin> set (nodes t)" "upwards lt (nodes t)"
  shows "\<exists>b p path. insert_place lt s m (addr s t) = Some (b, p) \<and> plug path Leaf = t \<and>
    ends_at b p path \<and> place_for lt path"
  using assms
proof (induction t arbitrary: q)
  case (Node c l x r)
  note sorted = upwards_Node [OF Node.prems(4)]
  define u where "u = (if lt x then l else r)"
  define f where "f = (if lt x then GoL c x r else GoR c l x)"
  have step: "insert_place lt s m x = (if addr s u = s then Some (lt x, x) else insert_place lt s m (addr s u))"
  proof -
    have "n_left m x = addr s l" "n_right m x = addr s r" using Node.prems(1) by simp_all
    then show ?thesis
      unfolding u_def by (subst insert_place.simps) (cases "lt x"; simp only: Let_def if_True if_False simp_thms)
  qed
  have t: "plug [f] u = Node c l x r" "ends_at (lt x) x [f]" by (simp_all add: f_def u_def ends_at_def)
  have f: "place_for lt [f]"
  proof (cases "lt x")
    case True
    then have "\<forall>a \<in> set (x # nodes r). lt a" using sorted(4) by (simp only: list.set) blast
    with True show ?thesis by (simp add: f_def place_for_def)
  next
    case False
    then have "\<forall>a \<in> set (nodes l @ [x]). \<not> lt a" using sorted(3) by (simp only: set_append list.set) blast
    with False show ?thesis by (simp add: f_def place_for_def)
  qed
  show ?case
  proof (cases "u = Leaf")
    case True
    then have "insert_place lt s m x = Some (lt x, x)" using step by simp
    with t f True show ?thesis unfolding addr.simps by blast
  next
    case False
    have u: "lies m s x u" "s \<notin> set (nodes u)" "upwards lt (nodes u)" using Node.prems sorted(1,2) by (auto simp: u_def)
    then have "addr s u \<noteq> s" using False addr_in [of s u] by (cases u) auto
    with step have place: "insert_place lt s m x = insert_place lt s m (addr s u)" by simp
    have "\<exists>b p path. insert_place lt s m (addr s u) = Some (b, p) \<and> plug path Leaf = u \<and> ends_at b p path \<and> place_for lt path"
    proof (cases "lt x")
      case True
      then have "u = l" by (simp add: u_def)
      with Node.IH(1) [of x] u False show ?thesis by blast
    next
      case r: False
      then have "u = r" by (simp add: u_def)
      with Node.IH(2) [of x] u False show ?thesis by blast
    qed
    then obtain b p path where path: "insert_place lt s m (addr s u) = Some (b, p)" "plug path Leaf = u"
      "ends_at b p path" "place_for lt path" by blast
    have "plug (path @ [f]) Leaf = Node c l x r" using t(1) by (simp add: plug_append path(2))
    moreover have "place_for lt (path @ [f])" using f path(4) by (simp add: place_for_append)
    ultimately show ?thesis using place path(1) ends_at_append [OF path(3)] unfolding addr.simps by metis
  qed
qed simp

text \<open>The new node is put at the place.\<close>

lemma in_mem_put:
  assumes "in_mem m s (plug path Leaf)" "path \<noteq> []" "x \<noteq> s" "x \<notin> on_path path"
  shows "in_mem (ngx_rbt_red x (set_right x s (set_left x s (set_parent x (above 0 path) (link path x m))))) s
    (plug path (Node True Leaf x Leaf))" (is "in_mem ?m _ _")
proof -
  from assms(1) obtain q where q: "rb_root m = root_at path s" "lies_path m s q path s"
     "distinct_path path Leaf" "s \<notin> on_path path" "\<not> n_red m s"
    unfolding in_mem_plug addr.simps by blast
  have d: "distinct (before path @ behind path)" using q(3) by (simp add: distinct_path_def)
  have "above 0 path = above q path" using assms(2) by (cases "(q, path)" rule: above.cases) auto
  moreover have "lies_path (link path x m) s q path x" by (rule lies_path_link [OF q(2) d])
  ultimately show ?thesis
    unfolding in_mem_plug addr.simps using q assms(3,4) d
    by (auto simp: distinct_path_def root_link)
qed

lemma insert_by_ok:
  assumes "in_mem m s t" "t \<noteq> Leaf" "x \<noteq> s" "x \<notin> set (nodes t)" "upwards lt (nodes t)"
  shows "\<exists>m' path. insert_by lt (rb_root m) x s m = Some m' \<and> plug path Leaf = t \<and> path \<noteq> [] \<and>
    in_mem m' s (plug path (Node True Leaf x Leaf)) \<and> n_key m' = n_key m \<and>
    same_outside (insert x (set (nodes t))) m m' \<and>
    before path = takeWhile (\<lambda>a. \<not> lt a) (nodes t) \<and> behind path = dropWhile (\<lambda>a. \<not> lt a) (nodes t)"
proof -
  from assms(1) obtain q where q: "rb_root m = addr s t" "lies m s q t" "s \<notin> set (nodes t)"
    unfolding in_mem_def by blast
  from insert_place_ok [OF q(2) assms(2) q(3) assms(5)] obtain b p path where
    place: "insert_place lt s m (rb_root m) = Some (b, p)" and t: "plug path Leaf = t"
    and f: "ends_at b p path" and ord: "place_for lt path" unfolding q(1) by blast
  let ?m = "ngx_rbt_red x (set_right x s (set_left x s (set_parent x (above 0 path) (link path x m))))"
  have ne: "path \<noteq> []" using f by (auto simp: ends_at_def)
  have nodes: "nodes t = before path @ behind path" using nodes_plug [of path Leaf] t by simp
  have set_t: "set (nodes t) = on_path path" unfolding nodes on_path_def by simp
  have "insert_by lt (rb_root m) x s m = Some ?m" using f by (auto simp: insert_by_def place Let_def ends_at_def)
  moreover have "in_mem ?m s (plug path (Node True Leaf x Leaf))"
    by (rule in_mem_put) (use assms set_t t ne in auto)
  moreover have "same_outside (insert x (set (nodes t))) m ?m"
    unfolding set_t by (simp add: same_outside_link subset_insertI)
  moreover have "before path = takeWhile (\<lambda>a. \<not> lt a) (nodes t)" "behind path = dropWhile (\<lambda>a. \<not> lt a) (nodes t)"
    unfolding nodes by (rule split_while [symmetric]; use ord in \<open>simp add: place_for_def\<close>)+
  ultimately show ?thesis using t ne by (intro exI [of _ ?m] exI [of _ path]) simp
qed

definition red_black_in :: "rbs \<Rightarrow> ptr \<Rightarrow> rbt \<Rightarrow> bool" where
  "red_black_in m s t \<longleftrightarrow> in_mem m s t \<and> red_black t"

lemma in_mem_root: "in_mem m s t \<Longrightarrow> rb_root m = s \<longleftrightarrow> t = Leaf"
  using addr_in [of s t] by (cases t) (auto simp: in_mem_def)

lemma in_mem_blacken_root:
  "in_mem m s t \<Longrightarrow> in_mem (ngx_rbt_black (rb_root m) m) s (blacken t)"
proof (cases t)
  case (Node c l x r)
  assume "in_mem m s t"
  moreover from this have "rb_root m = x" using Node by (simp add: in_mem_def)
  ultimately show ?thesis using in_mem_colour(2) [of m s "[]" c l x r] Node by simp
qed (auto simp: in_mem_def)

lemma rbtree_insert_ok:
  assumes "red_black_in m s t" "x \<noteq> s" "x \<notin> set (nodes t)" "upwards lt (nodes t)"
    "ins (rb_root m) x s m = insert_by lt (rb_root m) x s m"
  shows "\<exists>m' t'. ngx_rbtree_insert ins s x m = Some m' \<and> red_black_in m' s t' \<and>
    nodes t' = takeWhile (\<lambda>a. \<not> lt a) (nodes t) @ x # dropWhile (\<lambda>a. \<not> lt a) (nodes t) \<and>
    n_key m' = n_key m \<and> same_outside (insert x (set (nodes t))) m m'"
proof (cases "t = Leaf")
  case True
  let ?m = "ngx_rbt_black x (set_right x s (set_left x s (set_parent x NULL m)))\<lparr>rb_root := x\<rparr>"
  have t: "in_mem m s Leaf" using assms(1) True by (simp add: red_black_in_def)
  then have "ngx_rbtree_insert ins s x m = Some ?m"
    using in_mem_root [OF t] by (simp add: ngx_rbtree_insert_def Let_def)
  moreover have "red_black_in ?m s (Node False Leaf x Leaf)"
    using t assms(2) by (simp add: red_black_in_def red_black_def in_mem_def)
  moreover have "same_outside (insert x (set (nodes t))) m ?m" by simp
  ultimately show ?thesis using True by (intro exI [of _ ?m] exI [of _ "Node False Leaf x Leaf"]) simp
next
  case False
  have t: "in_mem m s t" "balanced t" "colour_ok t" "\<not> is_red t" using assms(1) by (simp_all add: red_black_in_def red_black_def)
  from insert_by_ok [OF t(1) False assms(2,3,4)] obtain m1 path where
    m1: "insert_by lt (rb_root m) x s m = Some m1" "in_mem m1 s (plug path (Node True Leaf x Leaf))" "n_key m1 = n_key m"
      "same_outside (insert x (set (nodes t))) m m1"
    and path: "plug path Leaf = t" "path \<noteq> []"
      "before path = takeWhile (\<lambda>a. \<not> lt a) (nodes t)" "behind path = dropWhile (\<lambda>a. \<not> lt a) (nodes t)" by blast
  let ?t = "plug path (Node True Leaf x Leaf)"
  have bal: "balanced ?t" using t(2) path(1) by (auto simp: balanced_plug)
  have col: "colour_path path False" using t(3) path(1) by (auto simp: colour_plug)
  have root: "\<not> is_red ?t" using is_red_plug [OF path(2), of "Node True Leaf x Leaf" Leaf] t(4) path(1) by simp
  have nodes: "nodes ?t = takeWhile (\<lambda>a. \<not> lt a) (nodes t) @ x # dropWhile (\<lambda>a. \<not> lt a) (nodes t)"
    by (simp add: nodes_plug path)
  have set: "set (nodes ?t) = insert x (set (nodes t))" using nodes_plug [of path Leaf] path(1) by (simp add: set_plug on_path_def)
  from insert_loop_ok [OF m1(2) _ col bal root] obtain m2 t2 where
    m2: "insert_loop s x m1 = Some m2" "in_mem m2 s t2" "nodes t2 = nodes ?t" "balanced t2" "colour_ok (blacken t2)"
      "n_key m2 = n_key m1" "same_outside (set (nodes t2)) m1 m2" by auto
  have "t2 \<noteq> Leaf" using m2(3) by (auto simp: nodes)
  then have "rb_root m2 \<in> set (nodes t2)" using m2(2) by (cases t2) (auto simp: in_mem_def)
  then have out: "same_outside (insert x (set (nodes t))) m (ngx_rbt_black (rb_root m2) m2)"
    using m1(4) m2(3,7) set by (metis same_outside_trans same_outside_set(5))
  have "ngx_rbtree_insert ins s x m = Some (ngx_rbt_black (rb_root m2) m2)"
    using in_mem_root [OF t(1)] False assms(5) m1(1) m2(1) by (simp add: ngx_rbtree_insert_def)
  moreover have "red_black_in (ngx_rbt_black (rb_root m2) m2) s (blacken t2)"
    using in_mem_blacken_root [OF m2(2)] m2(4,5) by (simp add: red_black_in_def red_black_def)
  ultimately show ?thesis using out m1(3) m2(3,6) nodes
    by (intro exI [of _ "ngx_rbt_black (rb_root m2) m2"] exI [of _ "blacken t2"]) simp
qed

lemma sint_window:
  fixes a b :: u64
  assumes "unat a < 2 ^ 63" "unat b < 2 ^ 63"
  shows "sint (a - b) = uint a - uint b"
proof -
  have s: "sint c = uint c \<and> uint c < 2 ^ 63" if "unat c < 2 ^ 63" for c :: u64
  proof -
    have "int (unat c) < int (2 ^ 63)" using that by (simp only: of_nat_less_iff)
    then have "uint c < 2 ^ 63" unfolding uint_nat by simp
    moreover have "- (2 ^ 63) \<le> uint c" by (rule order_trans [of _ 0]) simp_all
    ultimately show ?thesis by (simp add: sint_uint signed_take_bit_int_eq_self)
  qed
  have u: "uint a < 2 ^ 63" "uint b < 2 ^ 63" "0 \<le> uint a" "0 \<le> uint b" using s assms by simp_all
  have "sint (a - b) = signed_take_bit 63 (uint a - uint b)" using s assms by (simp add: sint_word_ariths)
  also have "\<dots> = uint a - uint b" by (rule signed_take_bit_int_eq_self) (use u in linarith)+
  finally show ?thesis .
qed

lemma sless_window:
  fixes a b :: u64
  assumes "unat a < 2 ^ 63" "unat b < 2 ^ 63"
  shows "(a - b <s 0) = (a < b)"
  using sint_window [OF assms] by (simp add: word_sless_alt word_less_def)

lemma sorted_insert_behind:
  fixes k :: "'a \<Rightarrow> 'b :: linorder"
  assumes "sorted (map k xs)"
  shows "sorted (map k (takeWhile (\<lambda>y. k y \<le> k x) xs @ x # dropWhile (\<lambda>y. k y \<le> k x) xs))"
  using assms
proof (induction xs)
  case (Cons y xs)
  show ?case
  proof (cases "k y \<le> k x")
    case True
    have "set (takeWhile (\<lambda>y. k y \<le> k x) xs) \<subseteq> set xs" "set (dropWhile (\<lambda>y. k y \<le> k x) xs) \<subseteq> set xs"
      by (auto dest: set_takeWhileD set_dropWhileD)
    with Cons True show ?thesis by auto
  qed (use Cons in auto)
qed simp

text \<open>With the order of the keys.\<close>

lemma rbtree_insert_value_ok:
  assumes "red_black_in m s t" "sorted (map (n_key m) (nodes t))" "x \<noteq> s" "x \<notin> set (nodes t)"
  shows "\<exists>m' t'. ngx_rbtree_insert ngx_rbtree_insert_value s x m = Some m' \<and> red_black_in m' s t' \<and>
    nodes t' = takeWhile (\<lambda>y. n_key m y \<le> n_key m x) (nodes t) @ x # dropWhile (\<lambda>y. n_key m y \<le> n_key m x) (nodes t) \<and>
    sorted (map (n_key m') (nodes t')) \<and> same_outside (insert x (set (nodes t))) m m' \<and> n_key m' = n_key m"
proof -
  have le: "(\<lambda>y. n_key m y \<le> n_key m x) = (\<lambda>y. \<not> n_key m x < n_key m y)" by (simp add: not_less)
  have "upwards (\<lambda>y. n_key m x < n_key m y) (nodes t)"
    using assms(2) unfolding upwards_def sorted_map by (rule sorted_wrt_mono_rel [rotated]) auto
  from rbtree_insert_ok [OF assms(1,3,4) this, of ngx_rbtree_insert_value, OF ngx_rbtree_insert_value_def]
  obtain m' t' where r: "ngx_rbtree_insert ngx_rbtree_insert_value s x m = Some m'" "red_black_in m' s t'"
    "nodes t' = takeWhile (\<lambda>y. n_key m y \<le> n_key m x) (nodes t) @ x # dropWhile (\<lambda>y. n_key m y \<le> n_key m x) (nodes t)"
    "n_key m' = n_key m" "same_outside (insert x (set (nodes t))) m m'" unfolding le by blast
  moreover have "sorted (map (n_key m') (nodes t'))"
    unfolding r(3,4) by (rule sorted_insert_behind [OF assms(2)])
  ultimately show ?thesis by blast
qed

text \<open>
  Claim C12. \<open>ngx_rbtree_insert\<close> with the order of the keys puts the node behind the nodes whose key is not
  larger. The result is again a red-black tree in memory, and no other node, no key and not the
  sentinel is changed.
\<close>
theorem rbtree_insert_value:
  assumes "red_black_in m s t" "sorted (map (n_key m) (nodes t))" "x \<noteq> s" "x \<notin> set (nodes t)"
  shows "\<exists>m' t'. ngx_rbtree_insert ngx_rbtree_insert_value s x m = Some m' \<and> red_black_in m' s t' \<and>
    nodes t' = takeWhile (\<lambda>y. n_key m y \<le> n_key m x) (nodes t) @ x # dropWhile (\<lambda>y. n_key m y \<le> n_key m x) (nodes t) \<and>
    sorted (map (n_key m') (nodes t')) \<and> same_outside (insert x (set (nodes t))) m m' \<and> n_key m' = n_key m"
  by (rule rbtree_insert_value_ok [OF assms])

text \<open>
  With the order of the timers, which may wrap around: as long as all times lie within half of
  the range of a word behind some time, the tree is sorted from that time on.
\<close>

lemma rbtree_insert_timer_value:
  assumes "red_black_in m s t" "sorted (map (\<lambda>y. n_key m y - now) (nodes t))" "x \<noteq> s" "x \<notin> set (nodes t)"
    "\<forall>y \<in> insert x (set (nodes t)). unat (n_key m y - now) < 2 ^ 63"
  shows "\<exists>m' t'. ngx_rbtree_insert ngx_rbtree_insert_timer_value s x m = Some m' \<and> red_black_in m' s t' \<and>
    nodes t' = takeWhile (\<lambda>y. n_key m y - now \<le> n_key m x - now) (nodes t) @ x #
      dropWhile (\<lambda>y. n_key m y - now \<le> n_key m x - now) (nodes t) \<and>
    sorted (map (\<lambda>y. n_key m' y - now) (nodes t')) \<and> same_outside (insert x (set (nodes t))) m m' \<and> n_key m' = n_key m"
proof -
  let ?k = "\<lambda>y. n_key m y - now"
  have lt: "(n_key m x - n_key m y <s 0) = (?k x < ?k y)" if "y \<in> set (nodes t)" for y
    using sless_window [of "?k x" "?k y"] assms(5) that by simp
  have "sorted_wrt (\<lambda>a b. ?k a \<le> ?k b) (nodes t)" using assms(2) by (simp add: sorted_map)
  then have "upwards (\<lambda>y. n_key m x - n_key m y <s 0) (nodes t)"
    unfolding upwards_def by (rule sorted_wrt_mono_rel [rotated]) (auto simp: lt)
  from rbtree_insert_ok [OF assms(1,3,4) this, of ngx_rbtree_insert_timer_value, OF ngx_rbtree_insert_timer_value_def]
  obtain m' t' where r: "ngx_rbtree_insert ngx_rbtree_insert_timer_value s x m = Some m'" "red_black_in m' s t'"
    "nodes t' = takeWhile (\<lambda>y. \<not> n_key m x - n_key m y <s 0) (nodes t) @ x #
       dropWhile (\<lambda>y. \<not> n_key m x - n_key m y <s 0) (nodes t)"
    "n_key m' = n_key m" "same_outside (insert x (set (nodes t))) m m'" by blast
  have le: "takeWhile (\<lambda>y. \<not> n_key m x - n_key m y <s 0) (nodes t) = takeWhile (\<lambda>y. ?k y \<le> ?k x) (nodes t)"
    "dropWhile (\<lambda>y. \<not> n_key m x - n_key m y <s 0) (nodes t) = dropWhile (\<lambda>y. ?k y \<le> ?k x) (nodes t)"
    by (rule takeWhile_cong dropWhile_cong; simp add: lt not_less)+
  have "sorted (map (\<lambda>y. n_key m' y - now) (nodes t'))"
    unfolding r(3,4) le by (rule sorted_insert_behind [OF assms(2)])
  with r show ?thesis unfolding le by blast
qed

section \<open>The height\<close>

fun height :: "rbt \<Rightarrow> nat" where
  "height Leaf = 0"
| "height (Node c l x r) = Suc (max (height l) (height r))"

lemma nodes_bheight: "balanced t \<Longrightarrow> 2 ^ bheight t \<le> length (nodes t) + 1"
  by (induction t) auto

lemma height_bheight: "balanced t \<Longrightarrow> colour_ok t \<Longrightarrow> height t \<le> 2 * bheight t + (if is_red t then 1 else 0)"
  by (induction t) (auto split: if_splits)


text \<open>A memory with one node for the examples: the sentinel is at 1, the node at 2, and its key is 20.\<close>

definition one_node :: rbs where
  "one_node = \<lparr>rb_root = 2, n_key = (\<lambda>p. p * 10), n_left = (\<lambda>p. 1), n_right = (\<lambda>p. 1), n_parent = (\<lambda>p. 0), n_red = (\<lambda>p. False)\<rparr>"

lemma one_node_in: "red_black_in one_node 1 (Node False Leaf 2 Leaf)"
  by (simp add: red_black_in_def red_black_def in_mem_def one_node_def)

theorem rbtree_insert_value_witness:
  "\<exists>m' t'. ngx_rbtree_insert ngx_rbtree_insert_value 1 3 one_node = Some m' \<and> red_black_in m' 1 t' \<and> nodes t' = [2, 3]"
proof -
  have "sorted (map (n_key one_node) (nodes (Node False Leaf 2 Leaf)))" "(3 :: ptr) \<noteq> 1" "3 \<notin> set (nodes (Node False Leaf 2 Leaf))"
    by simp_all
  from rbtree_insert_value [OF one_node_in this] show ?thesis by (auto simp: one_node_def)
qed


end
