(* ===== verification/NgxRbtreeDel.thy ===== *)
theory NgxRbtreeDel
  imports NgxRbtree
begin

text \<open>
  \<open>ngx_rbtree_min\<close> and \<open>ngx_rbtree_delete\<close> of src/core/ngx_rbtree.h and ngx_rbtree.c: a node with
  two children is replaced by the next one, and the black node that is missing on a path is then
  made up for on the way to the root. The sentinel serves as the child that a path ends in, so that
  its \<open>parent\<close> is assigned and read.
\<close>

section \<open>The code\<close>

partial_function (option) ngx_rbtree_min :: "ptr \<Rightarrow> rbs \<Rightarrow> ptr \<Rightarrow> ptr option" where
  "ngx_rbtree_min sentinel m node =
     (if n_left m node \<noteq> sentinel then ngx_rbtree_min sentinel m (n_left m node) else Some node)"

definition delete_subst :: "ptr \<Rightarrow> ptr \<Rightarrow> rbs \<Rightarrow> (ptr \<times> ptr) option" where
  "delete_subst sentinel node m =
     (if n_left m node = sentinel then Some (node, n_right m node)
      else if n_right m node = sentinel then Some (node, n_left m node)
      else case ngx_rbtree_min sentinel m (n_right m node) of
             None \<Rightarrow> None
           | Some subst \<Rightarrow> Some (subst, if n_left m subst \<noteq> sentinel then n_left m subst else n_right m subst))"

text \<open>The node \<open>subst\<close> is taken out, its child \<open>temp\<close> takes its place.\<close>

definition delete_unlink :: "ptr \<Rightarrow> ptr \<Rightarrow> rbs \<Rightarrow> rbs" where
  "delete_unlink subst temp m =
     (if subst = n_left m (n_parent m subst) then set_left (n_parent m subst) temp m
      else set_right (n_parent m subst) temp m)"

text \<open>\<open>subst\<close> takes the place of the deleted node.\<close>

definition delete_take_over :: "ptr \<Rightarrow> ptr \<Rightarrow> rbs \<Rightarrow> rbs" where
  "delete_take_over node subst m =
     (let m = set_left subst (n_left m node) m;
          m = set_right subst (n_right m node) m;
          m = set_parent subst (n_parent m node) m
      in ngx_rbt_copy_color subst node m)"

definition delete_replace :: "ptr \<Rightarrow> ptr \<Rightarrow> ptr \<Rightarrow> rbs \<Rightarrow> rbs" where
  "delete_replace sentinel node subst m =
     (let m = delete_take_over node subst m;
          m = (if node = rb_root m then m\<lparr>rb_root := subst\<rparr>
               else if node = n_left m (n_parent m node) then set_left (n_parent m node) subst m
               else set_right (n_parent m node) subst m);
          m = (if n_left m subst \<noteq> sentinel then set_parent (n_left m subst) subst m else m)
      in (if n_right m subst \<noteq> sentinel then set_parent (n_right m subst) subst m else m))"

definition delete_clear :: "ptr \<Rightarrow> rbs \<Rightarrow> rbs" where
  "delete_clear node m =
     (let m = set_left node NULL m;
          m = set_right node NULL m;
          m = set_parent node NULL m
      in m\<lparr>n_key := (n_key m)(node := 0)\<rparr>)"

text \<open>The repair, with \<open>temp\<close> on the left: the sibling is made black, then one of three cases.\<close>

definition delete_sibling_left :: "ptr \<Rightarrow> ptr \<Rightarrow> rbs \<Rightarrow> ptr \<times> rbs" where
  "delete_sibling_left sentinel temp m =
     (let w = n_right m (n_parent m temp) in
      if n_red m w then
        (let m = ngx_rbt_black w m;
             m = ngx_rbt_red (n_parent m temp) m;
             m = ngx_rbtree_left_rotate sentinel (n_parent m temp) m
         in (n_right m (n_parent m temp), m))
      else (w, m))"

definition delete_fix_left :: "ptr \<Rightarrow> ptr \<Rightarrow> rbs \<Rightarrow> ptr \<times> rbs" where
  "delete_fix_left sentinel temp m =
     (let (w, m) = delete_sibling_left sentinel temp m in
      if \<not> n_red m (n_left m w) \<and> \<not> n_red m (n_right m w) then
        (let m = ngx_rbt_red w m in (n_parent m temp, m))
      else
        (let (w, m) =
               (if \<not> n_red m (n_right m w) then
                  (let m = ngx_rbt_black (n_left m w) m;
                       m = ngx_rbt_red w m;
                       m = ngx_rbtree_right_rotate sentinel w m
                   in (n_right m (n_parent m temp), m))
                else (w, m));
             m = ngx_rbt_copy_color w (n_parent m temp) m;
             m = ngx_rbt_black (n_parent m temp) m;
             m = ngx_rbt_black (n_right m w) m;
             m = ngx_rbtree_left_rotate sentinel (n_parent m temp) m
         in (rb_root m, m)))"

definition delete_sibling_right :: "ptr \<Rightarrow> ptr \<Rightarrow> rbs \<Rightarrow> ptr \<times> rbs" where
  "delete_sibling_right sentinel temp m =
     (let w = n_left m (n_parent m temp) in
      if n_red m w then
        (let m = ngx_rbt_black w m;
             m = ngx_rbt_red (n_parent m temp) m;
             m = ngx_rbtree_right_rotate sentinel (n_parent m temp) m
         in (n_left m (n_parent m temp), m))
      else (w, m))"

definition delete_fix_right :: "ptr \<Rightarrow> ptr \<Rightarrow> rbs \<Rightarrow> ptr \<times> rbs" where
  "delete_fix_right sentinel temp m =
     (let (w, m) = delete_sibling_right sentinel temp m in
      if \<not> n_red m (n_left m w) \<and> \<not> n_red m (n_right m w) then
        (let m = ngx_rbt_red w m in (n_parent m temp, m))
      else
        (let (w, m) =
               (if \<not> n_red m (n_left m w) then
                  (let m = ngx_rbt_black (n_right m w) m;
                       m = ngx_rbt_red w m;
                       m = ngx_rbtree_left_rotate sentinel w m
                   in (n_left m (n_parent m temp), m))
                else (w, m));
             m = ngx_rbt_copy_color w (n_parent m temp) m;
             m = ngx_rbt_black (n_parent m temp) m;
             m = ngx_rbt_black (n_left m w) m;
             m = ngx_rbtree_right_rotate sentinel (n_parent m temp) m
         in (rb_root m, m)))"

definition delete_fix :: "ptr \<Rightarrow> ptr \<Rightarrow> rbs \<Rightarrow> ptr \<times> rbs" where
  "delete_fix sentinel temp m =
     (if temp = n_left m (n_parent m temp) then delete_fix_left sentinel temp m
      else delete_fix_right sentinel temp m)"

partial_function (option) delete_loop :: "ptr \<Rightarrow> ptr \<Rightarrow> rbs \<Rightarrow> (ptr \<times> rbs) option" where
  "delete_loop sentinel temp m =
     (if temp \<noteq> rb_root m \<and> \<not> n_red m temp
      then (case delete_fix sentinel temp m of (temp, m) \<Rightarrow> delete_loop sentinel temp m)
      else Some (temp, m))"

definition ngx_rbtree_delete :: "ptr \<Rightarrow> ptr \<Rightarrow> rbs \<Rightarrow> rbs option" where
  "ngx_rbtree_delete sentinel node m =
     (case delete_subst sentinel node m of
        None \<Rightarrow> None
      | Some (subst, temp) \<Rightarrow>
          if subst = rb_root m then
            (let m = m\<lparr>rb_root := temp\<rparr>; m = ngx_rbt_black temp m in Some (delete_clear node m))
          else
            (let red = n_red m subst;
                 m = delete_unlink subst temp m;
                 m = (if subst = node then set_parent temp (n_parent m subst) m
                      else delete_replace sentinel node subst
                             (if n_parent m subst = node then set_parent temp subst m
                              else set_parent temp (n_parent m subst) m));
                 m = delete_clear node m
             in if red then Some m
                else case delete_loop sentinel temp m of
                       None \<Rightarrow> None
                     | Some (temp, m) \<Rightarrow> Some (ngx_rbt_black temp m)))"

section \<open>The place of \<open>temp\<close>\<close>

text \<open>The tree \<open>t\<close> hangs at a place, and \<open>parent\<close> of its address is right even if that is the sentinel.\<close>

definition hangs :: "rbs \<Rightarrow> ptr \<Rightarrow> frame list \<Rightarrow> rbt \<Rightarrow> bool" where
  "hangs m s path t \<longleftrightarrow> in_mem m s (plug path t) \<and> (path \<noteq> [] \<longrightarrow> n_parent m (addr s t) = above 0 path)"

text \<open>A black node is missing above \<open>t\<close>.\<close>

definition short_of :: "frame list \<Rightarrow> rbt \<Rightarrow> bool" where
  "short_of path t \<longleftrightarrow>
     balanced_path path (Suc (bheight t)) \<and> balanced t \<and> colour_path path False \<and> colour_ok (blacken t) \<and>
     (path \<noteq> [] \<longrightarrow> \<not> is_red (plug path Leaf))"

lemma hangs_GoL: "hangs m s (GoL c p w # path) t \<Longrightarrow> n_parent m (addr s t) = p"
  by (simp add: hangs_def)

text \<open>What one turn of the loop gives: another place nearer to the root, or the end.\<close>

definition del_result :: "nat \<Rightarrow> rbs \<Rightarrow> ptr \<Rightarrow> frame list \<Rightarrow> rbt \<Rightarrow> ptr \<times> rbs \<Rightarrow> bool" where
  "del_result n m s path t res \<longleftrightarrow>
     (case res of (temp, m') \<Rightarrow>
        same_outside (set (nodes (plug path t))) m m' \<and>
        ((\<exists>path' u. hangs m' s path' u \<and> short_of path' u \<and> temp = addr s u \<and>
            nodes (plug path' u) = nodes (plug path t) \<and> (length path' < n \<or> is_red u)) \<or>
         (\<exists>u. in_mem m' s u \<and> temp = rb_root m' \<and> nodes u = nodes (plug path t) \<and> balanced u \<and> colour_ok u)))"

section \<open>With a black sibling\<close>

text \<open>Both children of the sibling are black: the sibling becomes red.\<close>

lemma del_black_children:
  assumes "hangs m s (GoL c p (Node False wl w wr) # rest) t" "short_of (GoL c p (Node False wl w wr) # rest) t" "\<not> is_red t"
    "\<not> is_red wl" "\<not> is_red wr" "c \<or> length rest < n"
  shows "del_result n m s (GoL c p (Node False wl w wr) # rest) t (p, ngx_rbt_red w m)"
proof -
  from assms(1) have m: "in_mem m s (plug (GoR c t p # rest) (Node False wl w wr))" by (simp add: hangs_def)
  from in_mem_colour(1) [OF m] have m': "in_mem (ngx_rbt_red w m) s (plug rest (Node c t p (Node True wl w wr)))" by simp
  have "hangs (ngx_rbt_red w m) s rest (Node c t p (Node True wl w wr))"
    using m' in_mem_node(5) [OF m'] by (simp add: hangs_def)
  moreover have "short_of rest (Node c t p (Node True wl w wr))"
    using assms(2-5) is_red_plug [of rest "Node c Leaf p (Node False wl w wr)" Leaf]
    by (auto simp: short_of_def colour_blacken intro: colour_path_black split: if_splits) (cases t; simp)+
  moreover have "nodes (plug rest (Node c t p (Node True wl w wr))) = nodes (plug (GoL c p (Node False wl w wr) # rest) t)"
    by (simp add: nodes_plug)
  moreover have "length rest < n \<or> is_red (Node c t p (Node True wl w wr))" using assms(6) by auto
  moreover have "p = addr s (Node c t p (Node True wl w wr))" by simp
  ultimately have "\<exists>path' u. hangs (ngx_rbt_red w m) s path' u \<and> short_of path' u \<and> p = addr s u \<and>
    nodes (plug path' u) = nodes (plug (GoL c p (Node False wl w wr) # rest) t) \<and> (length path' < n \<or> is_red u)" by blast
  then show ?thesis unfolding del_result_def prod.case by (simp add: set_plug)
qed

text \<open>The right child of the sibling is red: one rotation, and the loop ends.\<close>

definition delete_rotate_left :: "ptr \<Rightarrow> ptr \<Rightarrow> ptr \<Rightarrow> rbs \<Rightarrow> ptr \<times> rbs" where
  "delete_rotate_left s temp w m =
     (let m = ngx_rbt_copy_color w (n_parent m temp) m;
          m = ngx_rbt_black (n_parent m temp) m;
          m = ngx_rbt_black (n_right m w) m;
          m = ngx_rbtree_left_rotate s (n_parent m temp) m
      in (rb_root m, m))"

lemma del_red_right:
  assumes "in_mem m s (plug (GoL c p (Node d wl w (Node True xl x xr)) # rest) t)" "n_parent m temp = p"
  shows "\<exists>m'. delete_rotate_left s temp w m = (rb_root m', m') \<and>
    same_outside (set (nodes (plug rest (Node c t p (Node d wl w (Node True xl x xr)))))) m m' \<and>
    in_mem m' s (plug rest (Node c (Node False t p wl) w (Node False xl x xr)))"
    (is "\<exists>m'. _ \<and> same_outside ?A _ _ \<and> _")
proof -
  note p = in_mem_GoL [OF assms(1)]
  have 0: "in_mem m s (plug (GoR c t p # rest) (Node d wl w (Node True xl x xr)))" using assms(1) by simp
  note w = in_mem_node [OF 0]
  let ?m1 = "ngx_rbt_copy_color w p m"
  from in_mem_colour(3) [OF 0, of p]
  have 1: "in_mem ?m1 s (plug rest (Node c t p (Node c wl w (Node True xl x xr))))" using p(3) by simp
  let ?m2 = "ngx_rbt_black p ?m1"
  from in_mem_colour(2) [OF 1]
  have 2: "in_mem ?m2 s (plug (GoR c wl w # GoR False t p # rest) (Node True xl x xr))" by simp
  let ?m3 = "ngx_rbt_black x ?m2"
  from in_mem_colour(2) [OF 2]
  have 3: "in_mem ?m3 s (plug rest (Node False t p (Node c wl w (Node False xl x xr))))" by simp
  have "same_outside ?A m ?m3" by (simp add: set_plug)
  also have "same_outside ?A ?m3 (ngx_rbtree_left_rotate s p ?m3)"
    using left_rotate_outside [OF 3] by (simp add: set_plug)
  finally show ?thesis
    using left_rotate [OF 3] w assms(2) by (simp add: delete_rotate_left_def Let_def)
qed

lemma del_red_right_result:
  assumes "short_of (GoL c p (Node False wl w (Node True xl x xr)) # rest) t" "\<not> is_red t"
    "same_outside (set (nodes (plug rest (Node c t p (Node False wl w (Node True xl x xr)))))) m m'"
    "in_mem m' s (plug rest (Node c (Node False t p wl) w (Node False xl x xr)))"
  shows "del_result n m s (GoL c p (Node False wl w (Node True xl x xr)) # rest) t (rb_root m', m')"
proof -
  let ?u = "Node c (Node False t p wl) w (Node False xl x xr)"
  have "colour_ok t" using assms(1,2) by (cases t) (auto simp: short_of_def)
  then have "balanced (plug rest ?u)" "colour_ok (plug rest ?u)"
    using assms(1) by (auto simp: short_of_def balanced_plug colour_plug split: if_splits)
  moreover have "nodes (plug rest ?u) = nodes (plug (GoL c p (Node False wl w (Node True xl x xr)) # rest) t)"
    by (simp add: nodes_plug)
  ultimately show ?thesis
    unfolding del_result_def prod.case using assms(3,4)
    by (intro conjI disjI2 exI [of _ "plug rest ?u"]) (simp_all add: set_plug)
qed

lemma del_red_left:
  assumes "in_mem m s (plug (GoL c p (Node False (Node True a y b) w wr) # rest) t)"
  shows "in_mem (ngx_rbtree_right_rotate s w (ngx_rbt_red w (ngx_rbt_black y m))) s
      (plug (GoL c p (Node False a y (Node True b w wr)) # rest) t)" (is "in_mem ?m _ _")
    and "same_outside (set (nodes (plug (GoL c p (Node False (Node True a y b) w wr) # rest) t))) m
      (ngx_rbtree_right_rotate s w (ngx_rbt_red w (ngx_rbt_black y m)))" (is "same_outside ?A _ _")
proof -
  have 0: "in_mem m s (plug (GoL False w wr # GoR c t p # rest) (Node True a y b))" using assms by simp
  from in_mem_colour(2) [OF 0]
  have "in_mem (ngx_rbt_black y m) s (plug (GoR c t p # rest) (Node False (Node False a y b) w wr))" by simp
  note r = in_mem_colour(1) [OF this]
  show "in_mem ?m s (plug (GoL c p (Node False a y (Node True b w wr)) # rest) t)"
    using right_rotate [OF r] by simp
  have "same_outside ?A m (ngx_rbt_red w (ngx_rbt_black y m))" by (simp add: set_plug)
  also have "same_outside ?A (ngx_rbt_red w (ngx_rbt_black y m)) ?m"
    using right_rotate_outside [OF r] by (simp add: set_plug insert_commute Un_ac)
  finally show "same_outside ?A m ?m" .
qed

text \<open>All cases of a black sibling.\<close>

definition delete_black_left :: "ptr \<Rightarrow> ptr \<Rightarrow> ptr \<Rightarrow> rbs \<Rightarrow> ptr \<times> rbs" where
  "delete_black_left s temp w m =
     (if \<not> n_red m (n_left m w) \<and> \<not> n_red m (n_right m w) then (n_parent m temp, ngx_rbt_red w m)
      else if \<not> n_red m (n_right m w) then
        (let m = ngx_rbtree_right_rotate s w (ngx_rbt_red w (ngx_rbt_black (n_left m w) m))
         in delete_rotate_left s temp (n_right m (n_parent m temp)) m)
      else delete_rotate_left s temp w m)"

lemma delete_fix_left_code:
  "delete_fix_left s temp m = (case delete_sibling_left s temp m of (w, m) \<Rightarrow> delete_black_left s temp w m)"
  by (simp add: delete_fix_left_def delete_black_left_def delete_rotate_left_def Let_def split: prod.split)

lemma del_black:
  assumes "hangs m s (GoL c p (Node False wl w wr) # rest) t" "short_of (GoL c p (Node False wl w wr) # rest) t" "\<not> is_red t"
    "c \<or> length rest < n"
  shows "del_result n m s (GoL c p (Node False wl w wr) # rest) t (delete_black_left s (addr s t) w m)"
proof -
  let ?t = "addr s t"
  have m: "in_mem m s (plug (GoR c t p # rest) (Node False wl w wr))"
    and m0: "in_mem m s (plug (GoL c p (Node False wl w wr) # rest) t)" using assms(1) by (simp_all add: hangs_def)
  note par = hangs_GoL [OF assms(1)]
  note w = in_mem_node [OF m]
  have "in_mem m s (plug (GoL False w wr # GoR c t p # rest) wl)" using m by simp
  note l = in_mem_red [OF this]
  have "in_mem m s (plug (GoR False wl w # GoR c t p # rest) wr)" using m by simp
  note r = in_mem_red [OF this]
  consider "\<not> is_red wl" "\<not> is_red wr" | xl x xr where "wr = Node True xl x xr"
    | a y b where "wl = Node True a y b" "\<not> is_red wr"
    by (cases wl; cases wr) auto
  then show ?thesis
  proof cases
    case 1
    then have "delete_black_left s ?t w m = (p, ngx_rbt_red w m)" using w l r par by (simp add: delete_black_left_def)
    then show ?thesis using del_black_children [OF assms(1-3) 1 assms(4)] by simp
  next
    case 2
    then have code: "delete_black_left s ?t w m = delete_rotate_left s ?t w m" using w l r par by (simp add: delete_black_left_def)
    from del_red_right [OF m0 [unfolded 2] par] obtain m' where "delete_rotate_left s ?t w m = (rb_root m', m')"
      "same_outside (set (nodes (plug rest (Node c t p (Node False wl w wr))))) m m'"
      "in_mem m' s (plug rest (Node c (Node False t p wl) w (Node False xl x xr)))" unfolding 2 by blast
    with del_red_right_result [OF assms(2) [unfolded 2] assms(3)] show ?thesis by (simp add: code 2)
  next
    case 3
    let ?m = "ngx_rbtree_right_rotate s w (ngx_rbt_red w (ngx_rbt_black y m))"
    note rot = del_red_left [OF m0 [unfolded 3(1)]]
    have temp: "n_parent ?m ?t = p"
    proof (cases "t = Leaf")
      case True
      have "s \<notin> set (nodes (plug (GoL c p (Node False (Node True a y b) w wr) # rest) t))"
        using m0 unfolding in_mem_def 3 by blast
      then show ?thesis using rot(2) par True by (simp add: same_outside_def)
    qed (use in_mem_GoL(9) [OF rot(1)] in simp)
    have "delete_black_left s ?t w m = delete_rotate_left s ?t (n_right ?m (n_parent ?m ?t)) ?m"
      using w l r par 3 by (simp add: delete_black_left_def Let_def)
    then have code: "delete_black_left s ?t w m = delete_rotate_left s ?t y ?m"
      using temp in_mem_GoL(2) [OF rot(1)] by simp
    from del_red_right [OF rot(1) temp] obtain m' where m': "delete_rotate_left s ?t y ?m = (rb_root m', m')"
      "same_outside (set (nodes (plug rest (Node c t p (Node False a y (Node True b w wr)))))) ?m m'"
      "in_mem m' s (plug rest (Node c (Node False t p a) y (Node False b w wr)))" by blast
    have sh: "short_of (GoL c p (Node False a y (Node True b w wr)) # rest) t"
      using assms(2) 3 is_red_plug [of rest "Node c Leaf p wl" for wl]
      by (auto simp: short_of_def split: if_splits) (metis is_red_plug plug.simps(1) is_red.simps(2))+
    have eq: "set (nodes (plug rest (Node c t p (Node False a y (Node True b w wr))))) =
        set (nodes (plug (GoL c p (Node False wl w wr) # rest) t))"
      by (auto simp: set_plug 3)
    have out: "same_outside (set (nodes (plug rest (Node c t p (Node False a y (Node True b w wr)))))) m m'"
      using rot(2) m'(2) unfolding eq 3(1) [symmetric] by (rule same_outside_trans)
    have "nodes (plug (GoL c p (Node False a y (Node True b w wr)) # rest) t) = nodes (plug (GoL c p (Node False wl w wr) # rest) t)"
      by (simp add: nodes_plug 3)
    with del_red_right_result [OF sh assms(3) out m'(3)] show ?thesis
      unfolding code m'(1) del_result_def by auto
  qed
qed

section \<open>One turn of the loop\<close>

lemma del_left:
  assumes "hangs m s (GoL c p W # rest) t" "short_of (GoL c p W # rest) t" "\<not> is_red t"
  shows "del_result (Suc (length rest)) m s (GoL c p W # rest) t (delete_fix_left s (addr s t) m)"
proof -
  let ?t = "addr s t"
  note par = hangs_GoL [OF assms(1)]
  have m: "in_mem m s (plug (GoL c p W # rest) t)" using assms(1) by (simp add: hangs_def)
  note p = in_mem_GoL [OF m]
  have h: "bheight W = Suc (bheight t)" "balanced W" using assms(2) by (simp_all add: short_of_def)
  then obtain d wl w wr where W: "W = Node d wl w wr" by (cases W) auto
  show ?thesis
  proof (cases d)
    case False
    have "delete_fix_left s ?t m = delete_black_left s ?t w m"
      using p par False W by (simp add: delete_fix_left_code delete_sibling_left_def Let_def)
    then show ?thesis using del_black [of m s c p wl w wr rest t] assms W False by simp
  next
    case True
    have c: "\<not> c" using assms(2) True W by (simp add: short_of_def)
    obtain a x b where wl: "wl = Node False a x b"
      using h assms(2) W True by (cases wl) (auto simp: short_of_def)
    have "in_mem m s (plug (GoR c t p # rest) (Node True wl w wr))" using m True W by simp
    from in_mem_colour(2) [OF this]
    have "in_mem (ngx_rbt_black w m) s (plug rest (Node c t p (Node False wl w wr)))" by simp
    note r = in_mem_colour(1) [OF this]
    let ?m = "ngx_rbtree_left_rotate s p (ngx_rbt_red p (ngx_rbt_black w m))"
    let ?path = "GoL True p wl # GoL False w wr # rest"
    have m1: "in_mem ?m s (plug ?path t)" using left_rotate [OF r] by simp
    have out: "same_outside (set (nodes (plug ?path t))) m ?m"
    proof -
      have "same_outside (set (nodes (plug ?path t))) m (ngx_rbt_red p (ngx_rbt_black w m))" by (simp add: set_plug)
      also have "same_outside (set (nodes (plug ?path t))) (ngx_rbt_red p (ngx_rbt_black w m)) ?m"
        using left_rotate_outside [OF r] by (simp add: set_plug insert_commute Un_ac)
      finally show ?thesis .
    qed
    have temp: "n_parent ?m ?t = p"
    proof (cases "t = Leaf")
      case True
      have "s \<notin> set (nodes (plug ?path t))" using m1 unfolding in_mem_def by blast
      then show ?thesis using out par True by (simp add: same_outside_def)
    qed (use in_mem_GoL(9) [OF m1] in simp)
    have hang: "hangs ?m s ?path t" using m1 temp by (simp add: hangs_def)
    have short: "short_of ?path t"
      using assms(2) W True c wl is_red_plug [of rest _ Leaf]
      by (auto simp: short_of_def) (metis is_red_plug plug.simps(1) is_red.simps(2))+
    have "n_right ?m p = x" using in_mem_GoL(2) [OF m1] by (simp add: wl)
    then have code: "delete_fix_left s ?t m = delete_black_left s ?t x ?m"
      using p par True W temp by (simp add: delete_fix_left_code delete_sibling_left_def Let_def)
    have res: "del_result (Suc (length rest)) ?m s ?path t (delete_fix_left s ?t m)"
      using del_black [of ?m s True p a x b "GoL False w wr # rest" t] hang short assms(3) unfolding code wl by simp
    have eq: "nodes (plug ?path t) = nodes (plug (GoL c p W # rest) t)" by (simp add: nodes_plug W)
    show ?thesis using res same_outside_trans [OF out] unfolding del_result_def eq by auto
  qed
qed

text \<open>The other side.\<close>

lemma delete_fix_right_flip: "delete_fix_right s temp m = apsnd flip (delete_fix_left s temp (flip m))"
proof -
  obtain w m1 where l: "delete_sibling_left s temp (flip m) = (w, m1)" by (metis surj_pair)
  have "delete_sibling_right s temp m = apsnd flip (delete_sibling_left s temp (flip m))"
    by (simp add: delete_sibling_left_def delete_sibling_right_def Let_def right_rotate_flip)
  then have r: "delete_sibling_right s temp m = (w, flip m1)" by (simp add: l)
  show ?thesis
    by (cases "n_red m1 (n_left m1 w)"; cases "n_red m1 (n_right m1 w)")
      (simp_all add: delete_fix_right_def delete_fix_left_def l r Let_def right_rotate_flip)
qed

lemma above_mirror [simp]: "above q (map mirror_frame path) = above q path"
  by (induction q path rule: above.induct) simp_all

lemma hangs_flip: "hangs (flip m) s (map mirror_frame path) (mirror t) = hangs m s path t"
  using in_mem_flip [of m s "plug path t"] by (simp add: hangs_def)

lemma mirror_path [simp]:
  "balanced_path (map mirror_frame path) n = balanced_path path n"
  "colour_path (map mirror_frame path) b = colour_path path b"
proof -
  have "balanced t \<Longrightarrow> bheight (mirror t) = bheight t" for t by simp
  then show "balanced_path (map mirror_frame path) n = balanced_path path n"
    by (induction path n rule: balanced_path.induct) auto
  show "colour_path (map mirror_frame path) b = colour_path path b"
    by (induction path b rule: colour_path.induct) auto
qed

lemma blacken_mirror [simp]: "blacken (mirror t) = mirror (blacken t)"
  by (cases t) simp_all

lemma short_of_mirror: "short_of (map mirror_frame path) (mirror t) = short_of path t"
proof -
  have "is_red (plug (map mirror_frame path) Leaf) = is_red (plug path Leaf)"
    using mirror_plug [of path Leaf] mirror_simps(4) [of "plug path Leaf"] by simp
  then show ?thesis by (auto simp: short_of_def)
qed

lemma del_result_flip:
  assumes "del_result n (flip m) s (map mirror_frame path) (mirror t) res"
  shows "del_result n m s path t (apsnd flip res)"
proof -
  obtain temp m' where res: "res = (temp, m')" by (cases res)
  have nodes: "nodes (plug (map mirror_frame path) (mirror t)) = rev (nodes (plug path t))"
    using mirror_simps(3) [of "plug path t"] by simp
  from assms have out: "same_outside (set (nodes (plug path t))) m (flip m')"
    using same_outside_flip [of _ m "flip m'"] by (simp add: del_result_def res set_mirror_plug)
  from assms consider
    path' u where "hangs m' s path' u" "short_of path' u" "temp = addr s u" "nodes (plug path' u) = rev (nodes (plug path t))"
      "length path' < n \<or> is_red u"
    | u where "in_mem m' s u" "temp = rb_root m'" "nodes u = rev (nodes (plug path t))" "balanced u" "colour_ok u"
    unfolding del_result_def res prod.case nodes by blast
  then show ?thesis
  proof cases
    case (1 path' u)
    have "hangs (flip m') s (map mirror_frame path') (mirror u)"
      using 1(1) hangs_flip [of m' s path' u] by simp
    moreover have "nodes (plug (map mirror_frame path') (mirror u)) = nodes (plug path t)"
      using mirror_simps(3) [of "plug path' u"] 1(4) by simp
    ultimately have "\<exists>path' u. hangs (flip m') s path' u \<and> short_of path' u \<and> temp = addr s u \<and>
      nodes (plug path' u) = nodes (plug path t) \<and> (length path' < n \<or> is_red u)"
      using 1(2,3,5) by (intro exI [of _ "map mirror_frame path'"] exI [of _ "mirror u"]) (simp add: short_of_mirror)
    with out show ?thesis by (simp add: del_result_def res)
  next
    case (2 u)
    have "in_mem (flip m') s (mirror u)" using 2(1) by (simp add: in_mem_flip)
    with 2(2-5) have "\<exists>u. in_mem (flip m') s u \<and> temp = rb_root (flip m') \<and> nodes u = nodes (plug path t) \<and> balanced u \<and> colour_ok u"
      by (intro exI [of _ "mirror u"]) simp
    with out show ?thesis by (simp add: del_result_def res)
  qed
qed

lemma del_right:
  assumes "hangs m s (GoR c W p # rest) t" "short_of (GoR c W p # rest) t" "\<not> is_red t"
  shows "del_result (Suc (length rest)) m s (GoR c W p # rest) t (delete_fix_right s (addr s t) m)"
proof -
  let ?path = "GoL c p (mirror W) # map mirror_frame rest"
  have "hangs (flip m) s ?path (mirror t)" using hangs_flip [of m s "GoR c W p # rest" t] assms(1) by simp
  moreover have "short_of ?path (mirror t)" using short_of_mirror [of "GoR c W p # rest" t] assms(2) by simp
  ultimately have "del_result (Suc (length rest)) (flip m) s ?path (mirror t) (delete_fix_left s (addr s t) (flip m))"
    using del_left [of "flip m" s c p "mirror W" "map mirror_frame rest" "mirror t"] assms(3) by simp
  then show ?thesis
    using del_result_flip [of "Suc (length rest)" m s "GoR c W p # rest" t] by (simp add: delete_fix_right_flip)
qed

section \<open>The loop\<close>

lemma delete_step:
  assumes "hangs m s path t" "short_of path t" "\<not> is_red t" "path \<noteq> []"
  shows "del_result (length path) m s path t (delete_fix s (addr s t) m) \<and> addr s t \<noteq> rb_root m \<and> \<not> n_red m (addr s t)"
proof -
  have m: "in_mem m s (plug path t)" using assms(1) by (simp add: hangs_def)
  have "rb_root m \<in> on_path path"
    using m root_at_Cons assms(4) unfolding in_mem_plug by (cases path) auto
  moreover have "addr s t \<notin> on_path path"
    using m addr_in [of s t] unfolding in_mem_plug distinct_path_def by auto
  ultimately have root: "addr s t \<noteq> rb_root m" by auto
  have red: "\<not> n_red m (addr s t)" using in_mem_red [OF m] assms(3) by simp
  obtain f rest where path: "path = f # rest" using assms(4) by (cases path) auto
  show ?thesis
  proof (cases f)
    case (GoL c p w)
    have "delete_fix s (addr s t) m = delete_fix_left s (addr s t) m"
      using in_mem_GoL(1) [of m s c p w rest t] m assms(1) path GoL by (simp add: delete_fix_def hangs_def)
    then show ?thesis using del_left assms path GoL root red by simp
  next
    case (GoR c w p)
    have "n_left m p = addr s w" using in_mem_GoR(2) [of m s c w p rest t] m path GoR by simp
    moreover have "w \<noteq> Leaf" using assms(2) path GoR by (auto simp: short_of_def)
    moreover have "addr s w \<noteq> addr s t"
      using in_mem_GoL(11) [of m s c p t rest w] m path GoR \<open>w \<noteq> Leaf\<close> by simp
    ultimately have "delete_fix s (addr s t) m = delete_fix_right s (addr s t) m"
      using assms(1) path GoR by (simp add: delete_fix_def hangs_def)
    then show ?thesis using del_right assms path GoR root red by simp
  qed
qed

lemma delete_loop_end:
  assumes "hangs m s path t" "short_of path t" "path = [] \<or> is_red t"
  shows "delete_loop s (addr s t) m = Some (addr s t, m) \<and>
    red_black_in (ngx_rbt_black (addr s t) m) s (plug path (blacken t)) \<and>
    same_outside (insert s (set (nodes (plug path t)))) m (ngx_rbt_black (addr s t) m)"
proof -
  have m: "in_mem m s (plug path t)" using assms(1) by (simp add: hangs_def)
  have "rb_root m = addr s t" if "path = []" using m that by (simp add: in_mem_def)
  then have "delete_loop s (addr s t) m = Some (addr s t, m)"
    using assms(3) in_mem_red [OF m] by (subst delete_loop.simps) auto
  moreover have "in_mem (ngx_rbt_black (addr s t) m) s (plug path (blacken t))"
  proof (cases t)
    case Leaf
    then show ?thesis using m assms(3) by (auto simp: in_mem_def)
  next
    case (Node c l x r)
    then show ?thesis using in_mem_colour(2) m by simp
  qed
  moreover have "red_black (plug path (blacken t))"
  proof -
    have "balanced_path path (bheight (blacken t))" using assms(2,3) by (cases t) (auto simp: short_of_def)
    moreover have "\<not> is_red (plug path (blacken t))"
      using assms(2) is_red_plug [of path "blacken t" Leaf] by (cases "path = []") (auto simp: short_of_def)
    ultimately show ?thesis using assms(2) by (auto simp: red_black_def short_of_def balanced_plug colour_plug)
  qed
  moreover have "addr s t \<in> insert s (set (nodes (plug path t)))" using addr_in [of s t] by (auto simp: set_plug)
  ultimately show ?thesis by (simp add: red_black_in_def)
qed

lemma delete_fix_key: "n_key (snd (delete_fix s temp m)) = n_key m"
proof -
  have "n_key (snd (delete_fix_left s temp m)) = n_key m" for m
    by (simp add: delete_fix_left_def delete_sibling_left_def Let_def)
  then show ?thesis by (simp add: delete_fix_def delete_fix_right_flip)
qed

lemma delete_loop_ok:
  assumes "hangs m s path t" "short_of path t"
  shows "\<exists>temp m' u. delete_loop s (addr s t) m = Some (temp, m') \<and> red_black_in (ngx_rbt_black temp m') s u \<and>
    nodes u = nodes (plug path t) \<and> n_key m' = n_key m \<and>
    same_outside (insert s (set (nodes (plug path t)))) m (ngx_rbt_black temp m')"
  using assms
proof (induction "if is_red t then 0 else Suc (length path)" arbitrary: m path t rule: less_induct)
  case less
  show ?case
  proof (cases "path = [] \<or> is_red t")
    case True
    have "nodes (plug path (blacken t)) = nodes (plug path t)" by (simp add: nodes_plug)
    with delete_loop_end [OF less.prems True] show ?thesis by metis
  next
    case False
    obtain temp m' where fx: "delete_fix s (addr s t) m = (temp, m')" by (metis surj_pair)
    from delete_step [OF less.prems] False
    have res: "del_result (length path) m s path t (temp, m')" and go: "addr s t \<noteq> rb_root m" "\<not> n_red m (addr s t)"
      by (simp_all add: fx)
    have key: "n_key m' = n_key m" using delete_fix_key [of s "addr s t" m] by (simp add: fx)
    have loop: "delete_loop s (addr s t) m = delete_loop s temp m'"
      using go by (subst delete_loop.simps) (simp add: fx)
    from res have out: "same_outside (set (nodes (plug path t))) m m'" by (simp add: del_result_def)
    then have out: "same_outside (insert s (set (nodes (plug path t)))) m m'" by (rule same_outside_mono) auto
    from res consider
      path' u where "hangs m' s path' u" "short_of path' u" "temp = addr s u" "nodes (plug path' u) = nodes (plug path t)"
        "length path' < length path \<or> is_red u"
      | u where "in_mem m' s u" "temp = rb_root m'" "nodes u = nodes (plug path t)" "balanced u" "colour_ok u"
      unfolding del_result_def prod.case by blast
    then show ?thesis
    proof cases
      case (1 path' u)
      have "(if is_red u then 0 else Suc (length path')) < (if is_red t then 0 else Suc (length path))"
        using 1(5) False by auto
      from less.hyps [OF this 1(1,2)] obtain temp2 m2 v where
        "delete_loop s temp m' = Some (temp2, m2)" "red_black_in (ngx_rbt_black temp2 m2) s v"
        "nodes v = nodes (plug path t)" "n_key m2 = n_key m'"
        "same_outside (insert s (set (nodes (plug path t)))) m' (ngx_rbt_black temp2 m2)"
        unfolding 1(3,4) by blast
      then show ?thesis unfolding loop key using same_outside_trans [OF out] by blast
    next
      case (2 u)
      have "delete_loop s temp m' = Some (temp, m')" using 2(2) by (subst delete_loop.simps) simp
      moreover have "red_black_in (ngx_rbt_black temp m') s (blacken u)"
        using in_mem_blacken_root [OF 2(1)] 2(2,4,5) by (simp add: red_black_in_def red_black_def colour_blacken)
      moreover have "temp \<in> insert s (set (nodes u))" using 2(1,2) addr_in [of s u] by (auto simp: in_mem_def)
      then have "same_outside (insert s (set (nodes (plug path t)))) m (ngx_rbt_black temp m')" using out 2(3) by simp
      ultimately show ?thesis unfolding loop using 2(3) key by (metis blacken_simps(1))
    qed
  qed
qed

section \<open>Taking a node out\<close>

lemma find_node: "x \<in> set (nodes t) \<Longrightarrow> \<exists>path c l r. t = plug path (Node c l x r)"
proof (induction t)
  case (Node c l y r)
  then consider "x = y" | "x \<in> set (nodes l)" | "x \<in> set (nodes r)" by auto
  then show ?case
  proof cases
    case 1
    then have "Node c l y r = plug [] (Node c l x r)" by simp
    then show ?thesis by blast
  next
    case 2
    with Node.IH(1) obtain path d a b where "l = plug path (Node d a x b)" by blast
    then have "Node c l y r = plug (path @ [GoL c y r]) (Node d a x b)" by (simp add: plug_append)
    then show ?thesis by blast
  next
    case 3
    with Node.IH(2) obtain path d a b where "r = plug path (Node d a x b)" by blast
    then have "Node c l y r = plug (path @ [GoR c l y]) (Node d a x b)" by (simp add: plug_append)
    then show ?thesis by blast
  qed
qed simp

lemma lies_path_append:
  "lies_path m s q (path @ path') p \<longleftrightarrow> lies_path m s (above q path') path p \<and> lies_path m s q path' (root_at path p)"
proof (induction path arbitrary: p)
  case (Cons f path)
  have "above q (path @ path') = above (above q path') path"
    by (cases "(above q path', path)" rule: above.cases) auto
  then show ?case using Cons by (cases f) auto
qed simp

text \<open>A node with a child at most: the child takes its place, and gets some parent.\<close>

lemma unlink_code:
  assumes "in_mem m s (plug path (Node c l x r))" "path \<noteq> []"
  shows "delete_unlink x p m = link path p m"
proof -
  from assms obtain q where q: "rb_root m = root_at path x" "lies_path m s q path x" "n_parent m x = above q path"
    "x \<notin> on_path path" "x \<noteq> s"
    unfolding in_mem_plug by (auto simp: distinct_path_def)
  have "rb_root m \<noteq> x" using in_mem_node(6) [OF assms(1)] assms(2) by simp
  with link_code(1) [OF q, of p] show ?thesis by (auto simp: delete_unlink_def)
qed

lemma unlink_ok:
  assumes "in_mem m s (plug path (Node c l x r))" "path \<noteq> []" "l = Leaf \<and> u = r \<or> r = Leaf \<and> u = l"
  shows "\<exists>q. rb_root (link path (addr s u) m) = root_at path (addr s u) \<and>
    lies_path (set_parent (addr s u) v (link path (addr s u) m)) s q path (addr s u) \<and>
    lies (set_parent (addr s u) v (link path (addr s u) m)) s v u \<and> distinct_path path u \<and>
    s \<notin> on_path path \<and> s \<notin> set (nodes u) \<and> \<not> n_red m s"
proof -
  from assms(1) obtain q where q: "rb_root m = root_at path x" "lies_path m s q path x" "lies m s (above q path) (Node c l x r)"
    "distinct_path path (Node c l x r)" "s \<notin> on_path path" "s \<notin> set (nodes (Node c l x r))" "\<not> n_red m s"
    unfolding in_mem_plug addr.simps by blast
  have d: "distinct_path path u" "s \<notin> set (nodes u)" using q(4,6) assms(3) by (auto simp: distinct_path_def)
  have p: "addr s u \<notin> on_path path" using addr_in [of s u] q(5) d by (auto simp: distinct_path_def)
  have "lies m s x u" using q(3) assms(3) by auto
  then have l: "lies (link path (addr s u) m) s x u" using lies_link d(1) by (auto simp: distinct_path_def)
  have "lies (set_parent (addr s u) v (link path (addr s u) m)) s v u"
    using lies_reparent [OF l _ d(2), of v] d(1) by (cases u) (auto simp: distinct_path_def)
  moreover have "lies_path (link path (addr s u) m) s q path (addr s u)"
    using lies_path_link [OF q(2)] q(4) by (simp add: distinct_path_def)
  ultimately show ?thesis using q d p root_link [OF q(1)] by auto
qed

lemma unlink_hangs:
  assumes "in_mem m s (plug path (Node c l x r))" "path \<noteq> []" "l = Leaf \<and> u = r \<or> r = Leaf \<and> u = l"
  shows "hangs (set_parent (addr s u) (above 0 path) (link path (addr s u) m)) s path u"
proof -
  have above: "above q path = above 0 path" for q using assms(2) by (cases "(q, path)" rule: above.cases) auto
  from unlink_ok [OF assms, of "above 0 path"] obtain q where
    "rb_root (link path (addr s u) m) = root_at path (addr s u)"
    "lies_path (set_parent (addr s u) (above 0 path) (link path (addr s u) m)) s q path (addr s u)"
    "lies (set_parent (addr s u) (above 0 path) (link path (addr s u) m)) s (above 0 path) u"
    "distinct_path path u" "s \<notin> on_path path" "s \<notin> set (nodes u)" "\<not> n_red m s" by blast
  moreover from this(3) have "lies (set_parent (addr s u) (above 0 path) (link path (addr s u) m)) s (above q path) u"
    by (simp only: above [of q])
  ultimately show ?thesis unfolding hangs_def in_mem_plug by auto
qed

text \<open>A node takes the place of another one, whose children may have any parent.\<close>

lemma replace_ok:
  assumes "rb_root m = root_at path x" "lies_path m s q path x" "n_parent m x = above q path" "n_red m x = c"
    "lies m s q1 l" "lies m s q2 r" "n_left m x = addr s l" "n_right m x = addr s r"
    "distinct_path path (Node c l x r)" "s \<notin> on_path path" "s \<notin> set (nodes (Node c l x r))" "\<not> n_red m s"
    "y \<noteq> s" "y \<notin> on_path path" "y \<notin> set (nodes (Node c l x r))"
  shows "in_mem (delete_replace s x y m) s (plug path (Node c l y r))"
    and "same_outside (insert y (set (nodes (plug path (Node c l x r))))) m (delete_replace s x y m)"
    and "n_parent (delete_replace s x y m) s = n_parent m s"
proof -
  have d: "distinct (before path @ behind path)" "x \<notin> on_path path" "x \<noteq> s" "x \<noteq> y"
    "on_path path \<inter> set (nodes l) = {}" "on_path path \<inter> set (nodes r) = {}" "distinct (nodes l)" "distinct (nodes r)"
    "x \<notin> set (nodes l)" "x \<notin> set (nodes r)" "set (nodes l) \<inter> set (nodes r) = {}"
    using assms(9,11,15) by (auto simp: distinct_path_def)
  have a: "addr s l \<notin> on_path path" "addr s r \<notin> on_path path" "addr s l \<noteq> y" "addr s r \<noteq> y"
    "addr s l \<notin> set (nodes r)" "addr s r \<notin> set (nodes l)" "addr s l \<noteq> x" "addr s r \<noteq> x"
    using addr_in [of s l] addr_in [of s r] assms(10,11,13-15) d by auto
  define m1 where "m1 = ngx_rbt_copy_color y x (set_parent y (above q path) (set_right y (addr s r) (set_left y (addr s l) m)))"
  have 1: "rb_root m1 = root_at path x" "lies_path m1 s q path x" "n_parent m1 x = above q path"
    using assms(1-3,14) d(4) by (simp_all add: m1_def)
  note code = link_code(1) [OF 1 d(2,3), of y]
  have other: "n_left (link path y m1) y = addr s l" "n_right (link path y m1) y = addr s r"
    using link_other [OF assms(14), of y m1] by (simp_all add: m1_def)
  have eq: "delete_replace s x y m = relink_child s (addr s r) y (relink_child s (addr s l) y (link path y m1))"
  proof -
    have "delete_take_over x y m = m1"
      using d(4) by (simp add: delete_take_over_def m1_def Let_def assms(3,7,8))
    then show ?thesis
      by (simp only: delete_replace_def Let_def code relink_child_def [symmetric] relink_simps other)
  qed
  have "lies_path (link path y m1) s q path y" using lies_path_link [OF 1(2) d(1)] .
  then have "lies_path (delete_replace s x y m) s q path y" unfolding eq using a by simp
  moreover have "lies (delete_replace s x y m) s (above q path) (Node c l y r)"
  proof -
    have l: "lies (link path y m1) s q1 l" "lies (link path y m1) s q2 r"
      using assms(5,6,15) d(5,6) by (simp_all add: lies_link m1_def)
    have "lies (relink_child s (addr s l) y (link path y m1)) s y l" using l(1) d(7) assms(11) by simp
    then have "lies (delete_replace s x y m) s y l" unfolding eq using a by simp
    moreover have "lies (relink_child s (addr s l) y (link path y m1)) s q2 r" using l(2) a by simp
    then have "lies (delete_replace s x y m) s y r" unfolding eq using d(8) assms(11) by simp
    moreover have "n_red m1 y = c" "n_parent m1 y = above q path" using assms(4) d(4) by (simp_all add: m1_def)
    ultimately show ?thesis unfolding eq using other a by simp
  qed
  moreover have "rb_root (delete_replace s x y m) = root_at path y" unfolding eq using root_link [OF 1(1)] by simp
  moreover have "\<not> n_red (delete_replace s x y m) s" unfolding eq using assms(12,13) by (simp add: m1_def)
  moreover have "distinct_path path (Node c l y r)" using assms(9,14,15) by (auto simp: distinct_path_def)
  ultimately show "in_mem (delete_replace s x y m) s (plug path (Node c l y r))"
    unfolding in_mem_plug addr.simps using assms(10,11,13) by auto
  let ?A = "insert y (set (nodes (plug path (Node c l x r))))"
  have "on_path path \<subseteq> ?A" "addr s l \<noteq> s \<Longrightarrow> addr s l \<in> ?A" "addr s r \<noteq> s \<Longrightarrow> addr s r \<in> ?A"
    using addr_in [of s l] addr_in [of s r] by (auto simp: set_plug)
  then show "same_outside ?A m (delete_replace s x y m)"
    unfolding eq relink_child_def by (simp add: same_outside_link m1_def)
  show "n_parent (delete_replace s x y m) s = n_parent m s"
    unfolding eq relink_child_def using assms(13) by (simp add: m1_def)
qed

section \<open>Deletion\<close>

lemma rbtree_min_ok:
  assumes "lies m s q t" "t \<noteq> Leaf" "s \<notin> set (nodes t)"
  shows "\<exists>path c y r. ngx_rbtree_min s m (addr s t) = Some y \<and> t = plug path (Node c Leaf y r) \<and> before path = []"
  using assms
proof (induction t arbitrary: q)
  case (Node c l x r)
  have left: "n_left m x = addr s l" using Node.prems(1) by simp
  show ?case
  proof (cases "l = Leaf")
    case True
    have "ngx_rbtree_min s m x = Some x" using left True by (subst ngx_rbtree_min.simps) simp
    moreover have "Node c l x r = plug [] (Node c Leaf x r)" using True by simp
    ultimately show ?thesis unfolding addr.simps using before.simps(1) by blast
  next
    case False
    have "addr s l \<noteq> s" using False Node.prems(3) by (cases l) auto
    then have min: "ngx_rbtree_min s m x = ngx_rbtree_min s m (addr s l)"
      using left by (subst ngx_rbtree_min.simps) simp
    from Node.IH(1) [of x] Node.prems False obtain path d y b where
      p: "ngx_rbtree_min s m (addr s l) = Some y" "l = plug path (Node d Leaf y b)" "before path = []" by auto
    then have "Node c l x r = plug (path @ [GoL c x r]) (Node d Leaf y b)" "before (path @ [GoL c x r]) = []"
      by (simp_all add: plug_append before_append)
    then show ?thesis unfolding addr.simps min using p(1) by blast
  qed
qed simp

lemma in_mem_clear:
  "x \<notin> set (nodes t) \<Longrightarrow> in_mem (delete_clear x m) s t = in_mem m s t"
proof -
  assume x: "x \<notin> set (nodes t)"
  have "lies (delete_clear x m) s q t = lies m s q t" for q
    by (rule lies_other) (use x in \<open>auto simp: delete_clear_def set_defs\<close>)
  moreover have "n_red (delete_clear x m) = n_red m" "rb_root (delete_clear x m) = rb_root m"
    by (simp_all add: delete_clear_def set_defs Let_def)
  ultimately show ?thesis by (simp add: in_mem_def)
qed

lemma clear_simps [simp]:
  "same_outside A m (delete_clear x m') = same_outside A m m'" if "x \<in> A"
  using that by (auto simp: same_outside_def delete_clear_def set_defs Let_def)

lemma clear_key [simp]: "n_key (delete_clear x m) = (n_key m)(x := 0)" "n_parent (delete_clear x m) = (n_parent m)(x := NULL)"
  by (simp_all add: delete_clear_def Let_def)

lemma hangs_clear: "hangs m s path t \<Longrightarrow> x \<notin> set (nodes (plug path t)) \<Longrightarrow> x \<noteq> s \<Longrightarrow> hangs (delete_clear x m) s path t"
  using addr_in [of s t] by (auto simp: hangs_def in_mem_clear set_plug)

lemma delete_finish:
  assumes "hangs m s path u" "path \<noteq> []" "balanced (plug path (Node c Leaf y u)) \<or> balanced (plug path (Node c u y Leaf))"
    "colour_ok (plug path (Node c u y Leaf))" "\<not> is_red (plug path Leaf)"
  shows "\<exists>m' t'. (if c then Some m else case delete_loop s (addr s u) m of None \<Rightarrow> None | Some (temp, m) \<Rightarrow> Some (ngx_rbt_black temp m)) = Some m' \<and>
    red_black_in m' s t' \<and> nodes t' = nodes (plug path u) \<and> n_key m' = n_key m \<and>
    same_outside (insert s (set (nodes (plug path u)))) m m'"
proof -
  have b: "balanced u" "bheight u = 0" "balanced_path path (if c then 0 else 1)"
    using assms(3) by (auto simp: balanced_plug split: if_splits)
  have col: "colour_ok u" "colour_path path c" "c \<Longrightarrow> \<not> is_red u" using assms(4) by (auto simp: colour_plug)
  show ?thesis
  proof (cases c)
    case True
    have "red_black (plug path u)"
      using b col True assms(2,5) is_red_plug [of path u Leaf] colour_path_black by (auto simp: red_black_def balanced_plug colour_plug)
    with assms(1) have "red_black_in m s (plug path u)" by (simp add: red_black_in_def hangs_def)
    with True show ?thesis by (intro exI [of _ m] exI [of _ "plug path u"]) simp
  next
    case False
    then have "short_of path u" using b col assms(5) by (simp add: short_of_def colour_blacken)
    from delete_loop_ok [OF assms(1) this] obtain temp m' v where
      "delete_loop s (addr s u) m = Some (temp, m')" "red_black_in (ngx_rbt_black temp m') s v" "nodes v = nodes (plug path u)"
      "n_key m' = n_key m" "same_outside (insert s (set (nodes (plug path u)))) m (ngx_rbt_black temp m')" by blast
    then show ?thesis using False by (intro exI [of _ "ngx_rbt_black temp m'"] exI [of _ v]) simp
  qed
qed

text \<open>A node with at most one child.\<close>

lemma delete_one_child:
  assumes "red_black_in m s (plug path (Node c l x r))" "l = Leaf \<and> u = r \<or> r = Leaf \<and> u = l"
    "delete_subst s x m = Some (x, addr s u)"
  shows "\<exists>m' t'. ngx_rbtree_delete s x m = Some m' \<and> red_black_in m' s t' \<and> nodes t' = nodes (plug path u) \<and>
    n_key m' = (n_key m)(x := 0) \<and> same_outside (insert x (insert s (set (nodes (plug path u))))) m m'"
proof -
  have m: "in_mem m s (plug path (Node c l x r))" and rb: "red_black (plug path (Node c l x r))"
    using assms(1) by (simp_all add: red_black_in_def)
  note node = in_mem_node [OF m]
  have x: "x \<notin> set (nodes (plug path u))"
    using m assms(2) unfolding in_mem_plug by (auto simp: distinct_path_def set_plug)
  show ?thesis
  proof (cases "path = []")
    case True
    have inv: "rb_root m = x" "\<exists>q. lies m s q u" "distinct (nodes u)" "s \<notin> set (nodes u)" "\<not> n_red m s" "balanced u" "colour_ok u"
      using m rb assms(2) True by (auto simp: in_mem_def red_black_def)
    let ?m = "ngx_rbt_black (addr s u) (m\<lparr>rb_root := addr s u\<rparr>)"
    have "in_mem (m\<lparr>rb_root := addr s u\<rparr>) s u" using inv by (simp add: in_mem_def)
    then have "in_mem ?m s (blacken u)" using in_mem_blacken_root [of "m\<lparr>rb_root := addr s u\<rparr>" s u] by simp
    then have "red_black_in (delete_clear x ?m) s (blacken u)"
      using inv x True by (simp add: red_black_in_def red_black_def in_mem_clear colour_blacken)
    moreover have "ngx_rbtree_delete s x m = Some (delete_clear x ?m)"
      using inv(1) assms(3) by (simp add: ngx_rbtree_delete_def Let_def)
    moreover have "same_outside (insert x (insert s (set (nodes u)))) m (delete_clear x ?m)"
      using addr_in [of s u] by auto
    ultimately show ?thesis using True by (intro exI [of _ "delete_clear x ?m"] exI [of _ "blacken u"]) simp
  next
    case False
    let ?m1 = "set_parent (addr s u) (above 0 path) (link path (addr s u) m)"
    have "hangs ?m1 s path u" by (rule unlink_hangs [OF m False assms(2)])
    then have hang: "hangs (delete_clear x ?m1) s path u" using x node(4) by (rule hangs_clear)
    have bal: "balanced (plug path (Node c Leaf y u)) \<or> balanced (plug path (Node c u y Leaf))" for y
      using rb assms(2) by (auto simp: red_black_def balanced_plug)
    have col: "colour_ok (plug path (Node c u y Leaf))" for y
      using rb assms(2) by (auto simp: red_black_def colour_plug)
    have root: "\<not> is_red (plug path Leaf)"
      using rb is_red_plug [OF False, of Leaf "Node c l x r"] by (simp add: red_black_def)
    from delete_finish [OF hang False bal col root] obtain m' t' where
      fin: "(if c then Some (delete_clear x ?m1) else case delete_loop s (addr s u) (delete_clear x ?m1) of
          None \<Rightarrow> None | Some (temp, m) \<Rightarrow> Some (ngx_rbt_black temp m)) = Some m'"
        "red_black_in m' s t'" "nodes t' = nodes (plug path u)" "n_key m' = n_key (delete_clear x ?m1)"
        "same_outside (insert s (set (nodes (plug path u)))) (delete_clear x ?m1) m'" by metis
    have "n_parent m x = above 0 path" using node(5) False by simp
    then have "ngx_rbtree_delete s x m = Some m'"
      using node(3,6) False assms(3) fin(1) unlink_code [OF m False, of "addr s u"]
      by (cases c) (simp_all add: ngx_rbtree_delete_def Let_def)
    moreover have "same_outside (insert x (insert s (set (nodes (plug path u))))) m m'"
    proof (rule same_outside_trans)
      have "on_path path \<subseteq> insert x (insert s (set (nodes (plug path u))))"
        "addr s u \<in> insert x (insert s (set (nodes (plug path u))))"
        using addr_in [of s u] by (auto simp: set_plug)
      then show "same_outside (insert x (insert s (set (nodes (plug path u))))) m (delete_clear x ?m1)"
        by (simp add: same_outside_link)
      show "same_outside (insert x (insert s (set (nodes (plug path u))))) (delete_clear x ?m1) m'"
        using fin(5) by (rule same_outside_mono) auto
    qed
    ultimately show ?thesis using fin(2-4) by (intro exI [of _ m'] exI [of _ t']) simp
  qed
qed

text \<open>Two nodes are exchanged on a path.\<close>

lemma rename_path:
  "balanced_path (path @ GoR c l y # path') n = balanced_path (path @ GoR c l x # path') n"
  "colour_path (path @ GoR c l y # path') b = colour_path (path @ GoR c l x # path') b"
proof -
  show "balanced_path (path @ GoR c l y # path') n = balanced_path (path @ GoR c l x # path') n"
  proof (induction path arbitrary: n)
    case (Cons f path)
    then show ?case by (cases f) simp_all
  qed simp
  show "colour_path (path @ GoR c l y # path') b = colour_path (path @ GoR c l x # path') b"
  proof (induction path arbitrary: b)
    case (Cons f path)
    then show ?case by (cases f) simp_all
  qed simp
qed

lemma is_red_rename: "is_red (plug (path @ GoR c l y # path') Leaf) = is_red (plug (path @ GoR c l x # path') Leaf)"
proof -
  have "is_red (plug path' (Node c l y a)) = is_red (plug path' (Node c l x b))" for a b
    using is_red_plug [of path' "Node c l y a" "Node c l x b"] by (cases "path' = []") auto
  then show ?thesis by (simp add: plug_append)
qed

lemma on_path_append [simp]: "on_path (path @ path') = on_path path \<union> on_path path'"
  by (auto simp: on_path_def before_append)

lemma root_at_append: "root_at (path @ path') p = root_at path' (root_at path p)"
  by (induction path p rule: root_at.induct) simp_all

text \<open>A node with two children: the next node takes its place.\<close>

lemma delete_two_children:
  fixes v :: ptr
  assumes "in_mem m s (plug (path2 @ GoR c l x # path) (Node d Leaf y u))"
    and v: "v = (if n_parent m y = x then y else n_parent m y)"
  shows "let m1 = set_parent (addr s u) v (delete_unlink y (addr s u) m);
             m2 = delete_clear x (delete_replace s x y m1)
         in hangs m2 s (path2 @ GoR c l y # path) u \<and> n_parent (delete_unlink y (addr s u) m) = n_parent m \<and>
            n_key m2 = (n_key m)(x := 0) \<and>
            same_outside (insert s (set (nodes (plug (path2 @ GoR c l x # path) (Node d Leaf y u))))) m m2"
proof -
  let ?R = "path2 @ GoR c l x # path"
  let ?r = "plug path2 u"
  let ?A = "insert s (set (nodes (plug ?R (Node d Leaf y u))))"
  have un: "delete_unlink y (addr s u) m = link ?R (addr s u) m" by (rule unlink_code [OF assms(1)]) simp
  let ?m1 = "set_parent (addr s u) v (link ?R (addr s u) m)"
  from unlink_ok [OF assms(1), of u v] obtain q where
    m1: "rb_root ?m1 = root_at ?R (addr s u)" "lies_path ?m1 s q ?R (addr s u)" "lies ?m1 s v u" "distinct_path ?R u"
      "s \<notin> on_path ?R" "s \<notin> set (nodes u)" "\<not> n_red m s" by auto
  have d: "distinct_path path (Node c l x ?r)"
    using m1(4) distinct_plug [of ?R u] distinct_plug [of path "Node c l x ?r"] by (simp add: plug_append)
  have on: "on_path ?R \<union> set (nodes u) = on_path path \<union> set (nodes (Node c l x ?r))"
    using set_plug [of ?R u] set_plug [of path "Node c l x ?r"] by (simp add: plug_append)
  from assms(1) have "distinct_path ?R (Node d Leaf y u)" "s \<notin> set (nodes (Node d Leaf y u))" unfolding in_mem_plug by blast+
  then have y: "y \<notin> on_path ?R \<union> set (nodes u)" "y \<noteq> s" by (auto simp: distinct_path_def)
  from m1(2) have pa: "lies_path ?m1 s x path2 (addr s u)" "n_red ?m1 x = c" "n_parent ?m1 x = above q path"
    "n_left ?m1 x = addr s l" "n_right ?m1 x = addr s ?r" "lies ?m1 s x l" "lies_path ?m1 s q path x"
    unfolding lies_path_append addr_plug by simp_all
  have par: "n_parent m y = above x path2"
    using in_mem_node(5) [OF assms(1), of 0] by (cases "(0 :: ptr, path2)" rule: above.cases) auto
  have "above x path2 \<noteq> x" if "path2 \<noteq> []"
  proof -
    have "above x path2 \<in> on_path path2" using that by (cases "(x, path2)" rule: above.cases) auto
    then show ?thesis using d set_plug [of path2 u] by (auto simp: distinct_path_def)
  qed
  then have v': "path2 = [] \<Longrightarrow> v = y" "path2 \<noteq> [] \<Longrightarrow> v = above x path2" using v par by auto
  have r: "lies ?m1 s (if path2 = [] then v else x) ?r"
  proof (cases "path2 = []")
    case False
    then show ?thesis using m1(3) pa(1) v'(2) by (simp add: lies_plug)
  qed (use m1(3) in simp)
  have root: "rb_root ?m1 = root_at path x" unfolding m1(1) root_at_append by simp
  have sy: "s \<notin> on_path path" "s \<notin> set (nodes (Node c l x ?r))" "y \<notin> on_path path" "y \<notin> set (nodes (Node c l x ?r))"
    using on m1(5,6) y(1) by auto
  have red: "\<not> n_red ?m1 s" using m1(7) by simp
  note rep = replace_ok [OF root pa(7,3,2,6) r pa(4,5) d sy(1,2) red y(2) sy(3,4)]
  let ?m2 = "delete_replace s x y ?m1"
  have T: "plug (path2 @ GoR c l y # path) u = plug path (Node c l y ?r)" by (simp add: plug_append)
  have mem: "in_mem ?m2 s (plug (path2 @ GoR c l y # path) u)" using rep(1) T by simp
  have x: "x \<notin> set (nodes (plug (path2 @ GoR c l y # path) u))" "x \<noteq> s"
    using d sy(2,4) by (auto simp: T set_plug distinct_path_def)
  have above: "above 0 (path2 @ GoR c l y # path) = v"
    using v' by (cases "(x, path2)" rule: above.cases) auto
  have "hangs ?m2 s (path2 @ GoR c l y # path) u"
  proof (cases "u = Leaf")
    case True
    then have "n_parent ?m2 s = v" using rep(3) by simp
    then show ?thesis using mem above True by (simp add: hangs_def)
  next
    case False
    from in_mem_parent [OF mem _ False, of 0] show ?thesis using mem by (simp add: hangs_def)
  qed
  then have "hangs (delete_clear x ?m2) s (path2 @ GoR c l y # path) u" using x by (rule hangs_clear)
  moreover have "same_outside ?A m (delete_clear x ?m2)"
  proof -
    have A: "on_path ?R \<subseteq> ?A" "addr s u \<in> ?A" "x \<in> ?A" using addr_in [of s u] by (auto simp: set_plug)
    then have "same_outside ?A m ?m1" by (simp add: same_outside_link)
    moreover have "insert y (set (nodes (plug path (Node c l x ?r)))) \<subseteq> ?A" by (auto simp: set_plug plug_append)
    then have "same_outside ?A ?m1 ?m2" using rep(2) same_outside_mono by blast
    ultimately show ?thesis using A(3) same_outside_trans by simp
  qed
  moreover have "n_key ?m2 = n_key m"
    by (simp add: delete_replace_def delete_take_over_def Let_def)
  ultimately show ?thesis by (simp add: un Let_def)
qed

lemma rbtree_delete_ok:
  assumes "red_black_in m s t" "x \<in> set (nodes t)"
  shows "\<exists>m' t'. ngx_rbtree_delete s x m = Some m' \<and> red_black_in m' s t' \<and> nodes t' = remove1 x (nodes t) \<and>
    n_key m' = (n_key m)(x := 0) \<and> same_outside (insert s (set (nodes t))) m m'"
proof -
  from find_node [OF assms(2)] obtain path c l r where t: "t = plug path (Node c l x r)" by blast
  have m: "in_mem m s (plug path (Node c l x r))" and rb: "red_black t"
    using assms(1) by (simp_all add: red_black_in_def t)
  from m have d: "distinct_path path (Node c l x r)" and s: "s \<notin> set (nodes (Node c l x r))" unfolding in_mem_plug by blast+
  have remove: "remove1 x (nodes t) = before path @ nodes l @ nodes r @ behind path"
    using d by (auto simp: t nodes_plug distinct_path_def remove1_append on_path_def)
  note node = in_mem_node [OF m]
  show ?thesis
  proof (cases "l = Leaf \<or> r = Leaf")
    case True
    define u where "u = (if l = Leaf then r else l)"
    have u: "l = Leaf \<and> u = r \<or> r = Leaf \<and> u = l" using True by (auto simp: u_def)
    have "addr s l = s \<longleftrightarrow> l = Leaf" using s by (cases l) auto
    then have "delete_subst s x m = Some (x, addr s u)" using node(1,2) True by (auto simp: delete_subst_def u_def)
    from delete_one_child [OF assms(1) [unfolded t] u this] obtain m' t' where
      r: "ngx_rbtree_delete s x m = Some m'" "red_black_in m' s t'" "nodes t' = nodes (plug path u)"
        "n_key m' = (n_key m)(x := 0)" "same_outside (insert x (insert s (set (nodes (plug path u))))) m m'" by blast
    have "nodes (plug path u) = remove1 x (nodes t)" using u unfolding remove by (auto simp: nodes_plug)
    moreover have "insert x (insert s (set (nodes (plug path u)))) \<subseteq> insert s (set (nodes t))"
      using u by (auto simp: t set_plug)
    ultimately show ?thesis using r same_outside_mono by metis
  next
    case False
    from m obtain q where "lies m s x r" "s \<notin> set (nodes r)" unfolding in_mem_plug by auto
    from rbtree_min_ok [OF this(1) _ this(2)] False obtain path2 d y u where
      min: "ngx_rbtree_min s m (addr s r) = Some y" and r: "r = plug path2 (Node d Leaf y u)" and bef: "before path2 = []" by blast
    let ?R = "path2 @ GoR c l x # path"
    let ?P = "path2 @ GoR c l y # path"
    have tR: "t = plug ?R (Node d Leaf y u)" by (simp add: t r plug_append)
    have mR: "in_mem m s (plug ?R (Node d Leaf y u))" using m by (simp add: r plug_append)
    note ny = in_mem_node [OF mR]
    define v where "v = (if n_parent m y = x then y else n_parent m y)"
    define m1 where "m1 = set_parent (addr s u) v (delete_unlink y (addr s u) m)"
    define m2 where "m2 = delete_clear x (delete_replace s x y m1)"
    from delete_two_children [OF mR v_def] have m2: "hangs m2 s ?P u" "n_key m2 = (n_key m)(x := 0)"
      "same_outside (insert s (set (nodes t))) m m2" "n_parent (delete_unlink y (addr s u) m) = n_parent m"
      by (simp_all add: Let_def m1_def m2_def tR)
    have rbR: "balanced (plug ?R (Node d Leaf y u))" "colour_ok (plug ?R (Node d Leaf y u))" "\<not> is_red (plug ?R (Node d Leaf y u))"
      using rb by (simp_all add: red_black_def tR)
    have fin: "balanced (plug ?P (Node d Leaf y u)) \<or> balanced (plug ?P (Node d u y Leaf))" "colour_ok (plug ?P (Node d u y Leaf))"
      "\<not> is_red (plug ?P Leaf)"
      using rbR is_red_plug [of ?R Leaf "Node d Leaf y u"]
      unfolding balanced_plug colour_plug rename_path [where y = y and x = x] is_red_rename [where y = y and x = x] by auto
    from delete_finish [OF m2(1) _ fin] obtain m' t' where
      res: "(if d then Some m2 else case delete_loop s (addr s u) m2 of None \<Rightarrow> None | Some (temp, m) \<Rightarrow> Some (ngx_rbt_black temp m)) = Some m'"
        "red_black_in m' s t'" "nodes t' = nodes (plug ?P u)" "n_key m' = n_key m2" "same_outside (insert s (set (nodes (plug ?P u)))) m2 m'"
      by auto
    have "addr s l \<noteq> s" "addr s r \<noteq> s" using False s by (cases l; cases r; auto)+
    then have subst: "delete_subst s x m = Some (y, addr s u)"
      using node(1,2) min ny(1,2) by (simp add: delete_subst_def)
    have "y \<in> set (nodes r)" by (simp add: r set_plug)
    moreover have "x \<notin> set (nodes r)" using d by (simp add: distinct_path_def)
    ultimately have "y \<noteq> x" by metis
    then have ne: "(y = rb_root m) = False" "(y = x) = False" using ny(6) by simp_all
    let ?m = "delete_unlink y (addr s u) m"
    have m1: "(if n_parent ?m y = x then set_parent (addr s u) y ?m else set_parent (addr s u) (n_parent ?m y) ?m) = m1"
      unfolding m1_def v_def m2(4) by simp
    have "ngx_rbtree_delete s x m =
      (if d then Some m2 else case delete_loop s (addr s u) m2 of None \<Rightarrow> None | Some (temp, m) \<Rightarrow> Some (ngx_rbt_black temp m))"
      unfolding ngx_rbtree_delete_def subst option.case prod.case Let_def ne if_False m1 m2_def ny(3) ..
    then have "ngx_rbtree_delete s x m = Some m'" using res(1) by (rule trans)
    moreover have "nodes t' = remove1 x (nodes t)"
      unfolding remove res(3) r using bef by (simp add: nodes_plug before_append)
    moreover have sub: "insert s (set (nodes (plug ?P u))) \<subseteq> insert s (set (nodes t))"
      by (auto simp: tR set_plug plug_append)
    have "same_outside (insert s (set (nodes t))) m m'"
      by (rule same_outside_trans [OF m2(3) same_outside_mono [OF res(5) sub]])
    moreover have "n_key m' = (n_key m)(x := 0)" using res(4) m2(2) by simp
    ultimately show ?thesis using res(2) by blast
  qed
qed

text \<open>
  Claim C13. \<open>ngx_rbtree_delete\<close> takes a node out of a tree and leaves all others in their order, whatever
  the place of the node is. The result is again a red-black tree in memory. Nothing outside the tree is
  changed but the sentinel, and no key but the one of the node.
\<close>
theorem rbtree_delete:
  assumes "red_black_in m s t" "x \<in> set (nodes t)"
  shows "\<exists>m' t'. ngx_rbtree_delete s x m = Some m' \<and> red_black_in m' s t' \<and> nodes t' = remove1 x (nodes t) \<and>
    n_key m' = (n_key m)(x := 0) \<and> same_outside (insert s (set (nodes t))) m m'"
  by (rule rbtree_delete_ok [OF assms])

theorem rbtree_delete_witness:
  "\<exists>m' t'. ngx_rbtree_delete 1 2 one_node = Some m' \<and> red_black_in m' 1 t' \<and> nodes t' = []"
  using rbtree_delete [OF one_node_in, of 2] by auto

section \<open>The interface\<close>

text \<open>The first element with a rank above another one's: where a list sorted by rank is extended.\<close>

definition insert_behind :: "('k \<Rightarrow> 'r :: linorder) \<Rightarrow> 'x \<times> 'k \<Rightarrow> ('x \<times> 'k) list \<Rightarrow> ('x \<times> 'k) list" where
  "insert_behind rank e xs =
     takeWhile (\<lambda>f. rank (snd f) \<le> rank (snd e)) xs @ e # dropWhile (\<lambda>f. rank (snd f) \<le> rank (snd e)) xs"

definition without :: "'x \<Rightarrow> ('x \<times> 'k) list \<Rightarrow> ('x \<times> 'k) list" where
  "without x xs = filter (\<lambda>e. fst e \<noteq> x) xs"

datatype ('x, 'k) store_op = Put 'x 'k | Take 'x

fun run_list :: "('k \<Rightarrow> 'r :: linorder) \<Rightarrow> ('x, 'k) store_op list \<Rightarrow> ('x \<times> 'k) list \<Rightarrow> ('x \<times> 'k) list" where
  "run_list rank [] xs = xs"
| "run_list rank (Put x k # ops) xs = run_list rank ops (insert_behind rank (x, k) xs)"
| "run_list rank (Take x # ops) xs = run_list rank ops (without x xs)"

fun run_ops :: "('x \<Rightarrow> 'k \<Rightarrow> 'm \<Rightarrow> 'm option) \<Rightarrow> ('x \<Rightarrow> 'm \<Rightarrow> 'm option) \<Rightarrow> ('x, 'k) store_op list \<Rightarrow> 'm \<Rightarrow> 'm option" where
  "run_ops put take_out [] m = Some m"
| "run_ops put take_out (Put x k # ops) m = (case put x k m of None \<Rightarrow> None | Some m \<Rightarrow> run_ops put take_out ops m)"
| "run_ops put take_out (Take x # ops) m = (case take_out x m of None \<Rightarrow> None | Some m \<Rightarrow> run_ops put take_out ops m)"

text \<open>The client's side: a node is put in only if it is not in, and taken out only if it is.\<close>

fun ops_ok :: "('x \<Rightarrow> 'k \<Rightarrow> bool) \<Rightarrow> ('x, 'k) store_op list \<Rightarrow> 'x set \<Rightarrow> bool" where
  "ops_ok valid [] A = True"
| "ops_ok valid (Put x k # ops) A = (valid x k \<and> x \<notin> A \<and> ops_ok valid ops (insert x A))"
| "ops_ok valid (Take x # ops) A = (x \<in> A \<and> ops_ok valid ops (A - {x}))"

lemma set_insert_behind: "set (insert_behind rank e xs) = insert e (set xs)"
  using set_append [of "takeWhile P xs" "dropWhile P xs" for P] by (simp add: insert_behind_def)

locale ordered_store =
  fixes holds :: "'m \<Rightarrow> ('x \<times> 'k) list \<Rightarrow> bool"
    and put :: "'x \<Rightarrow> 'k \<Rightarrow> 'm \<Rightarrow> 'm option"
    and take_out :: "'x \<Rightarrow> 'm \<Rightarrow> 'm option"
    and first :: "'m \<Rightarrow> 'x option option"
    and valid :: "'x \<Rightarrow> 'k \<Rightarrow> bool"
    and rank :: "'k \<Rightarrow> 'r :: linorder"
  assumes put_ok: "holds m xs \<Longrightarrow> valid x k \<Longrightarrow> x \<notin> fst ` set xs \<Longrightarrow>
      \<exists>m'. put x k m = Some m' \<and> holds m' (insert_behind rank (x, k) xs)"
    and take_ok: "holds m xs \<Longrightarrow> x \<in> fst ` set xs \<Longrightarrow> \<exists>m'. take_out x m = Some m' \<and> holds m' (without x xs)"
    and first_ok: "holds m xs \<Longrightarrow> first m = Some (case xs of [] \<Rightarrow> None | e # _ \<Rightarrow> Some (fst e))"
    and sorted_ok: "holds m xs \<Longrightarrow> sorted (map (rank \<circ> snd) xs) \<and> distinct (map fst xs)"
begin

lemma run_ok:
  "holds m xs \<Longrightarrow> ops_ok valid ops (fst ` set xs) \<Longrightarrow>
   \<exists>m'. run_ops put take_out ops m = Some m' \<and> holds m' (run_list rank ops xs)"
proof (induction ops arbitrary: m xs)
  case (Cons op ops)
  show ?case
  proof (cases op)
    case (Put x k)
    with Cons.prems put_ok [of m xs x k] obtain m' where m': "put x k m = Some m'" "holds m' (insert_behind rank (x, k) xs)" by auto
    with Cons.IH [OF m'(2)] Cons.prems(2) show ?thesis by (simp add: Put set_insert_behind)
  next
    case (Take x)
    with Cons.prems take_ok [of m xs x] obtain m' where m': "take_out x m = Some m'" "holds m' (without x xs)" by auto
    have "fst ` set (without x xs) = fst ` set xs - {x}" by (auto simp: without_def)
    with Cons.IH [OF m'(2)] Cons.prems(2) m'(1) show ?thesis by (simp add: Take)
  qed
qed simp

lemma first_least:
  assumes "holds m xs" "first m = Some (Some x)"
  shows "\<exists>k. (x, k) \<in> set xs \<and> (\<forall>e \<in> set xs. rank k \<le> rank (snd e))"
proof -
  obtain k ys where "xs = (x, k) # ys" using assms(2) first_ok [OF assms(1)] by (cases xs) auto
  with sorted_ok [OF assms(1)] show ?thesis by (intro exI [of _ k]) auto
qed

end

definition entries :: "rbs \<Rightarrow> rbt \<Rightarrow> (ptr \<times> u64) list" where
  "entries m t = map (\<lambda>x. (x, n_key m x)) (nodes t)"

definition holds_by :: "(u64 \<Rightarrow> u64) \<Rightarrow> (u64 \<Rightarrow> bool) \<Rightarrow> ptr \<Rightarrow> rbs \<Rightarrow> (ptr \<times> u64) list \<Rightarrow> bool" where
  "holds_by rank valid s m xs \<longleftrightarrow>
     (\<exists>t. red_black_in m s t \<and> xs = entries m t \<and> sorted (map (rank \<circ> snd) xs) \<and> (\<forall>e \<in> set xs. valid (snd e)))"

text \<open>The caller sets the key of a node and inserts it; the first node is found from the root.\<close>

definition put_node ::
  "(ptr \<Rightarrow> ptr \<Rightarrow> ptr \<Rightarrow> rbs \<Rightarrow> rbs option) \<Rightarrow> ptr \<Rightarrow> ptr \<Rightarrow> u64 \<Rightarrow> rbs \<Rightarrow> rbs option" where
  "put_node ins s x k m = ngx_rbtree_insert ins s x (m\<lparr>n_key := (n_key m)(x := k)\<rparr>)"

definition first_node :: "ptr \<Rightarrow> rbs \<Rightarrow> ptr option option" where
  "first_node s m = (if rb_root m = s then Some None else map_option Some (ngx_rbtree_min s m (rb_root m)))"

lemma red_black_in_key [simp]: "red_black_in (m\<lparr>n_key := f\<rparr>) s t = red_black_in m s t"
proof -
  have "lies (m\<lparr>n_key := f\<rparr>) s q t = lies m s q t" for q by (rule lies_other) simp
  then show ?thesis by (simp add: red_black_in_def in_mem_def)
qed

lemma fst_entries: "fst ` set (entries m t) = set (nodes t)" "map fst (entries m t) = nodes t"
  by (force simp: entries_def, simp add: entries_def comp_def)

lemma distinct_nodes: "red_black_in m s t \<Longrightarrow> distinct (nodes t) \<and> s \<notin> set (nodes t)"
  by (simp add: red_black_in_def in_mem_def)

lemma holds_put:
  assumes ins: "\<And>m t x. red_black_in m s t \<Longrightarrow> sorted (map (\<lambda>y. rank (n_key m y)) (nodes t)) \<Longrightarrow> x \<noteq> s \<Longrightarrow> x \<notin> set (nodes t) \<Longrightarrow>
      \<forall>y \<in> insert x (set (nodes t)). valid (n_key m y) \<Longrightarrow>
      \<exists>m' t'. ngx_rbtree_insert ins s x m = Some m' \<and> red_black_in m' s t' \<and>
        nodes t' = takeWhile (\<lambda>y. rank (n_key m y) \<le> rank (n_key m x)) (nodes t) @ x #
          dropWhile (\<lambda>y. rank (n_key m y) \<le> rank (n_key m x)) (nodes t) \<and> n_key m' = n_key m"
    and holds: "holds_by rank valid s m xs" and x: "x \<noteq> s" "valid k" "x \<notin> fst ` set xs"
  shows "\<exists>m'. put_node ins s x k m = Some m' \<and> holds_by rank valid s m' (insert_behind rank (x, k) xs)"
proof -
  from holds obtain t where t: "red_black_in m s t" "xs = entries m t" "sorted (map (rank \<circ> snd) xs)" "\<forall>e \<in> set xs. valid (snd e)"
    unfolding holds_by_def by blast
  let ?m = "m\<lparr>n_key := (n_key m)(x := k)\<rparr>"
  have new: "x \<notin> set (nodes t)" using x(3) unfolding t(2) fst_entries .
  have keys: "map (\<lambda>y. rank (n_key ?m y)) (nodes t) = map (rank \<circ> snd) xs"
    using new unfolding t(2) entries_def by (auto simp: comp_def)
  have "\<forall>y \<in> insert x (set (nodes t)). valid (n_key ?m y)" using t(4) x(2) new by (auto simp: t(2) entries_def)
  with ins [of ?m t x] t(1,3) x(1) new keys obtain m' t' where
    m': "ngx_rbtree_insert ins s x ?m = Some m'" "red_black_in m' s t'"
      "nodes t' = takeWhile (\<lambda>y. rank (n_key ?m y) \<le> rank (n_key ?m x)) (nodes t) @ x #
          dropWhile (\<lambda>y. rank (n_key ?m y) \<le> rank (n_key ?m x)) (nodes t)" "n_key m' = n_key ?m" by auto
  have same: "takeWhile (\<lambda>y. rank (n_key ?m y) \<le> rank (n_key ?m x)) (nodes t) = takeWhile (\<lambda>y. rank (n_key m y) \<le> rank k) (nodes t)"
    "dropWhile (\<lambda>y. rank (n_key ?m y) \<le> rank (n_key ?m x)) (nodes t) = dropWhile (\<lambda>y. rank (n_key m y) \<le> rank k) (nodes t)"
    using new by (auto intro!: takeWhile_cong dropWhile_cong)
  let ?P = "\<lambda>y. rank (n_key m y) \<le> rank k"
  have e: "map (\<lambda>y. (y, n_key m' y)) ys = map (\<lambda>y. (y, n_key m y)) ys" if "set ys \<subseteq> set (nodes t)" for ys
    using that new by (auto simp: m'(4))
  have sub: "set (takeWhile ?P (nodes t)) \<subseteq> set (nodes t)" "set (dropWhile ?P (nodes t)) \<subseteq> set (nodes t)"
    by (auto dest: set_takeWhileD set_dropWhileD)
  have "entries m' t' = map (\<lambda>y. (y, n_key m y)) (takeWhile ?P (nodes t)) @ (x, k) # map (\<lambda>y. (y, n_key m y)) (dropWhile ?P (nodes t))"
    unfolding entries_def m'(3) same map_append list.map e [OF sub(1)] e [OF sub(2)] by (simp add: m'(4))
  also have "\<dots> = insert_behind rank (x, k) xs"
    unfolding insert_behind_def t(2) entries_def takeWhile_map dropWhile_map by (simp add: comp_def)
  finally have "entries m' t' = insert_behind rank (x, k) xs" .
  moreover have "sorted (map (rank \<circ> snd) (insert_behind rank (x, k) xs))"
    using sorted_insert_behind [of "rank \<circ> snd" xs "(x, k)"] t(3) by (simp add: insert_behind_def comp_def)
  moreover have "\<forall>e \<in> set (insert_behind rank (x, k) xs). valid (snd e)"
    using t(4) x(2) by (auto simp: set_insert_behind)
  ultimately show ?thesis using m'(1,2) unfolding put_node_def holds_by_def by metis
qed

lemma holds_take:
  assumes "holds_by rank valid s m xs" "x \<in> fst ` set xs"
  shows "\<exists>m'. ngx_rbtree_delete s x m = Some m' \<and> holds_by rank valid s m' (without x xs)"
proof -
  from assms(1) obtain t where t: "red_black_in m s t" "xs = entries m t" "sorted (map (rank \<circ> snd) xs)" "\<forall>e \<in> set xs. valid (snd e)"
    unfolding holds_by_def by blast
  have "x \<in> set (nodes t)" using assms(2) unfolding t(2) fst_entries .
  from rbtree_delete_ok [OF t(1) this] obtain m' t' where
    m': "ngx_rbtree_delete s x m = Some m'" "red_black_in m' s t'" "nodes t' = remove1 x (nodes t)" "n_key m' = (n_key m)(x := 0)"
    by blast
  have "nodes t' = filter (\<lambda>y. y \<noteq> x) (nodes t)"
    using distinct_nodes [OF t(1)] m'(3) by (simp add: distinct_remove1_removeAll removeAll_filter_not_eq) metis
  then have "entries m' t' = without x xs"
    by (simp add: entries_def without_def t(2) m'(4) filter_map comp_def)
  moreover have "sorted (map (rank \<circ> snd) (without x xs))"
    using t(3) unfolding without_def by (rule sorted_filter)
  ultimately show ?thesis using m'(1,2) t(4) unfolding holds_by_def by (auto simp: without_def)
qed

lemma holds_first:
  assumes "holds_by rank valid s m xs"
  shows "first_node s m = Some (case xs of [] \<Rightarrow> None | e # _ \<Rightarrow> Some (fst e))"
proof -
  from assms obtain t where t: "red_black_in m s t" "xs = entries m t" unfolding holds_by_def by blast
  then have m: "in_mem m s t" by (simp add: red_black_in_def)
  then obtain q where q: "rb_root m = addr s t" "lies m s q t" "s \<notin> set (nodes t)" by (auto simp: in_mem_def)
  show ?thesis
  proof (cases "t = Leaf")
    case True
    then show ?thesis using q(1) by (simp add: first_node_def t(2) entries_def)
  next
    case False
    from rbtree_min_ok [OF q(2) False q(3)] obtain path c y r where
      min: "ngx_rbtree_min s m (addr s t) = Some y" and p: "t = plug path (Node c Leaf y r)" "before path = []" by blast
    have "nodes t = y # nodes r @ behind path" by (simp add: p nodes_plug)
    then show ?thesis using min q(1) in_mem_root [OF m] False by (simp add: first_node_def t(2) entries_def)
  qed
qed

lemma holds_sorted: "holds_by rank valid s m xs \<Longrightarrow> sorted (map (rank \<circ> snd) xs) \<and> distinct (map fst xs)"
  using distinct_nodes by (auto simp: holds_by_def fst_entries)

text \<open>The order of the keys.\<close>

interpretation by_key: ordered_store "holds_by (\<lambda>k. k) (\<lambda>k. True) s" "put_node ngx_rbtree_insert_value s" "ngx_rbtree_delete s"
    "first_node s" "\<lambda>x k. x \<noteq> s" "\<lambda>k. k"
proof
  fix m xs x k assume h: "holds_by (\<lambda>k. k) (\<lambda>k. True) s m xs" "x \<noteq> s" "x \<notin> fst ` set xs"
  show "\<exists>m'. put_node ngx_rbtree_insert_value s x k m = Some m' \<and> holds_by (\<lambda>k. k) (\<lambda>k. True) s m' (insert_behind (\<lambda>k. k) (x, k) xs)"
    by (rule holds_put [OF _ h(1,2) TrueI h(3)]) (use rbtree_insert_value_ok in blast)
qed (auto simp: holds_take holds_first dest: holds_sorted)

text \<open>The order of the timers, from some time on.\<close>

definition in_window :: "u64 \<Rightarrow> u64 \<Rightarrow> bool" where
  "in_window base k \<longleftrightarrow> unat (k - base) < 2 ^ 63"

interpretation by_time: ordered_store "holds_by (\<lambda>k. k - base) (in_window base) s" "put_node ngx_rbtree_insert_timer_value s"
    "ngx_rbtree_delete s" "first_node s" "\<lambda>x k. x \<noteq> s \<and> in_window base k" "\<lambda>k. k - base"
proof
  fix m xs x k assume h: "holds_by (\<lambda>k. k - base) (in_window base) s m xs" "x \<noteq> s \<and> in_window base k" "x \<notin> fst ` set xs"
  show "\<exists>m'. put_node ngx_rbtree_insert_timer_value s x k m = Some m' \<and>
      holds_by (\<lambda>k. k - base) (in_window base) s m' (insert_behind (\<lambda>k. k - base) (x, k) xs)"
    by (rule holds_put [OF _ h(1) conjunct1 [OF h(2)] conjunct2 [OF h(2)] h(3)])
      (use rbtree_insert_timer_value in_window_def in \<open>metis (no_types, lifting)\<close>)
qed (auto simp: holds_take holds_first dest: holds_sorted)

text \<open>
  Claim C17. Any sequence of insertions and deletions that a client may make on an empty tree succeeds and
  leaves exactly the nodes, with their keys and in the order, that the same sequence leaves on a list kept
  sorted by key.
\<close>
theorem rbtree_run:
  assumes "holds_by (\<lambda>k. k) (\<lambda>k. True) s m []" "ops_ok (\<lambda>x k. x \<noteq> s) ops {}"
  shows "\<exists>m'. run_ops (put_node ngx_rbtree_insert_value s) (ngx_rbtree_delete s) ops m = Some m' \<and>
    holds_by (\<lambda>k. k) (\<lambda>k. True) s m' (run_list (\<lambda>k. k) ops [])"
  by (rule by_key.run_ok) (use assms in simp_all)

theorem rbtree_run_witness:
  "\<exists>m'. run_ops (put_node ngx_rbtree_insert_value 1) (ngx_rbtree_delete 1) [Put 2 20, Put 3 10, Put 4 20, Take 2]
      (one_node\<lparr>rb_root := 1\<rparr>) = Some m' \<and>
    holds_by (\<lambda>k. k) (\<lambda>k. True) 1 m' [(3, 10), (4, 20)]"
proof -
  have "red_black_in (one_node\<lparr>rb_root := 1\<rparr>) 1 Leaf"
    by (simp add: red_black_in_def red_black_def in_mem_def one_node_def)
  then have "holds_by (\<lambda>k. k) (\<lambda>k. True) 1 (one_node\<lparr>rb_root := 1\<rparr>) []"
    unfolding holds_by_def by (intro exI [of _ Leaf]) (simp add: entries_def)
  moreover have "ops_ok (\<lambda>x k. x \<noteq> 1) [Put 2 20, Put 3 10, Put 4 20, Take (2 :: ptr)] {}" by simp
  moreover have "run_list (\<lambda>k. k) [Put 2 20, Put 3 10, Put 4 20, Take 2] [] = [(3, 10), (4 :: ptr, 20 :: u64)]"
    by (simp add: insert_behind_def without_def)
  ultimately show ?thesis using rbtree_run [of 1 "one_node\<lparr>rb_root := 1\<rparr>"] by metis
qed

end
