(* ===== verification/NgxTimer.thy ===== *)
theory NgxTimer
  imports NgxRbtreeDel
begin

text \<open>
  The timers of src/event/ngx_event_timer.c and ngx_event_timer.h: a red-black tree ordered by the
  time in milliseconds at which a timer fires, compared so that the clock may wrap around. An event
  is named by the address of its timer node. The handlers that an expired timer calls are parameters.
\<close>

section \<open>The code\<close>

record timers =
  t_mem :: rbs
  t_set :: "ptr \<Rightarrow> bool"
  t_timedout :: "ptr \<Rightarrow> bool"
  t_now :: u64

definition ngx_event_timer_init :: "ptr \<Rightarrow> timers \<Rightarrow> timers" where
  "ngx_event_timer_init sentinel st = st\<lparr>t_mem := (ngx_rbt_black sentinel (t_mem st))\<lparr>rb_root := sentinel\<rparr>\<rparr>"

definition ngx_event_find_timer :: "ptr \<Rightarrow> timers \<Rightarrow> u64 option" where
  "ngx_event_find_timer sentinel st =
     (if rb_root (t_mem st) = sentinel then Some (- 1)
      else case ngx_rbtree_min sentinel (t_mem st) (rb_root (t_mem st)) of
             None \<Rightarrow> None
           | Some node \<Rightarrow> let timer = n_key (t_mem st) node - t_now st in Some (if 0 <s timer then timer else 0))"

definition ngx_event_del_timer :: "ptr \<Rightarrow> ptr \<Rightarrow> timers \<Rightarrow> timers option" where
  "ngx_event_del_timer sentinel ev st =
     (case ngx_rbtree_delete sentinel ev (t_mem st) of
        None \<Rightarrow> None
      | Some m \<Rightarrow> Some (st\<lparr>t_mem := m, t_set := (t_set st)(ev := False)\<rparr>))"

definition ngx_abs :: "u64 \<Rightarrow> u64" where
  "ngx_abs v = (if 0 \<le>s v then v else - v)"

definition ngx_event_add_timer :: "ptr \<Rightarrow> ptr \<Rightarrow> u64 \<Rightarrow> timers \<Rightarrow> timers option" where
  "ngx_event_add_timer sentinel ev timer st =
     (let key = t_now st + timer in
      if t_set st ev \<and> ngx_abs (key - n_key (t_mem st) ev) <s 300 then Some st
      else case (if t_set st ev then ngx_event_del_timer sentinel ev st else Some st) of
             None \<Rightarrow> None
           | Some st \<Rightarrow>
               (let m = (t_mem st)\<lparr>n_key := (n_key (t_mem st))(ev := key)\<rparr> in
                case ngx_rbtree_insert ngx_rbtree_insert_timer_value sentinel ev m of
                  None \<Rightarrow> None
                | Some m \<Rightarrow> Some (st\<lparr>t_mem := m, t_set := (t_set st)(ev := True)\<rparr>)))"

partial_function (option) ngx_event_expire_timers :: "(ptr \<Rightarrow> timers \<Rightarrow> timers option) \<Rightarrow> ptr \<Rightarrow> timers \<Rightarrow> timers option" where
  "ngx_event_expire_timers handler sentinel st =
     (if rb_root (t_mem st) = sentinel then Some st
      else case ngx_rbtree_min sentinel (t_mem st) (rb_root (t_mem st)) of
             None \<Rightarrow> None
           | Some node \<Rightarrow>
               if n_key (t_mem st) node - t_now st \<le>s 0 then
                 (case ngx_rbtree_delete sentinel node (t_mem st) of
                    None \<Rightarrow> None
                  | Some m \<Rightarrow>
                      (case handler node (st\<lparr>t_mem := m, t_set := (t_set st)(node := False), t_timedout := (t_timedout st)(node := True)\<rparr>) of
                         None \<Rightarrow> None
                       | Some st \<Rightarrow> ngx_event_expire_timers handler sentinel st))
               else Some st)"

section \<open>Times around now\<close>

text \<open>The milliseconds that are left, for a key that is less than 2^62 away.\<close>

definition due :: "u64 \<Rightarrow> u64 \<Rightarrow> int" where
  "due now k = sint (k - now)"

definition origin :: "u64 \<Rightarrow> u64" where
  "origin now = now - 2 ^ 62"

lemma due_window:
  assumes "in_window (origin now) k"
  shows "due now k = uint (k - origin now) - 2 ^ 62"
proof -
  define d where "d = k - origin now"
  have "k - now = d - 2 ^ 62" by (simp add: d_def origin_def)
  moreover have "sint (d - 2 ^ 62) = uint d - uint (2 ^ 62 :: u64)"
    by (rule sint_window) (use assms in \<open>simp_all add: in_window_def d_def\<close>)
  moreover have "uint (2 ^ 62 :: u64) = 2 ^ 62" by simp
  ultimately show ?thesis by (simp only: due_def d_def [symmetric])
qed

lemma due_le:
  assumes "in_window (origin now) k" "in_window (origin now) k'"
  shows "k - origin now \<le> k' - origin now \<longleftrightarrow> due now k \<le> due now k'"
  unfolding due_window [OF assms(1)] due_window [OF assms(2)] word_le_def by linarith

lemma window_after:
  assumes "unat timer < 2 ^ 62"
  shows "in_window (origin now) (now + timer)" "due now (now + timer) = int (unat timer)"
proof -
  have e: "now + timer - origin now = timer + 2 ^ 62" by (simp add: origin_def)
  have u: "unat (timer + 2 ^ 62) = unat timer + 2 ^ 62"
    using assms by (subst unat_add_lem [THEN iffD1]) simp_all
  show w: "in_window (origin now) (now + timer)" unfolding in_window_def e u using assms by simp
  have "uint (timer + 2 ^ 62) = int (unat timer) + 2 ^ 62" unfolding uint_nat u by simp
  then show "due now (now + timer) = int (unat timer)" unfolding due_window [OF w] e by linarith
qed

section \<open>The state\<close>

text \<open>
  The tree holds the timers \<open>xs\<close>, all of them less than 2^62 milliseconds away, and \<open>timer_set\<close> says
  which events these are of.
\<close>

definition timers_hold :: "ptr \<Rightarrow> timers \<Rightarrow> (ptr \<times> u64) list \<Rightarrow> bool" where
  "timers_hold s st xs \<longleftrightarrow>
     holds_by (\<lambda>k. k - origin (t_now st)) (in_window (origin (t_now st))) s (t_mem st) xs \<and>
     (\<forall>x. t_set st x \<longleftrightarrow> x \<in> fst ` set xs)"

lemma timers_window: "timers_hold s st xs \<Longrightarrow> e \<in> set xs \<Longrightarrow> in_window (origin (t_now st)) (snd e)"
  by (auto simp: timers_hold_def holds_by_def)

lemma timers_key: "timers_hold s st xs \<Longrightarrow> (x, k) \<in> set xs \<Longrightarrow> n_key (t_mem st) x = k"
  by (auto simp: timers_hold_def holds_by_def entries_def)

lemma timers_sorted:
  assumes "timers_hold s st xs"
  shows "sorted (map (due (t_now st) \<circ> snd) xs)" "distinct (map fst xs)"
proof -
  have *: "sorted (map ((\<lambda>k. k - origin (t_now st)) \<circ> snd) xs) \<and> distinct (map fst xs)"
    using assms by_time.sorted_ok unfolding timers_hold_def by blast
  then show "distinct (map fst xs)" by blast
  from * have "sorted_wrt (\<lambda>e f. snd e - origin (t_now st) \<le> snd f - origin (t_now st)) xs" by (simp add: sorted_map)
  then have "sorted_wrt (\<lambda>e f. due (t_now st) (snd e) \<le> due (t_now st) (snd f)) xs"
    by (rule sorted_wrt_mono_rel [rotated]) (metis due_le timers_window [OF assms])
  then show "sorted (map (due (t_now st) \<circ> snd) xs)" by (simp add: sorted_map)
qed

lemma timers_sentinel: "timers_hold s st xs \<Longrightarrow> s \<notin> fst ` set xs"
  using distinct_nodes fst_entries(1) unfolding timers_hold_def holds_by_def by metis

lemma timers_first:
  assumes "timers_hold s st xs"
  shows "xs = [] \<Longrightarrow> rb_root (t_mem st) = s"
    and "xs = (x, k) # ys \<Longrightarrow> rb_root (t_mem st) \<noteq> s \<and> ngx_rbtree_min s (t_mem st) (rb_root (t_mem st)) = Some x"
  using by_time.first_ok [of "origin (t_now st)" s "t_mem st" xs] assms
  by (auto simp: timers_hold_def first_node_def split: if_splits option.splits)

lemma timers_take:
  assumes "timers_hold s st xs" "x \<in> fst ` set xs"
  shows "\<exists>m. ngx_rbtree_delete s x (t_mem st) = Some m \<and>
    (\<forall>f. timers_hold s (st\<lparr>t_mem := m, t_set := (t_set st)(x := False), t_timedout := f\<rparr>) (without x xs)) \<and>
    timers_hold s (st\<lparr>t_mem := m, t_set := (t_set st)(x := False)\<rparr>) (without x xs)"
proof -
  let ?now = "t_now st"
  from by_time.take_ok [of "origin ?now" s "t_mem st" xs x] assms obtain m where
    m: "ngx_rbtree_delete s x (t_mem st) = Some m"
      "holds_by (\<lambda>k. k - origin ?now) (in_window (origin ?now)) s m (without x xs)"
    unfolding timers_hold_def by blast
  have "((t_set st)(x := False)) y \<longleftrightarrow> y \<in> fst ` set (without x xs)" for y
    using assms by (auto simp: timers_hold_def without_def)
  with m show ?thesis by (auto simp: timers_hold_def)
qed

lemma timers_put:
  assumes "timers_hold s st xs" "x \<noteq> s" "in_window (origin (t_now st)) k" "x \<notin> fst ` set xs"
  shows "\<exists>m ys. ngx_rbtree_insert ngx_rbtree_insert_timer_value s x ((t_mem st)\<lparr>n_key := (n_key (t_mem st))(x := k)\<rparr>) = Some m \<and>
    timers_hold s (st\<lparr>t_mem := m, t_set := (t_set st)(x := True)\<rparr>) ys \<and> set ys = insert (x, k) (set xs)"
proof -
  let ?now = "t_now st"
  from by_time.put_ok [of "origin ?now" s "t_mem st" xs x k] assms obtain m where
    m: "ngx_rbtree_insert ngx_rbtree_insert_timer_value s x ((t_mem st)\<lparr>n_key := (n_key (t_mem st))(x := k)\<rparr>) = Some m"
      "holds_by (\<lambda>k. k - origin ?now) (in_window (origin ?now)) s m (insert_behind (\<lambda>k. k - origin ?now) (x, k) xs)"
    unfolding timers_hold_def put_node_def by blast
  have "((t_set st)(x := True)) y \<longleftrightarrow> y \<in> fst ` set (insert_behind (\<lambda>k. k - origin ?now) (x, k) xs)" for y
    using assms(1) by (auto simp: timers_hold_def set_insert_behind)
  with m show ?thesis
    by (intro exI [of _ m] exI [of _ "insert_behind (\<lambda>k. k - origin ?now) (x, k) xs"]) (simp add: timers_hold_def set_insert_behind)
qed

text \<open>
  The wait that \<open>ngx_event_find_timer\<close> gives is that of the timer that fires first: none if that
  has expired, and \<open>NGX_TIMER_INFINITE\<close> if there is no timer.
\<close>
theorem find_timer_correct:
  assumes "timers_hold s st xs"
  shows "ngx_event_find_timer s st = Some
    (if xs = [] then - 1 else of_int (max 0 (Min ((due (t_now st) \<circ> snd) ` set xs))))"
proof (cases xs)
  case Nil
  then show ?thesis using timers_first(1) [OF assms] by (simp add: ngx_event_find_timer_def)
next
  case (Cons e ys)
  obtain x k where e: "e = (x, k)" by (cases e)
  have first: "rb_root (t_mem st) \<noteq> s" "ngx_rbtree_min s (t_mem st) (rb_root (t_mem st)) = Some x"
    using timers_first(2) [OF assms, of x k ys] Cons e by simp_all
  have key: "n_key (t_mem st) x = k" using timers_key [OF assms] Cons e by simp
  have least: "Min ((due (t_now st) \<circ> snd) ` set xs) = due (t_now st) k"
    using timers_sorted(1) [OF assms] by (intro Min_eqI) (auto simp: Cons e)
  have "(if 0 <s k - t_now st then k - t_now st else 0) = of_int (max 0 (due (t_now st) k))"
    by (simp add: due_def word_sless_alt max_def)
  then show ?thesis unfolding least using first key Cons by (simp add: ngx_event_find_timer_def Let_def)
qed

section \<open>Setting a timer\<close>

lemma abs_less:
  assumes "sint d > - 9223372036854775808"
  shows "ngx_abs d <s 300 \<longleftrightarrow> \<bar>sint d\<bar> < 300"
proof (cases "0 \<le> sint d")
  case True
  then show ?thesis by (simp add: ngx_abs_def word_sle_eq word_sless_alt)
next
  case False
  have "sint (- d) = signed_take_bit 63 (- sint d)" by (simp add: sint_word_ariths)
  also have "\<dots> = - sint d" by (rule signed_take_bit_int_eq_self) (use assms False in simp_all)
  finally show ?thesis using False by (simp add: ngx_abs_def word_sle_eq word_sless_alt)
qed

lemma add_timer_ok:
  assumes "timers_hold s st xs" "x \<noteq> s" "unat timer < 2 ^ 62"
  shows "\<exists>st' xs' k. ngx_event_add_timer s x timer st = Some st' \<and> timers_hold s st' xs' \<and> t_now st' = t_now st \<and>
    set xs' = insert (x, k) (set (without x xs)) \<and>
    \<bar>due (t_now st) k - int (unat timer)\<bar> < 300 \<and> (k = t_now st + timer \<or> (x, k) \<in> set xs)"
proof (cases "t_set st x")
  case False
  then have x: "x \<notin> fst ` set xs" using assms(1) by (simp add: timers_hold_def)
  note w = window_after [OF assms(3), of "t_now st"]
  from timers_put [OF assms(1,2) w(1) x] obtain m ys where
    "ngx_rbtree_insert ngx_rbtree_insert_timer_value s x ((t_mem st)\<lparr>n_key := (n_key (t_mem st))(x := t_now st + timer)\<rparr>) = Some m"
    "timers_hold s (st\<lparr>t_mem := m, t_set := (t_set st)(x := True)\<rparr>) ys" "set ys = insert (x, t_now st + timer) (set xs)" by blast
  moreover have "without x xs = xs" using x by (force simp: without_def filter_id_conv)
  ultimately show ?thesis using False w(2)
    by (intro exI [of _ "st\<lparr>t_mem := m, t_set := (t_set st)(x := True)\<rparr>"] exI [of _ ys] exI [of _ "t_now st + timer"])
      (simp add: ngx_event_add_timer_def Let_def)
next
  case True
  then obtain k where k: "(x, k) \<in> set xs" using assms(1) by (auto simp: timers_hold_def)
  note w = window_after [OF assms(3), of "t_now st"]
  let ?key = "t_now st + timer"
  note wk = timers_window [OF assms(1) k, simplified]
  have old: "n_key (t_mem st) x = k" using timers_key [OF assms(1) k] .
  have dk: "- (2 ^ 62) \<le> due (t_now st) k" "due (t_now st) k < 2 ^ 62"
  proof -
    have "uint (k - origin (t_now st)) < 2 ^ 63"
      using wk unfolding in_window_def uint_nat by (metis of_nat_less_iff of_nat_numeral of_nat_power)
    moreover have "0 \<le> uint (k - origin (t_now st))" by simp
    ultimately show "- (2 ^ 62) \<le> due (t_now st) k" "due (t_now st) k < 2 ^ 62"
      unfolding due_window [OF wk] by simp_all
  qed
  have diff: "sint (?key - k) = int (unat timer) - due (t_now st) k"
  proof -
    have "?key - k = (?key - origin (t_now st)) - (k - origin (t_now st))" by simp
    also have "sint \<dots> = uint (?key - origin (t_now st)) - uint (k - origin (t_now st))"
      by (rule sint_window) (use w(1) wk in \<open>simp_all add: in_window_def\<close>)
    finally show ?thesis using due_window [OF w(1)] due_window [OF wk] w(2) by linarith
  qed
  have lazy: "ngx_abs (?key - k) <s 300 \<longleftrightarrow> \<bar>due (t_now st) k - int (unat timer)\<bar> < 300"
  proof -
    have "0 \<le> int (unat timer)" by (rule of_nat_0_le_iff)
    moreover have "due (t_now st) k < 4611686018427387904" using dk(2) by simp
    ultimately have "- 9223372036854775808 < int (unat timer) - due (t_now st) k" by linarith
    then show ?thesis using abs_less [of "?key - k"] unfolding diff by (simp add: abs_minus_commute)
  qed
  have sep: "set xs = insert (x, k) (set (without x xs))"
    using k timers_sorted(2) [OF assms(1)] by (auto simp: without_def dest: eq_key_imp_eq_value)
  show ?thesis
  proof (cases "ngx_abs (?key - k) <s 300")
    case l: True
    then have "ngx_event_add_timer s x timer st = Some st" using True by (simp add: ngx_event_add_timer_def old)
    then show ?thesis using assms(1) sep l lazy k by blast
  next
    case l: False
    from timers_take [OF assms(1), of x] k obtain m0 where
      m0: "ngx_rbtree_delete s x (t_mem st) = Some m0"
        "timers_hold s (st\<lparr>t_mem := m0, t_set := (t_set st)(x := False)\<rparr>) (without x xs)" by force
    from timers_put [OF m0(2) assms(2), of ?key] w(1) obtain m ys where
      m: "ngx_rbtree_insert ngx_rbtree_insert_timer_value s x (m0\<lparr>n_key := (n_key m0)(x := ?key)\<rparr>) = Some m"
        "timers_hold s (st\<lparr>t_mem := m, t_set := (t_set st)(x := True)\<rparr>) ys" "set ys = insert (x, ?key) (set (without x xs))"
      by (auto simp: without_def)
    have "ngx_event_add_timer s x timer st = Some (st\<lparr>t_mem := m, t_set := (t_set st)(x := True)\<rparr>)"
      using True l m0(1) m(1) by (simp add: ngx_event_add_timer_def ngx_event_del_timer_def Let_def old)
    then show ?thesis using m(2,3) w(2) by (intro exI [of _ "st\<lparr>t_mem := m, t_set := (t_set st)(x := True)\<rparr>"] exI [of _ ys] exI [of _ ?key]) simp
  qed
qed

text \<open>
  Claim C16. Setting a timer succeeds, and afterwards the event has a timer that fires at the time asked for,
  or less than 300 milliseconds from it if there was one set for that time before. The timers
  of other events stay as they are.
\<close>
theorem add_timer_correct:
  assumes "timers_hold s st xs" "x \<noteq> s" "unat timer < 2 ^ 62"
  shows "\<exists>st' xs' k. ngx_event_add_timer s x timer st = Some st' \<and> timers_hold s st' xs' \<and> t_now st' = t_now st \<and>
    set xs' = insert (x, k) (set (without x xs)) \<and>
    \<bar>due (t_now st) k - int (unat timer)\<bar> < 300 \<and> (k = t_now st + timer \<or> (x, k) \<in> set xs)"
  by (rule add_timer_ok [OF assms])

section \<open>Expired timers\<close>

definition expired :: "u64 \<Rightarrow> (ptr \<times> u64) list \<Rightarrow> (ptr \<times> u64) set" where
  "expired now xs = {e \<in> set xs. due now (snd e) \<le> 0}"

text \<open>
  What a handler may do: anything that keeps the timers consistent and adds no timer that has
  expired already.
\<close>

definition good_handler :: "ptr \<Rightarrow> u64 \<Rightarrow> (ptr \<Rightarrow> timers \<Rightarrow> timers option) \<Rightarrow> bool" where
  "good_handler s now h \<longleftrightarrow>
     (\<forall>x st xs. x \<noteq> s \<longrightarrow> timers_hold s st xs \<longrightarrow> t_now st = now \<longrightarrow>
        (\<exists>st' xs'. h x st = Some st' \<and> timers_hold s st' xs' \<and> t_now st' = now \<and> expired now xs' \<subseteq> expired now xs))"

text \<open>One turn of the loop.\<close>

lemma expire_step:
  assumes "timers_hold s st ((x, k) # ys)"
  shows "due (t_now st) k > 0 \<Longrightarrow> ngx_event_expire_timers h s st = Some st"
    and "due (t_now st) k \<le> 0 \<Longrightarrow>
      \<exists>st1. timers_hold s st1 ys \<and> t_now st1 = t_now st \<and> t_timedout st1 = (t_timedout st)(x := True) \<and>
        ngx_event_expire_timers h s st = (case h x st1 of None \<Rightarrow> None | Some st \<Rightarrow> ngx_event_expire_timers h s st)"
proof -
  note first = timers_first(2) [OF assms refl]
  have key: "n_key (t_mem st) x = k" using timers_key [OF assms] by simp
  have due: "k - t_now st \<le>s 0 \<longleftrightarrow> due (t_now st) k \<le> 0" by (simp add: due_def word_sle_eq)
  show "due (t_now st) k > 0 \<Longrightarrow> ngx_event_expire_timers h s st = Some st"
    using first key due by (subst ngx_event_expire_timers.simps) simp
  have rest: "without x ((x, k) # ys) = ys"
    using timers_sorted(2) [OF assms] by (force simp: without_def filter_id_conv)
  from timers_take [OF assms, of x] obtain m where m: "ngx_rbtree_delete s x (t_mem st) = Some m"
    "\<forall>f. timers_hold s (st\<lparr>t_mem := m, t_set := (t_set st)(x := False), t_timedout := f\<rparr>) ys" unfolding rest by auto
  assume "due (t_now st) k \<le> 0"
  then have "ngx_event_expire_timers h s st =
    (case h x (st\<lparr>t_mem := m, t_set := (t_set st)(x := False), t_timedout := (t_timedout st)(x := True)\<rparr>) of
       None \<Rightarrow> None | Some st \<Rightarrow> ngx_event_expire_timers h s st)"
    using first key due m(1) by (subst ngx_event_expire_timers.simps) simp
  with m(2) show "\<exists>st1. timers_hold s st1 ys \<and> t_now st1 = t_now st \<and> t_timedout st1 = (t_timedout st)(x := True) \<and>
        ngx_event_expire_timers h s st = (case h x st1 of None \<Rightarrow> None | Some st \<Rightarrow> ngx_event_expire_timers h s st)"
    by (intro exI [of _ "st\<lparr>t_mem := m, t_set := (t_set st)(x := False), t_timedout := (t_timedout st)(x := True)\<rparr>"]) simp
qed

lemma expire_nil: "timers_hold s st [] \<Longrightarrow> ngx_event_expire_timers h s st = Some st"
  using timers_first(1) [of s st "[]"] by (subst ngx_event_expire_timers.simps) simp

lemma not_expired:
  assumes "timers_hold s st ((x, k) # ys)" "due (t_now st) k > 0"
  shows "expired (t_now st) ((x, k) # ys) = {}"
  using timers_sorted(1) [OF assms(1)] assms(2) by (force simp: expired_def)

text \<open>
  Claim C14. \<open>ngx_event_expire_timers\<close> returns, whatever the handlers do that set no timer in the past, and
  then no timer is left that has expired.
\<close>
theorem expire_timers_returns:
  assumes "timers_hold s st xs" "good_handler s (t_now st) h"
  shows "\<exists>st' xs'. ngx_event_expire_timers h s st = Some st' \<and> timers_hold s st' xs' \<and> t_now st' = t_now st \<and>
    expired (t_now st) xs' = {}"
  using assms
proof (induction "card (expired (t_now st) xs)" arbitrary: st xs rule: less_induct)
  case less
  show ?case
  proof (cases xs)
    case Nil
    then show ?thesis using expire_nil less.prems(1) by (auto simp: expired_def)
  next
    case (Cons e ys)
    obtain x k where e: "e = (x, k)" by (cases e)
    have hold: "timers_hold s st ((x, k) # ys)" using less.prems(1) Cons e by simp
    show ?thesis
    proof (cases "due (t_now st) k \<le> 0")
      case False
      then show ?thesis using expire_step(1) [OF hold, of h] not_expired [OF hold] hold by auto
    next
      case True
      from expire_step(2) [OF hold True, of h] obtain st1 where
        st1: "timers_hold s st1 ys" "t_now st1 = t_now st"
          "ngx_event_expire_timers h s st = (case h x st1 of None \<Rightarrow> None | Some st \<Rightarrow> ngx_event_expire_timers h s st)" by blast
      have "x \<noteq> s" using timers_sentinel [OF hold] by auto
      with less.prems(2) st1(1,2) obtain st2 zs where
        st2: "h x st1 = Some st2" "timers_hold s st2 zs" "t_now st2 = t_now st" "expired (t_now st) zs \<subseteq> expired (t_now st) ys"
        unfolding good_handler_def by metis
      have "(x, k) \<notin> set ys" using timers_sorted(2) [OF hold] by force
      then have "(x, k) \<notin> expired (t_now st) ys" by (simp add: expired_def)
      moreover have "expired (t_now st) xs = insert (x, k) (expired (t_now st) ys)"
        using True by (auto simp: expired_def Cons e)
      ultimately have "expired (t_now st) ys \<subset> expired (t_now st) xs" by blast
      with st2(4) have "expired (t_now st) zs \<subset> expired (t_now st) xs" by (rule subset_psubset_trans)
      moreover have "finite (expired (t_now st) xs)" by (simp add: expired_def)
      ultimately have "card (expired (t_now st2) zs) < card (expired (t_now st) xs)"
        unfolding st2(3) by (rule psubset_card_mono [rotated])
      from less.hyps [OF this st2(2), unfolded st2(3), OF less.prems(2)]
      show ?thesis unfolding st1(3) st2(1) option.case .
    qed
  qed
qed


section \<open>Examples\<close>

text \<open>A handler that sets its timer again keeps within the bounds.\<close>

lemma add_timer_good:
  assumes "0 < unat t" "unat t < 2 ^ 62"
  shows "good_handler s now (\<lambda>x. ngx_event_add_timer s x t)"
  unfolding good_handler_def
proof (intro allI impI)
  fix x st xs assume h: "x \<noteq> s" "timers_hold s st xs" "t_now st = now"
  from add_timer_ok [OF h(2,1) assms(2)] obtain st' xs' k where
    a: "ngx_event_add_timer s x t st = Some st'" "timers_hold s st' xs'" "t_now st' = t_now st"
      "set xs' = insert (x, k) (set (without x xs))" "k = t_now st + t \<or> (x, k) \<in> set xs" by blast
  have "due now k > 0" if "k = t_now st + t" 
  proof -
    have "due now k = int (unat t)" using window_after(2) [OF assms(2), of now] h(3) that by metis
    then show ?thesis using assms(1) by linarith
  qed
  then have "expired now xs' \<subseteq> expired now xs" using a(4,5) by (force simp: expired_def without_def)
  then show "\<exists>st' xs'. ngx_event_add_timer s x t st = Some st' \<and> timers_hold s st' xs' \<and> t_now st' = now \<and> expired now xs' \<subseteq> expired now xs"
    using a(1-3) h(3) by auto
qed

definition one_timer :: "u64 \<Rightarrow> timers" where
  "one_timer now = \<lparr>t_mem = one_node, t_set = (\<lambda>x. x = 2), t_timedout = (\<lambda>x. False), t_now = now\<rparr>"

lemma one_timer_hold: "timers_hold 1 (one_timer 25) [(2, 20)]" "timers_hold 1 (one_timer 15) [(2, 20)]"
proof -
  have "timers_hold 1 (one_timer now) [(2, 20)]" if "in_window (origin now) 20" for now
    using one_node_in that unfolding timers_hold_def holds_by_def
    by (auto simp: one_timer_def entries_def one_node_def intro!: exI [of _ "Node False Leaf 2 Leaf"])
  then show "timers_hold 1 (one_timer 25) [(2, 20)]" "timers_hold 1 (one_timer 15) [(2, 20)]"
    by (simp_all add: in_window_def origin_def)
qed

theorem find_timer_correct_witness: "ngx_event_find_timer 1 (one_timer 15) = Some 5"
  using find_timer_correct [OF one_timer_hold(2)] by (simp add: one_timer_def due_def)

theorem add_timer_correct_witness:
  "\<exists>st' xs'. ngx_event_add_timer 1 3 10 (one_timer 15) = Some st' \<and> timers_hold 1 st' xs' \<and> set xs' = {(3, 25), (2, 20)}"
proof -
  have "(3 :: ptr) \<noteq> 1" "unat (10 :: u64) < 2 ^ 62" by simp_all
  from add_timer_correct [OF one_timer_hold(2) this] show ?thesis
    by (auto simp: one_timer_def without_def)
qed

theorem expire_timers_returns_witness:
  "\<exists>st' xs'. ngx_event_expire_timers (\<lambda>x. ngx_event_add_timer 1 x 1000) 1 (one_timer 25) = Some st' \<and>
    timers_hold 1 st' xs' \<and> expired 25 xs' = {}"
proof -
  have "t_now (one_timer 25) = 25" by (simp add: one_timer_def)
  moreover have "good_handler 1 (t_now (one_timer 25)) (\<lambda>x. ngx_event_add_timer 1 x 1000)" by (rule add_timer_good) simp_all
  ultimately show ?thesis using expire_timers_returns [OF one_timer_hold(1)] by metis
qed


end
