(* ===== verification/NgxNum.thy ===== *)
theory NgxNum
  imports Prelude
begin

unbundle bit_operations_syntax

text \<open>
  Numbers and units of configuration values and headers: the parsers \<open>ngx_atoi\<close> to
  \<open>ngx_hextoi\<close> of src/core/ngx_string.c and the whole of src/core/ngx_parse.c. A C pair
  (line, n) is the list of the n bytes. The parsers of a whole directive argument read one
  byte on either side of the value in corner cases; that is part of the model:
  \<open>ngx_parse_size\<close> and \<open>ngx_parse_offset\<close> on an empty value have no defined result
  (\<open>None\<close>), and \<open>ngx_parse_time\<close> takes the byte after the value as its argument \<open>nxt\<close>.
\<close>

section \<open>ngx_atoi and its variants (src/core/ngx_string.c)\<close>

fun ngx_atoi_loop :: "i64 \<Rightarrow> byte list \<Rightarrow> i64 option" where
  "ngx_atoi_loop value [] = Some value"
| "ngx_atoi_loop value (c # line) =
     (if c < asc CHR ''0'' \<or> c > asc CHR ''9'' then None
      else ngx_atoi_loop (value * 10 + ucast (c - asc CHR ''0'')) line)"

definition ngx_atoi :: "byte list \<Rightarrow> i64" where
  "ngx_atoi line =
     (if line = [] then NGX_ERROR
      else case ngx_atoi_loop 0 line of
             None \<Rightarrow> NGX_ERROR
           | Some value \<Rightarrow> if value <s 0 then NGX_ERROR else value)"

text \<open>\<open>ngx_atosz\<close>, \<open>ngx_atoof\<close>, \<open>ngx_atotm\<close>: the same body for \<open>ssize_t\<close>, \<open>off_t\<close>, \<open>time_t\<close>.\<close>

definition ngx_atosz :: "byte list \<Rightarrow> i64" where
  "ngx_atosz line =
     (if line = [] then NGX_ERROR
      else case ngx_atoi_loop 0 line of
             None \<Rightarrow> NGX_ERROR
           | Some value \<Rightarrow> if value <s 0 then NGX_ERROR else value)"

definition ngx_atoof :: "byte list \<Rightarrow> i64" where
  "ngx_atoof line =
     (if line = [] then NGX_ERROR
      else case ngx_atoi_loop 0 line of
             None \<Rightarrow> NGX_ERROR
           | Some value \<Rightarrow> if value <s 0 then NGX_ERROR else value)"

definition ngx_atotm :: "byte list \<Rightarrow> i64" where
  "ngx_atotm line =
     (if line = [] then NGX_ERROR
      else case ngx_atoi_loop 0 line of
             None \<Rightarrow> NGX_ERROR
           | Some value \<Rightarrow> if value <s 0 then NGX_ERROR else value)"

text \<open>\<open>ngx_atofp\<close>: the scanning loop with its state (value, dot, point), then the padding loop.\<close>

fun ngx_atofp_loop :: "i64 \<Rightarrow> bool \<Rightarrow> nat \<Rightarrow> byte list \<Rightarrow> (i64 \<times> nat) option" where
  "ngx_atofp_loop value dot point [] = Some (value, point)"
| "ngx_atofp_loop value dot point (c # line) =
     (if point = 0 then None
      else if c = asc CHR ''.'' then
        (if dot then None else ngx_atofp_loop value True point line)
      else if c < asc CHR ''0'' \<or> c > asc CHR ''9'' then None
      else ngx_atofp_loop (value * 10 + ucast (c - asc CHR ''0'')) dot
             (if dot then point - 1 else point) line)"

fun ngx_atofp_pad :: "i64 \<Rightarrow> nat \<Rightarrow> i64" where
  "ngx_atofp_pad value 0 = value"
| "ngx_atofp_pad value (Suc point) = ngx_atofp_pad (value * 10) point"

definition ngx_atofp :: "byte list \<Rightarrow> nat \<Rightarrow> i64" where
  "ngx_atofp line point =
     (if line = [] then NGX_ERROR
      else case ngx_atofp_loop 0 False point line of
             None \<Rightarrow> NGX_ERROR
           | Some (value, point') \<Rightarrow>
               (let value' = ngx_atofp_pad value point'
                in if value' <s 0 then NGX_ERROR else value'))"

fun ngx_hextoi_loop :: "i64 \<Rightarrow> byte list \<Rightarrow> i64 option" where
  "ngx_hextoi_loop value [] = Some value"
| "ngx_hextoi_loop value (ch # line) =
     (if asc CHR ''0'' \<le> ch \<and> ch \<le> asc CHR ''9'' then
        ngx_hextoi_loop (value * 16 + ucast (ch - asc CHR ''0'')) line
      else (let c = ch OR 0x20 in
        if asc CHR ''a'' \<le> c \<and> c \<le> asc CHR ''f'' then
          ngx_hextoi_loop (value * 16 + ucast (c - asc CHR ''a'' + 10)) line
        else None))"

definition ngx_hextoi :: "byte list \<Rightarrow> i64" where
  "ngx_hextoi line =
     (if line = [] then NGX_ERROR
      else case ngx_hextoi_loop 0 line of
             None \<Rightarrow> NGX_ERROR
           | Some value \<Rightarrow> if value <s 0 then NGX_ERROR else value)"

section \<open>src/core/ngx_parse.c\<close>

definition ngx_parse_size :: "byte list \<Rightarrow> i64 option" where
  "ngx_parse_size line =
     (if line = [] then None
      else let unit = last line;
               (num, scale) =
                 (if unit = asc CHR ''K'' \<or> unit = asc CHR ''k'' then (butlast line, 1024)
                  else if unit = asc CHR ''M'' \<or> unit = asc CHR ''m'' then (butlast line, 1024 * 1024)
                  else (line, 1));
               size = ngx_atosz num
           in Some (if size = NGX_ERROR then NGX_ERROR else size * scale))"

definition ngx_parse_offset :: "byte list \<Rightarrow> i64 option" where
  "ngx_parse_offset line =
     (if line = [] then None
      else let unit = last line;
               (num, scale) =
                 (if unit = asc CHR ''K'' \<or> unit = asc CHR ''k'' then (butlast line, 1024)
                  else if unit = asc CHR ''M'' \<or> unit = asc CHR ''m'' then (butlast line, 1024 * 1024)
                  else if unit = asc CHR ''G'' \<or> unit = asc CHR ''g''
                    then (butlast line, 1024 * 1024 * 1024)
                  else (line, 1));
               offset = ngx_atoof num
           in Some (if offset = NGX_ERROR then NGX_ERROR else offset * scale))"

text \<open>The enumeration \<open>step\<close> of \<open>ngx_parse_time\<close>, ordered as the C enum is.\<close>

datatype pt_step =
  st_start | st_year | st_month | st_week | st_day | st_hour | st_min | st_sec | st_msec | st_last

fun pt_ord :: "pt_step \<Rightarrow> nat" where
  "pt_ord st_start = 0" | "pt_ord st_year = 1" | "pt_ord st_month = 2" | "pt_ord st_week = 3"
| "pt_ord st_day = 4" | "pt_ord st_hour = 5" | "pt_ord st_min = 6" | "pt_ord st_sec = 7"
| "pt_ord st_msec = 8" | "pt_ord st_last = 9"

instantiation pt_step :: linorder
begin

definition less_eq_pt_step :: "pt_step \<Rightarrow> pt_step \<Rightarrow> bool" where
  "less_eq_pt_step a b \<longleftrightarrow> pt_ord a \<le> pt_ord b"

definition less_pt_step :: "pt_step \<Rightarrow> pt_step \<Rightarrow> bool" where
  "less_pt_step a b \<longleftrightarrow> pt_ord a < pt_ord b"

instance
proof
  fix a b :: pt_step
  show "a \<le> b \<Longrightarrow> b \<le> a \<Longrightarrow> a = b"
    by (cases a; cases b) (simp_all add: less_eq_pt_step_def)
qed (auto simp: less_eq_pt_step_def less_pt_step_def)

end

lemmas pt_order = less_eq_pt_step_def less_pt_step_def

text \<open>
  The switch on a unit letter: \<open>None\<close> where it returns \<open>NGX_ERROR\<close>, otherwise the new
  (step, max, scale) and the rest of the value. \<open>nxt\<close> is the byte after the value, which
  \<open>*p == 's'\<close> reads when \<open>m\<close> is the last letter.
\<close>

definition pt_switch ::
  "bool \<Rightarrow> byte \<Rightarrow> pt_step \<Rightarrow> byte \<Rightarrow> byte list \<Rightarrow> (pt_step \<times> u64 \<times> i64 \<times> byte list) option" where
  "pt_switch is_sec nxt step c rest =
     (if c = asc CHR ''y'' then
        (if step > st_start then None
         else Some (st_year, 0x7fffffff div (60 * 60 * 24 * 365), 60 * 60 * 24 * 365, rest))
      else if c = asc CHR ''M'' then
        (if step \<ge> st_month then None
         else Some (st_month, 0x7fffffff div (60 * 60 * 24 * 30), 60 * 60 * 24 * 30, rest))
      else if c = asc CHR ''w'' then
        (if step \<ge> st_week then None
         else Some (st_week, 0x7fffffff div (60 * 60 * 24 * 7), 60 * 60 * 24 * 7, rest))
      else if c = asc CHR ''d'' then
        (if step \<ge> st_day then None
         else Some (st_day, 0x7fffffff div (60 * 60 * 24), 60 * 60 * 24, rest))
      else if c = asc CHR ''h'' then
        (if step \<ge> st_hour then None
         else Some (st_hour, 0x7fffffff div (60 * 60), 60 * 60, rest))
      else if c = asc CHR ''m'' then
        (if (case rest of [] \<Rightarrow> nxt | x # _ \<Rightarrow> x) = asc CHR ''s'' then
           (if is_sec \<or> step \<ge> st_msec then None
            else Some (st_msec, 0x7fffffff, 1, drop 1 rest))
         else if step \<ge> st_min then None
         else Some (st_min, 0x7fffffff div 60, 60, rest))
      else if c = asc CHR ''s'' then
        (if step \<ge> st_sec then None else Some (st_sec, 0x7fffffff, 1, rest))
      else if c = SP then
        (if step \<ge> st_sec then None else Some (st_last, 0x7fffffff, 1, rest))
      else None)"

lemma pt_switch_length:
  "pt_switch is_sec nxt step c rest = Some (step', mx, scale, rest') \<Longrightarrow> length rest' \<le> length rest"
  by (auto simp: pt_switch_def split: if_splits)

lemma length_dropWhile_less: "length xs \<le> n \<Longrightarrow> length (dropWhile P xs) < Suc n"
  using length_dropWhile_le [of P xs] by simp

function pt_loop ::
  "bool \<Rightarrow> byte \<Rightarrow> byte list \<Rightarrow> bool \<Rightarrow> i64 \<Rightarrow> i64 \<Rightarrow> pt_step \<Rightarrow> i64 \<Rightarrow> i64" where
  "pt_loop is_sec nxt [] valid value tot step scale =
     (if valid then tot + value * scale else NGX_ERROR)"
| "pt_loop is_sec nxt (c # rest) valid value tot step scale =
     (if asc CHR ''0'' \<le> c \<and> c \<le> asc CHR ''9'' then
        pt_loop is_sec nxt rest True (value * 10 + ucast (c - asc CHR ''0'')) tot step scale
      else case pt_switch is_sec nxt step c rest of
             None \<Rightarrow> NGX_ERROR
           | Some (step', mx, scale', rest') \<Rightarrow>
               (let (scale2, max2) =
                      (if step' \<noteq> st_msec \<and> \<not> is_sec then (scale' * 1000, mx div 1000)
                       else (scale', mx))
                in if value > max2 then NGX_ERROR
                   else let tot' = tot + value * scale2
                        in if tot' > 0x7fffffff then NGX_ERROR
                           else pt_loop is_sec nxt (dropWhile (\<lambda>x. x = SP) rest') valid 0 tot'
                                  step' (if is_sec then 1 else 1000)))"
  by pat_completeness auto
termination
  by (relation "measure (\<lambda>(is_sec, nxt, rest, _). length rest)")
    (auto dest!: pt_switch_length intro!: length_dropWhile_less split: if_splits)

definition ngx_parse_time :: "byte list \<Rightarrow> bool \<Rightarrow> byte \<Rightarrow> i64" where
  "ngx_parse_time line is_sec nxt =
     pt_loop is_sec nxt line False 0 0 (if is_sec then st_start else st_month)
       (if is_sec then 1 else 1000)"

section \<open>Integers\<close>

lemma digit_test: "c < asc CHR ''0'' \<or> c > asc CHR ''9'' \<longleftrightarrow> \<not> is_digit c"
  by (auto simp: is_digit_def not_le)

lemma digit_test': "asc CHR ''0'' \<le> c \<and> c \<le> asc CHR ''9'' \<longleftrightarrow> is_digit c"
  by (simp add: is_digit_def)

declare ngx_atoi_loop.simps(2) [simp del] ngx_hextoi_loop.simps(2) [simp del]
  ngx_atofp_loop.simps(2) [simp del]

lemmas atoi_step = ngx_atoi_loop.simps(2) [unfolded digit_test]
lemmas atofp_step = ngx_atofp_loop.simps(2) [unfolded digit_test]

lemma ngx_atoi_loop_digits:
  "\<forall>c \<in> set line. is_digit c \<Longrightarrow>
     ngx_atoi_loop v line = Some (v * 10 ^ length line + of_nat (dec_val line))"
proof (induction line arbitrary: v)
  case (Cons c line)
  then have "(ucast (c - asc CHR ''0'') :: i64) = of_nat (dval c)"
    by (intro ucast_digit) simp
  with Cons show ?case
    by (simp add: atoi_step num_val_Cons algebra_simps)
qed simp

lemma ngx_atoi_loop_bad: "\<not> (\<forall>c \<in> set line. is_digit c) \<Longrightarrow> ngx_atoi_loop v line = None"
  by (induction line arbitrary: v) (auto simp: atoi_step)

lemma ngx_atoi_eq:
  "ngx_atoi line =
     (if line \<noteq> [] \<and> (\<forall>c \<in> set line. is_digit c) \<and> \<not> (of_nat (dec_val line) :: i64) <s 0
      then of_nat (dec_val line) else NGX_ERROR)"
  by (cases "\<forall>c \<in> set line. is_digit c")
    (auto simp: ngx_atoi_def ngx_atoi_loop_digits ngx_atoi_loop_bad)

lemma atoi_variants: "ngx_atosz line = ngx_atoi line" "ngx_atoof line = ngx_atoi line"
  "ngx_atotm line = ngx_atoi line"
  by (simp_all add: ngx_atosz_def ngx_atoof_def ngx_atotm_def ngx_atoi_def)

lemma ngx_atoi_small:
  assumes "line \<noteq> []" "\<forall>c \<in> set line. is_digit c" "dec_val line < 2 ^ 63"
  shows "ngx_atoi line = of_nat (dec_val line)"
  using assms by (simp add: ngx_atoi_eq of_nat_not_neg)

lemma ngx_atoi_to_dec: "n < 2 ^ 63 \<Longrightarrow> ngx_atoi (to_dec n) = of_nat n"
  using ngx_atoi_small [of "to_dec n"] to_dec_digits [of n] by simp

lemma hex_step:
  "ngx_hextoi_loop value (ch # line) =
     (if is_digit ch \<or> is_hex_letter ch then ngx_hextoi_loop (value * 16 + of_nat (hval ch)) line
      else None)"
proof (cases "is_digit ch")
  case True
  then show ?thesis
    by (simp only: ngx_hextoi_loop.simps digit_test' ucast_digit [OF True]) (simp add: hval_def)
next
  case False
  then show ?thesis
    unfolding ngx_hextoi_loop.simps digit_test' Let_def is_hex_letter_def hval_def
    by (simp only: unsigned_of_nat of_nat_unat if_False simp_thms)
qed

lemma ngx_hextoi_loop_digits:
  "\<forall>c \<in> set line. is_digit c \<or> is_hex_letter c \<Longrightarrow>
     ngx_hextoi_loop v line = Some (v * 16 ^ length line + of_nat (hex_val line))"
  by (induction line arbitrary: v) (simp_all add: hex_step num_val_Cons algebra_simps)

lemma ngx_hextoi_small:
  assumes "line \<noteq> []" "\<forall>c \<in> set line. is_digit c \<or> is_hex_letter c" "hex_val line < 2 ^ 63"
  shows "ngx_hextoi line = of_nat (hex_val line)"
  using assms by (simp add: ngx_hextoi_def ngx_hextoi_loop_digits of_nat_not_neg)

section \<open>Fixed point numbers and time values\<close>

lemma ngx_atofp_int:
  "\<forall>c \<in> set a. is_digit c \<Longrightarrow> 0 < point \<Longrightarrow>
     ngx_atofp_loop v False point (a @ r) =
     ngx_atofp_loop (v * 10 ^ length a + of_nat (dec_val a)) False point r"
proof (induction a arbitrary: v)
  case (Cons c a)
  with digit_facts [of c] show ?case
    by (simp add: atofp_step num_val_Cons algebra_simps)
qed simp

lemma ngx_atofp_frac:
  "\<forall>c \<in> set b. is_digit c \<Longrightarrow> length b \<le> point \<Longrightarrow>
     ngx_atofp_loop v True point b = Some (v * 10 ^ length b + of_nat (dec_val b), point - length b)"
proof (induction b arbitrary: v point)
  case (Cons c b)
  with digit_facts [of c] show ?case
    by (simp add: atofp_step num_val_Cons algebra_simps)
qed simp

lemma ngx_atofp_pad_eq: "ngx_atofp_pad v n = v * 10 ^ n"
  by (induction n arbitrary: v) (simp_all add: algebra_simps)

declare pt_loop.simps(2) [simp del]

lemmas pt_loop_step = pt_loop.simps(2) [unfolded digit_test']

lemma pt_loop_digits:
  "ds \<noteq> [] \<Longrightarrow> \<forall>c \<in> set ds. is_digit c \<Longrightarrow>
     pt_loop sec nxt (ds @ r) va v t st sc =
     pt_loop sec nxt r True (v * 10 ^ length ds + of_nat (dec_val ds)) t st sc"
proof (induction ds arbitrary: v va)
  case (Cons c ds)
  then have d: "is_digit c" by simp
  show ?case
  proof (cases "ds = []")
    case True
    with digit_facts [OF d] d show ?thesis
      by (simp add: pt_loop_step num_val_Cons)
  next
    case False
    with Cons digit_facts [OF d] d show ?thesis
      by (simp add: pt_loop_step num_val_Cons algebra_simps)
  qed
qed simp

text \<open>A time value as a configuration writes it: counts with units, larger units first.\<close>

fun unit_char :: "pt_step \<Rightarrow> byte" where
  "unit_char st_year = asc CHR ''y''" | "unit_char st_month = asc CHR ''M''"
| "unit_char st_week = asc CHR ''w''" | "unit_char st_day = asc CHR ''d''"
| "unit_char st_hour = asc CHR ''h''" | "unit_char st_min = asc CHR ''m''"
| "unit_char _ = asc CHR ''s''"

fun unit_secs :: "pt_step \<Rightarrow> nat" where
  "unit_secs st_year = 31536000" | "unit_secs st_month = 2592000"
| "unit_secs st_week = 604800" | "unit_secs st_day = 86400"
| "unit_secs st_hour = 3600" | "unit_secs st_min = 60"
| "unit_secs _ = 1"

definition render_time :: "(nat \<times> pt_step) list \<Rightarrow> byte list" where
  "render_time us = concat (map (\<lambda>(n, u). to_dec n @ [unit_char u]) us)"

definition time_sum :: "(nat \<times> pt_step) list \<Rightarrow> nat" where
  "time_sum us = sum_list (map (\<lambda>(n, u). n * unit_secs u) us)"

lemma pt_switch_unit:
  assumes "st_year \<le> u" "u \<le> st_sec" "step < u"
    and "(case rest of [] \<Rightarrow> nxt | x # _ \<Rightarrow> x) \<noteq> asc CHR ''s''"
  shows "pt_switch True nxt step (unit_char u) rest =
    Some (u, of_nat (0x7fffffff div unit_secs u), of_nat (unit_secs u), rest)"
  using assms by (cases u; cases step) (simp_all add: pt_switch_def pt_order)

lemma render_head:
  "nxt \<noteq> asc CHR ''s'' \<Longrightarrow> (case render_time us of [] \<Rightarrow> nxt | x # _ \<Rightarrow> x) \<noteq> asc CHR ''s''"
proof (cases us)
  case (Cons nu us')
  obtain n u where "nu = (n, u)" by force
  moreover obtain c cs where "to_dec n = c # cs" "is_digit c" using hd_to_dec by blast
  ultimately show ?thesis using Cons digit_facts(3) [of c] by (simp add: render_time_def)
qed (simp add: render_time_def)

lemma render_no_space: "dropWhile (\<lambda>x. x = SP) (render_time us) = render_time us"
proof (cases us)
  case (Cons nu us')
  obtain n u where "nu = (n, u)" by force
  moreover obtain c cs where "to_dec n = c # cs" "is_digit c" using hd_to_dec by blast
  ultimately show ?thesis using Cons by (auto simp add: render_time_def is_digit_def)
qed (simp add: render_time_def)

lemma unit_char_nondigit: "\<not> is_digit (unit_char u)"
  by (cases u) (simp_all add: is_digit_def)

lemma pt_loop_unit:
  assumes "st_year \<le> u" "u \<le> st_sec" "step < u" "nxt \<noteq> asc CHR ''s''"
    and "n * unit_secs u + t \<le> 0x7fffffff"
  shows "pt_loop True nxt (to_dec n @ unit_char u # render_time us) va 0 (of_nat t) step 1 =
    pt_loop True nxt (render_time us) True 0 (of_nat (t + n * unit_secs u)) u 1"
proof -
  have pos: "0 < unit_secs u" by (cases u) simp_all
  have n: "n \<le> 0x7fffffff div unit_secs u"
    using assms(5) pos by (simp add: less_eq_div_iff_mult_less_eq)
  have "0x7fffffff div unit_secs u \<le> 0x7fffffff" by simp
  then have "0x7fffffff div unit_secs u < 2 ^ 64" by (rule le_less_trans) simp
  then have 1: "\<not> (of_nat n :: u64) > of_nat (0x7fffffff div unit_secs u)"
    using of_nat_le_word n by (simp add: not_less del: of_nat_le_iff)
  have 2: "\<not> (of_nat (t + n * unit_secs u) :: u64) > 0x7fffffff"
    using assms(5) by (simp add: not_less word_le_nat_alt unat_of_nat del: of_nat_add of_nat_mult)
  have eq: "of_nat t + of_nat n * of_nat (unit_secs u) = (of_nat (t + n * unit_secs u) :: u64)"
    by simp
  show ?thesis
    using pt_loop_digits [OF to_dec_ne to_dec_digits] unit_char_nondigit [of u] 1 2
      pt_switch_unit [OF assms(1-3) render_head [OF assms(4)]]
    by (simp add: pt_loop_step Let_def eq render_no_space del: of_nat_add of_nat_mult)
qed

lemma pt_loop_render:
  assumes "sorted_wrt (<) (step # map snd us)" "\<forall>u \<in> snd ` set us. st_year \<le> u \<and> u \<le> st_sec"
    and "t + time_sum us \<le> 0x7fffffff" "nxt \<noteq> asc CHR ''s''" "va \<or> us \<noteq> []"
  shows "pt_loop True nxt (render_time us) va 0 (of_nat t) step 1 = of_nat (t + time_sum us)"
  using assms
proof (induction us arbitrary: t step va)
  case Nil
  then show ?case by (simp add: render_time_def time_sum_def)
next
  case (Cons nu us)
  obtain n u where nu: "nu = (n, u)" by force
  have r: "render_time (nu # us) = to_dec n @ unit_char u # render_time us"
    and s: "time_sum (nu # us) = n * unit_secs u + time_sum us"
    by (simp_all add: nu render_time_def time_sum_def)
  have "pt_loop True nxt (render_time (nu # us)) va 0 (of_nat t) step 1 =
     pt_loop True nxt (render_time us) True 0 (of_nat (t + n * unit_secs u)) u 1"
    unfolding r using Cons.prems s nu by (intro pt_loop_unit) auto
  also have "\<dots> = of_nat (t + n * unit_secs u + time_sum us)"
    using Cons.prems s nu by (intro Cons.IH) auto
  finally show ?case by (simp add: s add.assoc)
qed

section \<open>Properties\<close>

text \<open>
  On a non-empty string of digits \<open>ngx_atoi\<close> returns the number the digits denote
  reduced modulo \<open>2 ^ 64\<close>, or \<open>NGX_ERROR\<close> (-1) when that lands in the negative half; every
  other string is \<open>NGX_ERROR\<close>. Overflow is thus only detected by its sign.
\<close>
theorem ngx_atoi_value:
  "sint (ngx_atoi line) =
     (if line \<noteq> [] \<and> list_all is_digit line \<and> dec_val line mod 2 ^ 64 < 2 ^ 63
      then int (dec_val line mod 2 ^ 64) else -1)"
proof -
  have lt: "dec_val line mod 2 ^ 64 < 2 ^ 64" by simp
  have "\<not> (of_nat (dec_val line) :: i64) <s 0 \<longleftrightarrow> dec_val line mod 2 ^ 64 < 2 ^ 63"
    using lt by (simp only: word_sless_alt sint_of_nat_mod sint_0) (auto simp del: mod_less_divisor)
  then show ?thesis
    by (simp only: ngx_atoi_eq) (auto simp: sint_of_nat_mod NGX_ERROR_def list_all_iff)
qed

text \<open>
  Fixed point numbers: \<open>ngx_atofp("a.b", n, point)\<close> is the number of units of
  \<open>10 ^ -point\<close>, e.g. \<open>ngx_atofp("10.5", 4, 2)\<close> is 1050, when the fraction has at most \<open>point\<close>
  digits and the result fits.
\<close>
theorem ngx_atofp_fixed_point:
  assumes "\<forall>c \<in> set a. is_digit c" "\<forall>c \<in> set b. is_digit c" "0 < point" "length b \<le> point"
    and "dec_val (a @ b) * 10 ^ (point - length b) < 2 ^ 63"
  shows "sint (ngx_atofp (a @ asc CHR ''.'' # b) point) =
    int (dec_val (a @ b) * 10 ^ (point - length b))"
proof -
  let ?n = "dec_val (a @ b) * 10 ^ (point - length b)"
  have "ngx_atofp_loop 0 False point (a @ asc CHR ''.'' # b) =
      Some (of_nat (dec_val (a @ b)), point - length b)"
    using assms by (simp add: ngx_atofp_int ngx_atofp_frac atofp_step num_val_append algebra_simps)
  then have "ngx_atofp (a @ asc CHR ''.'' # b) point = of_nat ?n"
    using of_nat_not_neg [OF assms(5)] by (simp add: ngx_atofp_def ngx_atofp_pad_eq Let_def)
  with assms(5) show ?thesis by (simp only: sint_of_nat)
qed

theorem ngx_atofp_fixed_point_witness: "sint (ngx_atofp (bytes ''10.5'') 2) = 1050"
  using ngx_atofp_fixed_point [of "bytes ''10''" "bytes ''5''" 2]
  by (simp add: is_digit_def num_val_def dval_def)

text \<open>
  Sizes and offsets with a unit: for a number that \<open>ngx_atosz\<close> accepts, the result is
  the number times 1024 (K), 1048576 (M) or, for an offset only, 1073741824 (G), reduced to 64
  bits without a check: 18014398509481985K silently becomes 1024 (the last part).
\<close>
theorem ngx_parse_size_offset_units:
  assumes "n < 2 ^ 63"
    and "(u, k) \<in> {(''K'', 2 ^ 10), (''k'', 2 ^ 10), (''M'', 2 ^ 20), (''m'', 2 ^ 20), ([], 1)}"
    and "(v, l) \<in> {(u, k), (''G'', 2 ^ 30), (''g'', 2 ^ 30)}"
  shows "ngx_parse_size (to_dec n @ bytes u) = Some (of_nat (n * k)) \<and>
    ngx_parse_offset (to_dec n @ bytes v) = Some (of_nat (n * l)) \<and>
    ngx_parse_size (to_dec n @ bytes ''G'') = Some NGX_ERROR \<and>
    ngx_parse_size (bytes ''18014398509481985K'') = Some 1024"
proof (intro conjI)
  have last: "is_digit (last (to_dec n))" using to_dec_digits [of n] by simp
  then have l: "last (to_dec n) \<notin> {asc CHR ''K'', asc CHR ''k'', asc CHR ''M'', asc CHR ''m'',
      asc CHR ''G'', asc CHR ''g''}"
    by (auto simp: is_digit_def)
  have bad: "ngx_atoi (to_dec n @ [asc CHR ''G'']) = NGX_ERROR"
    by (simp add: ngx_atoi_eq is_digit_def)
  note s = ngx_parse_size_def ngx_parse_offset_def atoi_variants ngx_atoi_to_dec of_nat_ne_error
  show "ngx_parse_size (to_dec n @ bytes u) = Some (of_nat (n * k))"
    using assms(1,2) l by (auto simp: s)
  show "ngx_parse_offset (to_dec n @ bytes v) = Some (of_nat (n * l))"
    using assms l by (auto simp: s)
  show "ngx_parse_size (to_dec n @ bytes ''G'') = Some NGX_ERROR"
    using bad by (simp add: s)
  show "ngx_parse_size (bytes ''18014398509481985K'') = Some 1024"
    by (simp add: s ngx_atoi_def atoi_step is_digit_def NGX_ERROR_def word_sless_alt)
qed

theorem ngx_parse_size_offset_units_witness:
  "ngx_parse_size (to_dec 8 @ bytes ''k'') = Some 8192 \<and>
   ngx_parse_offset (to_dec 8 @ bytes ''k'') = Some 8192"
  using ngx_parse_size_offset_units [of 8 "''k''" "2 ^ 10" "''k''" "2 ^ 10"] by simp



end
