(* ===== verification/NgxEscape.thy ===== *)
theory NgxEscape
  imports NgxNum
begin

unbundle bit_operations_syntax

text \<open>
  Escaping in src/core/ngx_string.c: \<open>ngx_escape_uri\<close> with its seven tables, in its counting and
  its writing pass, \<open>ngx_unescape_uri\<close> with its three states and two flags, \<open>ngx_escape_html\<close>
  in both passes, and \<open>ngx_hex_dump\<close>. A destination pointer is the list of bytes written.
\<close>

section \<open>ngx_escape_uri\<close>

definition hex_lower :: "byte list" where
  "hex_lower = bytes ''0123456789abcdef''"

definition esc_uri :: "u32 list" where
  "esc_uri = [0xffffffff, 0x80000029, 0x00000000, 0x80000000,
              0xffffffff, 0xffffffff, 0xffffffff, 0xffffffff]"

definition esc_args :: "u32 list" where
  "esc_args = [0xffffffff, 0x88000869, 0x00000000, 0x80000000,
               0xffffffff, 0xffffffff, 0xffffffff, 0xffffffff]"

definition esc_uri_component :: "u32 list" where
  "esc_uri_component = [0xffffffff, 0xfc009fff, 0x78000001, 0xb8000001,
                        0xffffffff, 0xffffffff, 0xffffffff, 0xffffffff]"

definition esc_html :: "u32 list" where
  "esc_html = [0xffffffff, 0x000000ad, 0x00000000, 0x80000000,
               0xffffffff, 0xffffffff, 0xffffffff, 0xffffffff]"

definition esc_refresh :: "u32 list" where
  "esc_refresh = [0xffffffff, 0x00000085, 0x00000000, 0x80000000,
                  0xffffffff, 0xffffffff, 0xffffffff, 0xffffffff]"

definition esc_memcached :: "u32 list" where
  "esc_memcached = [0xffffffff, 0x00000021, 0x00000000, 0x00000000,
                    0x00000000, 0x00000000, 0x00000000, 0x00000000]"

text \<open>\<open>map[type]\<close>, types \<open>NGX_ESCAPE_URI\<close> = 0 to \<open>NGX_ESCAPE_MAIL_AUTH\<close> = 6.\<close>

definition escape_map :: "nat \<Rightarrow> u32 list option" where
  "escape_map ty =
     rd [esc_uri, esc_args, esc_uri_component, esc_html, esc_refresh, esc_memcached, esc_memcached] ty"

fun escape_count :: "u32 list \<Rightarrow> byte list \<Rightarrow> nat" where
  "escape_count escape [] = 0"
| "escape_count escape (c # src) = (if bitmap_test escape c then 1 else 0) + escape_count escape src"

fun escape_write :: "u32 list \<Rightarrow> byte list \<Rightarrow> byte list" where
  "escape_write escape [] = []"
| "escape_write escape (c # src) =
     (if bitmap_test escape c
      then asc CHR ''%'' # hex_lower ! unat (drop_bit 4 c) # hex_lower ! unat (c AND 0xf) #
           escape_write escape src
      else c # escape_write escape src)"

definition ngx_escape_uri_size :: "byte list \<Rightarrow> nat \<Rightarrow> nat option" where
  "ngx_escape_uri_size src ty = map_option (\<lambda>escape. escape_count escape src) (escape_map ty)"

definition ngx_escape_uri :: "byte list \<Rightarrow> nat \<Rightarrow> byte list option" where
  "ngx_escape_uri src ty = map_option (\<lambda>escape. escape_write escape src) (escape_map ty)"

section \<open>ngx_unescape_uri\<close>

datatype ue_state = ue_usual | ue_quoted | ue_quoted_second

definition NGX_UNESCAPE_URI :: u64 where "NGX_UNESCAPE_URI = 1"
definition NGX_UNESCAPE_REDIRECT :: u64 where "NGX_UNESCAPE_REDIRECT = 2"

text \<open>
  \<open>unescape_loop type state decoded prev src\<close>: the bytes written from here on and the part of
  the source not read; \<open>prev\<close> is \<open>*(s - 2)\<close>, the byte before the one being handled.
\<close>

fun unescape_loop ::
  "u64 \<Rightarrow> ue_state \<Rightarrow> byte \<Rightarrow> byte \<Rightarrow> byte list \<Rightarrow> byte list \<times> byte list" where
  "unescape_loop ty state decoded prev [] = ([], [])"
| "unescape_loop ty ue_usual decoded prev (ch # s) =
     (if ch = asc CHR ''?'' \<and> ty AND (NGX_UNESCAPE_URI OR NGX_UNESCAPE_REDIRECT) \<noteq> 0 then ([ch], s)
      else if ch = asc CHR ''%'' then unescape_loop ty ue_quoted decoded ch s
      else apfst (Cons ch) (unescape_loop ty ue_usual decoded ch s))"
| "unescape_loop ty ue_quoted decoded prev (ch # s) =
     (if asc CHR ''0'' \<le> ch \<and> ch \<le> asc CHR ''9'' then
        unescape_loop ty ue_quoted_second (ch - asc CHR ''0'') ch s
      else let c = ch OR 0x20 in
        if asc CHR ''a'' \<le> c \<and> c \<le> asc CHR ''f'' then
          unescape_loop ty ue_quoted_second (c - asc CHR ''a'' + 10) ch s
        else apfst (Cons ch) (unescape_loop ty ue_usual decoded ch s))"
| "unescape_loop ty ue_quoted_second decoded prev (ch # s) =
     (if asc CHR ''0'' \<le> ch \<and> ch \<le> asc CHR ''9'' then
        (let ch' = push_bit 4 decoded + ch - asc CHR ''0'' in
         if ty AND NGX_UNESCAPE_REDIRECT \<noteq> 0 then
           (if ch' > asc CHR ''%'' \<and> ch' < 0x7f then
              apfst (Cons ch') (unescape_loop ty ue_usual decoded ch s)
            else apfst (append [asc CHR ''%'', prev, ch]) (unescape_loop ty ue_usual decoded ch s))
         else apfst (Cons ch') (unescape_loop ty ue_usual decoded ch s))
      else let c = ch OR 0x20 in
        if asc CHR ''a'' \<le> c \<and> c \<le> asc CHR ''f'' then
          (let ch' = push_bit 4 decoded + c - asc CHR ''a'' + 10 in
           if ty AND NGX_UNESCAPE_URI \<noteq> 0 then
             (if ch' = asc CHR ''?'' then ([ch'], s)
              else apfst (Cons ch') (unescape_loop ty ue_usual decoded ch s))
           else if ty AND NGX_UNESCAPE_REDIRECT \<noteq> 0 then
             (if ch' = asc CHR ''?'' then ([ch'], s)
              else if ch' > asc CHR ''%'' \<and> ch' < 0x7f then
                apfst (Cons ch') (unescape_loop ty ue_usual decoded ch s)
              else apfst (append [asc CHR ''%'', prev, ch]) (unescape_loop ty ue_usual decoded ch s))
           else apfst (Cons ch') (unescape_loop ty ue_usual decoded ch s))
        else unescape_loop ty ue_usual decoded ch s)"

definition ngx_unescape_uri :: "byte list \<Rightarrow> u64 \<Rightarrow> byte list \<times> byte list" where
  "ngx_unescape_uri src ty = unescape_loop ty ue_usual 0 0 src"

section \<open>ngx_escape_html, ngx_hex_dump\<close>

fun escape_html_size :: "byte list \<Rightarrow> nat" where
  "escape_html_size [] = 0"
| "escape_html_size (c # src) =
     (if c = asc CHR ''<'' then length (bytes ''&lt;'') - 1
      else if c = asc CHR ''>'' then length (bytes ''&gt;'') - 1
      else if c = asc CHR ''&'' then length (bytes ''&amp;'') - 1
      else if c = 0x22 then length (bytes ''&quot;'') - 1
      else 0) + escape_html_size src"

fun ngx_escape_html :: "byte list \<Rightarrow> byte list" where
  "ngx_escape_html [] = []"
| "ngx_escape_html (c # src) =
     (if c = asc CHR ''<'' then bytes ''&lt;''
      else if c = asc CHR ''>'' then bytes ''&gt;''
      else if c = asc CHR ''&'' then bytes ''&amp;''
      else if c = 0x22 then bytes ''&quot;''
      else [c]) @ ngx_escape_html src"

fun ngx_hex_dump :: "byte list \<Rightarrow> byte list" where
  "ngx_hex_dump [] = []"
| "ngx_hex_dump (c # src) =
     hex_lower ! unat (drop_bit 4 c) # hex_lower ! unat (c AND 0xf) # ngx_hex_dump src"

section \<open>Correctness\<close>

subsection \<open>Hexadecimal digits\<close>

lemma hex_digit_facts:
  assumes "n < 16"
  shows "let h = hex_lower ! n; c = h OR 0x20 in
    h \<noteq> asc CHR ''%'' \<and>
    (if asc CHR ''0'' \<le> h \<and> h \<le> asc CHR ''9'' then h - asc CHR ''0'' = of_nat n
     else asc CHR ''a'' \<le> c \<and> c \<le> asc CHR ''f'' \<and> c - asc CHR ''a'' + 10 = of_nat n)"
proof -
  have "list_all (\<lambda>n. let h = hex_lower ! n; c = h OR 0x20 in
    h \<noteq> asc CHR ''%'' \<and>
    (if asc CHR ''0'' \<le> h \<and> h \<le> asc CHR ''9'' then h - asc CHR ''0'' = of_nat n
     else asc CHR ''a'' \<le> c \<and> c \<le> asc CHR ''f'' \<and> c - asc CHR ''a'' + 10 = of_nat n)) [0..<16]"
    by code_simp
  with assms show ?thesis by (simp only: list_all_iff) simp
qed

lemma nibbles:
  "unat (drop_bit 4 (c :: byte)) < 16" "unat (c AND 0xf) < 16"
  "push_bit 4 (drop_bit 4 c) + (c AND 0xf) = c"
proof -
  have "mask 4 = (0xf :: byte)" by (simp add: mask_eq_exp_minus_1)
  then have t: "c AND 0xf = take_bit 4 c" using take_bit_eq_mask [of 4 c] by metis
  then have m: "c AND 0xf = c mod 16" by (simp add: take_bit_eq_mod)
  have d: "unat (drop_bit 4 c) = unat c div 16"
    by (simp only: drop_bit_eq_div unat_div) simp
  show "unat (drop_bit 4 c) < 16"
    using unsigned_less [of c, where ?'a = nat] by (simp add: d)
  show "unat (c AND 0xf) < 16"
    by (simp only: m) (simp add: unat_mod)
  show "push_bit 4 (drop_bit 4 c) + (c AND 0xf) = c"
    unfolding t by (rule bits_ident)
qed

lemma hex_digit_cases:
  assumes "n < 16"
  obtains (num) "asc CHR ''0'' \<le> hex_lower ! n \<and> hex_lower ! n \<le> asc CHR ''9''"
      "hex_lower ! n - asc CHR ''0'' = of_nat n"
  | (letter) "\<not> (asc CHR ''0'' \<le> hex_lower ! n \<and> hex_lower ! n \<le> asc CHR ''9'')"
      "asc CHR ''a'' \<le> hex_lower ! n OR 0x20 \<and> hex_lower ! n OR 0x20 \<le> asc CHR ''f''"
      "(hex_lower ! n OR 0x20) - asc CHR ''a'' + 10 = of_nat n"
  using hex_digit_facts [OF assms] unfolding Let_def by meson

lemma unescape_first_digit:
  assumes "n < 16"
  shows "unescape_loop ty ue_quoted d p (hex_lower ! n # s) =
    unescape_loop ty ue_quoted_second (of_nat n) (hex_lower ! n) s"
  using assms
proof (cases rule: hex_digit_cases)
  case num
  then show ?thesis by (simp only: unescape_loop.simps if_True simp_thms)
next
  case letter
  then show ?thesis by (simp only: unescape_loop.simps Let_def if_True if_False simp_thms)
qed

lemma unescape_second_digit:
  assumes "n < 16"
  shows "unescape_loop 0 ue_quoted_second d p (hex_lower ! n # s) =
    apfst (Cons (push_bit 4 d + of_nat n)) (unescape_loop 0 ue_usual d (hex_lower ! n) s)"
  using assms
proof (cases rule: hex_digit_cases)
  case num
  have "push_bit 4 d + hex_lower ! n - asc CHR ''0'' = push_bit 4 d + of_nat n"
    by (simp only: num(2) [symmetric] add_diff_eq)
  with num show ?thesis by (simp only: unescape_loop.simps if_True Let_def) simp
next
  case letter
  have "push_bit 4 d + (hex_lower ! n OR 0x20) - asc CHR ''a'' + 10 = push_bit 4 d + of_nat n"
    by (simp only: letter(3) [symmetric] add_diff_eq add.assoc [symmetric])
  with letter show ?thesis by (simp only: unescape_loop.simps if_True if_False Let_def) simp
qed

lemma unescape_escaped:
  "unescape_loop 0 ue_usual d p
     (asc CHR ''%'' # hex_lower ! unat (drop_bit 4 c) # hex_lower ! unat (c AND 0xf) # s) =
   apfst (Cons c)
     (unescape_loop 0 ue_usual (drop_bit 4 c) (hex_lower ! unat (c AND 0xf)) s)"
proof -
  have "unescape_loop 0 ue_usual d p (asc CHR ''%'' # r) = unescape_loop 0 ue_quoted d (asc CHR ''%'') r" for r
    by simp
  then show ?thesis
    by (simp only: unescape_first_digit [OF nibbles(1)] unescape_second_digit [OF nibbles(2)])
      (simp only: of_nat_unat ucast_id nibbles(3))
qed

lemma unescape_escape:
  assumes "bitmap_test tbl (asc CHR ''%'')"
  shows "unescape_loop 0 ue_usual d p (escape_write tbl src) = (src, [])"
proof (induction src arbitrary: d p)
  case (Cons c src)
  show ?case
  proof (cases "bitmap_test tbl c")
    case True
    then show ?thesis
      by (simp only: escape_write.simps if_True unescape_escaped Cons.IH) simp
  next
    case False
    with assms have "c \<noteq> asc CHR ''%''" by auto
    with False show ?thesis by (simp add: Cons.IH)
  qed
qed simp

lemma length_escape_write: "length (escape_write tbl src) = length src + 2 * escape_count tbl src"
  by (induction src) simp_all

definition unescape_all :: "byte list \<Rightarrow> byte list option" where
  "unescape_all src =
     (let (out, rest) = ngx_unescape_uri src 0 in if rest = [] then Some out else None)"

lemma escape_codec:
  assumes "bitmap_test tbl (asc CHR ''%'')"
  shows "sized_codec (escape_write tbl) unescape_all (\<lambda>s. length s + 2 * escape_count tbl s)"
  by unfold_locales
    (simp_all add: unescape_all_def ngx_unescape_uri_def unescape_escape [OF assms] length_escape_write)

interpretation esc_uri: sized_codec "escape_write esc_uri" unescape_all
  "\<lambda>s. length s + 2 * escape_count esc_uri s"
  by (rule escape_codec) code_simp

interpretation esc_args: sized_codec "escape_write esc_args" unescape_all
  "\<lambda>s. length s + 2 * escape_count esc_args s"
  by (rule escape_codec) code_simp

interpretation esc_uri_component: sized_codec "escape_write esc_uri_component" unescape_all
  "\<lambda>s. length s + 2 * escape_count esc_uri_component s"
  by (rule escape_codec) code_simp

interpretation esc_html: sized_codec "escape_write esc_html" unescape_all
  "\<lambda>s. length s + 2 * escape_count esc_html s"
  by (rule escape_codec) code_simp

interpretation esc_memcached: sized_codec "escape_write esc_memcached" unescape_all
  "\<lambda>s. length s + 2 * escape_count esc_memcached s"
  by (rule escape_codec) code_simp

lemma escape_map_cases:
  assumes "escape_map ty = Some tbl"
  shows "tbl = esc_uri \<or> tbl = esc_args \<or> tbl = esc_uri_component \<or> tbl = esc_html \<or>
    tbl = esc_refresh \<and> ty = 4 \<or> tbl = esc_memcached"
proof -
  from assms have "ty < 7" by (auto simp: escape_map_def rd_def split: if_splits)
  then have "ty = 0 \<or> ty = 1 \<or> ty = 2 \<or> ty = 3 \<or> ty = 4 \<or> ty = 5 \<or> ty = 6" by arith
  with assms show ?thesis by (auto simp: escape_map_def)
qed

lemma unescape_allD: "unescape_all out = Some src \<Longrightarrow> ngx_unescape_uri out 0 = (src, [])"
  by (auto simp: unescape_all_def split: prod.splits if_splits)

text \<open>
  Claim C32. URI escaping, for every type but \<open>NGX_ESCAPE_REFRESH\<close>: unescaping the written bytes
  gives back the source, and the counting pass announces the size of the writing pass (two more
  bytes per escaped byte), which is what the callers allocate.
\<close>
theorem ngx_escape_uri_roundtrip:
  assumes "ngx_escape_uri src ty = Some out" and "ty \<noteq> 4"
  shows "ngx_unescape_uri out 0 = (src, []) \<and>
    map_option (\<lambda>n. length src + 2 * n) (ngx_escape_uri_size src ty) = Some (length out)"
proof -
  from assms(1) obtain tbl where tbl: "escape_map ty = Some tbl" "out = escape_write tbl src"
    by (auto simp: ngx_escape_uri_def)
  have "unescape_all (escape_write tbl src) = Some src"
    using escape_map_cases [OF tbl(1)] assms(2) esc_uri.dec_enc esc_args.dec_enc
      esc_uri_component.dec_enc esc_html.dec_enc esc_memcached.dec_enc by blast
  with tbl show ?thesis
    by (simp add: unescape_allD ngx_escape_uri_size_def length_escape_write)
qed

theorem ngx_escape_uri_roundtrip_witness:
  "ngx_escape_uri (bytes ''a b'') 0 = Some (bytes ''a%20b'') \<and>
   ngx_unescape_uri (bytes ''a%20b'') 0 = (bytes ''a b'', [])"
proof -
  have "ngx_escape_uri (bytes ''a b'') 0 = Some (bytes ''a%20b'')" by code_simp
  with ngx_escape_uri_roundtrip [OF this] show ?thesis by simp
qed

text \<open>
  The table for \<open>NGX_ESCAPE_REFRESH\<close> leaves the percent sign alone, although the comment
  above it lists the sign: the type is not invertible, \<open>%41\<close> is written as it is and read back
  as \<open>A\<close>.
\<close>
theorem ngx_escape_refresh_keeps_percent:
  "ngx_escape_uri (bytes ''%41'') 4 = Some (bytes ''%41'') \<and>
   ngx_unescape_uri (bytes ''%41'') 0 = (bytes ''A'', [])"
  by code_simp

text \<open>Bytes written plus bytes left.\<close>

definition written_left :: "byte list \<times> byte list \<Rightarrow> nat" where
  "written_left r = length (fst r) + length (snd r)"

lemma written_left_simps [simp]:
  "written_left (xs, ys) = length xs + length ys"
  "written_left (apfst (Cons c) r) = Suc (written_left r)"
  "written_left (apfst (append xs) r) = length xs + written_left r"
  by (simp_all add: written_left_def)

fun ue_pending :: "ue_state \<Rightarrow> nat" where
  "ue_pending ue_usual = 0"
| "ue_pending ue_quoted = 1"
| "ue_pending ue_quoted_second = 2"

lemma unescape_loop_bounds:
  "written_left (unescape_loop ty st d p src) \<le> length src + ue_pending st"
proof (induction src arbitrary: st d p)
  case (Cons ch s)
  have u [simp]: "written_left (unescape_loop ty ue_usual d p s) \<le> length s"
    "written_left (unescape_loop ty ue_quoted d p s) \<le> Suc (length s)"
    "written_left (unescape_loop ty ue_quoted_second d p s) \<le> Suc (Suc (length s))" for d p
    using Cons.IH [of ue_usual d p] Cons.IH [of ue_quoted d p] Cons.IH [of ue_quoted_second d p]
    by simp_all
  then have [simp]: "written_left (unescape_loop ty ue_usual d p s) \<le> Suc (length s)"
    "written_left (unescape_loop ty ue_usual d p s) \<le> Suc (Suc (length s))"
    "written_left (unescape_loop ty ue_usual d p s) \<le> Suc (Suc (Suc (length s)))" for d p
    by (simp_all add: le_SucI)
  show ?case by (cases st) (simp_all add: Let_def)
qed simp

text \<open>
  \<open>ngx_unescape_uri\<close> never writes more bytes than it has read, for every combination of
  its flags: unescaping in place, or into a buffer of the size of the source, is safe.
\<close>
theorem ngx_unescape_uri_bounds:
  "length (fst (ngx_unescape_uri src ty)) + length (snd (ngx_unescape_uri src ty)) \<le> length src"
  using unescape_loop_bounds [of ty ue_usual 0 0 src]
  by (simp add: ngx_unescape_uri_def written_left_def)

subsection \<open>HTML escaping\<close>

text \<open>What a browser reads back: the four entities, any other byte as itself.\<close>

function html_decode :: "byte list \<Rightarrow> byte list" where
  "html_decode [] = []"
| "html_decode (c # s) =
     (if c = asc CHR ''&'' \<and> take 3 s = bytes ''lt;'' then asc CHR ''<'' # html_decode (drop 3 s)
      else if c = asc CHR ''&'' \<and> take 3 s = bytes ''gt;'' then asc CHR ''>'' # html_decode (drop 3 s)
      else if c = asc CHR ''&'' \<and> take 4 s = bytes ''amp;'' then asc CHR ''&'' # html_decode (drop 4 s)
      else if c = asc CHR ''&'' \<and> take 5 s = bytes ''quot;'' then 0x22 # html_decode (drop 5 s)
      else c # html_decode s)"
  by pat_completeness auto
termination
  by (relation "measure length") auto

lemma html_decode_escape: "html_decode (ngx_escape_html s) = s"
proof (induction s)
  case (Cons c s)
  consider "c = asc CHR ''<''" | "c = asc CHR ''>''" | "c = asc CHR ''&''" | "c = 0x22"
    | "c \<noteq> asc CHR ''<''" "c \<noteq> asc CHR ''>''" "c \<noteq> asc CHR ''&''" "c \<noteq> 0x22"
    by blast
  then show ?case by cases (simp_all add: Cons.IH)
qed simp

lemma length_escape_html: "length (ngx_escape_html s) = length s + escape_html_size s"
  by (induction s) simp_all

interpretation html: sized_codec ngx_escape_html "\<lambda>s. Some (html_decode s)"
  "\<lambda>s. length s + escape_html_size s"
  by unfold_locales (simp_all add: html_decode_escape length_escape_html)

lemma escape_html_safe:
  "asc CHR ''<'' \<notin> set (ngx_escape_html s) \<and> asc CHR ''>'' \<notin> set (ngx_escape_html s) \<and>
   0x22 \<notin> set (ngx_escape_html s)"
  by (induction s) simp_all

text \<open>
  HTML escaping: reading the entities back gives the text, the counting pass announces
  the bytes the writing pass adds, and no bracket and no quote is left in the output.
\<close>
theorem ngx_escape_html_correct:
  "html_decode (ngx_escape_html s) = s \<and>
   length (ngx_escape_html s) = length s + escape_html_size s \<and>
   set (ngx_escape_html s) \<inter> {asc CHR ''<'', asc CHR ''>'', 0x22} = {}"
  using html.dec_enc [of s] html.length_enc [of s] escape_html_safe [of s] by auto

subsection \<open>Hexadecimal dumps\<close>

text \<open>The number a string of bytes denotes, most significant byte first.\<close>

abbreviation be_val :: "byte list \<Rightarrow> nat" where "be_val \<equiv> num_val 256 unat"

lemma hex_lower_val:
  assumes "n < 16"
  shows "is_digit (hex_lower ! n) \<or> is_hex_letter (hex_lower ! n)" "hval (hex_lower ! n) = n"
proof -
  have n: "unat (of_nat n :: byte) = n" using assms by (simp add: unat_of_nat)
  from assms show "is_digit (hex_lower ! n) \<or> is_hex_letter (hex_lower ! n)"
    by (cases rule: hex_digit_cases) (simp_all add: is_digit_def is_hex_letter_def Let_def)
  from assms show "hval (hex_lower ! n) = n"
  proof (cases rule: hex_digit_cases)
    case num
    then show ?thesis using n by (simp add: hval_def dval_def is_digit_def)
  next
    case letter
    then show ?thesis using n unfolding hval_def is_digit_def by (simp only: if_False)
  qed
qed

lemma unat_nibbles: "16 * unat (drop_bit 4 (c :: byte)) + unat (c AND 0xf) = unat c"
proof -
  have "mask 4 = (0xf :: byte)" by (simp add: mask_eq_exp_minus_1)
  then have t: "c AND 0xf = take_bit 4 c" using take_bit_eq_mask [of 4 c] by metis
  have "unat (c AND 0xf) = unat c mod 16" unfolding t by (simp only: take_bit_eq_mod unat_mod) simp
  moreover have "unat (drop_bit 4 c) = unat c div 16" by (simp only: drop_bit_eq_div unat_div) simp
  ultimately show ?thesis by simp
qed

lemma length_hex_dump: "length (ngx_hex_dump xs) = 2 * length xs"
  by (induction xs) simp_all

lemma hex_dump_digits: "\<forall>c \<in> set (ngx_hex_dump xs). is_digit c \<or> is_hex_letter c"
  by (induction xs) (simp_all add: hex_lower_val nibbles)

lemma hex_val_dump: "hex_val (ngx_hex_dump xs) = be_val xs"
proof (induction xs)
  case (Cons x xs)
  have p: "(16 :: nat) ^ (n * 2) = 256 ^ n" for n by (simp only: mult.commute [of n 2] power_mult) simp
  have "16 ^ Suc (2 * length xs) * hval (hex_lower ! unat (drop_bit 4 x)) +
      16 ^ (2 * length xs) * hval (hex_lower ! unat (x AND 0xf)) = 256 ^ length xs * unat x"
    by (simp only: hex_lower_val(2) [OF nibbles(1)] hex_lower_val(2) [OF nibbles(2)]
      unat_nibbles [of x, symmetric]) (simp add: p algebra_simps)
  with Cons show ?case by (simp only: ngx_hex_dump.simps num_val_Cons list.size length_hex_dump)
      (simp add: length_hex_dump)
qed simp

lemma be_val_less: "be_val xs < 256 ^ length xs"
proof (rule num_val_less)
  show "\<forall>c \<in> set xs. unat c < 256" using unsigned_less [where ?'b = 8 and ?'a = nat] by simp
qed simp

text \<open>
  \<open>ngx_hextoi\<close> reads the dump of up to seven bytes back as the number they denote,
  and the dump has two digits for every byte.
\<close>
theorem ngx_hex_dump_hextoi:
  assumes "xs \<noteq> []" and "length xs \<le> 7"
  shows "ngx_hextoi (ngx_hex_dump xs) = of_nat (be_val xs) \<and>
    length (ngx_hex_dump xs) = 2 * length xs"
proof -
  have "be_val xs < 2 ^ 63"
  proof -
    have "(256 :: nat) ^ length xs \<le> 256 ^ 7" using assms(2) by (rule power_increasing) simp
    with be_val_less [of xs] show ?thesis by simp
  qed
  moreover have "ngx_hex_dump xs \<noteq> []" using assms(1) length_hex_dump [of xs] by (cases xs) auto
  ultimately show ?thesis
    using ngx_hextoi_small [OF _ hex_dump_digits] by (simp add: hex_val_dump length_hex_dump)
qed

theorem ngx_hex_dump_hextoi_witness:
  "ngx_hextoi (ngx_hex_dump [0x1f, 0xa0]) = 0x1fa0"
  using ngx_hex_dump_hextoi [of "[0x1f, 0xa0]"] by (simp add: num_val_def)

end
