(* ===== verification/NgxPrint.thy ===== *)
theory NgxPrint
  imports NgxEscape
begin

unbundle bit_operations_syntax

text \<open>
  Formatted output: \<open>ngx_vslprintf\<close> and \<open>ngx_sprintf_num\<close> of src/core/ngx_string.c, which all log
  lines, headers and dates go through. The buffer is the number \<open>room\<close> of bytes up to \<open>last\<close>, the
  result is the bytes that were written; a format is the list of its bytes without the terminating
  null byte. \<open>None\<close> is an execution without defined behaviour: an argument that is missing or of
  another type, or a read behind a string or behind the format.
\<close>

section \<open>Arguments\<close>

text \<open>
  What \<open>va_arg\<close> gives: an integer of 32 or 64 bits, the memory a \<open>char *\<close> points to, the string
  of a \<open>ngx_str_t\<close> or a variable value. A \<open>double\<close> enters by the conversions that the code applies
  to it: whether it is negative, the integer part of its absolute value, and the fraction of that,
  scaled and rounded.
\<close>

record dbl =
  d_neg :: bool
  d_int :: u64
  d_frac :: "u64 \<Rightarrow> u64"

datatype va =
  va_int u32 | va_long u64 | va_str "byte list" | va_V "byte list" | va_v "byte list" | va_double dbl

section \<open>Numbers\<close>

definition hex_upper :: "byte list" where
  "hex_upper = bytes ''0123456789ABCDEF''"

lemma unat_div_less: "n div k \<noteq> 0 \<Longrightarrow> 1 < unat k \<Longrightarrow> unat (n div k) < unat n"
  for n k :: "'a :: len word"
proof -
  assume a: "n div k \<noteq> 0" "1 < unat k"
  then have "unat n \<noteq> 0" by (metis div_0 unat_div unat_eq_zero)
  with a(2) show ?thesis by (simp add: unat_div)
qed

text \<open>The loops that write digits before \<open>p\<close>.\<close>

function dec32 :: "u32 \<Rightarrow> byte list \<Rightarrow> byte list" where
  "dec32 n p =
     (let p = (ucast (n mod 10) + asc CHR ''0'') # p; n' = n div 10
      in if n' \<noteq> 0 then dec32 n' p else p)"
  by pat_completeness auto
termination
  by (relation "measure (\<lambda>(n, p). unat n)") (auto intro!: unat_div_less)

function dec64 :: "u64 \<Rightarrow> byte list \<Rightarrow> byte list" where
  "dec64 n p =
     (let p = (ucast (n mod 10) + asc CHR ''0'') # p; n' = n div 10
      in if n' \<noteq> 0 then dec64 n' p else p)"
  by pat_completeness auto
termination
  by (relation "measure (\<lambda>(n, p). unat n)") (auto intro!: unat_div_less)

function hexd :: "byte list \<Rightarrow> u64 \<Rightarrow> byte list \<Rightarrow> byte list" where
  "hexd digits n p =
     (let p = digits ! unat (n AND 0xf) # p; n' = drop_bit 4 n
      in if n' \<noteq> 0 then hexd digits n' p else p)"
  by pat_completeness auto
termination
  by (relation "measure (\<lambda>(digits, n, p). unat n)")
    (auto simp: drop_bit_eq_div intro!: unat_div_less)

declare dec32.simps [simp del] dec64.simps [simp del] hexd.simps [simp del]

definition ngx_sprintf_num :: "nat \<Rightarrow> u64 \<Rightarrow> byte \<Rightarrow> nat \<Rightarrow> u64 \<Rightarrow> byte list" where
  "ngx_sprintf_num room ui64 zero hexadecimal width =
     (let p = (if hexadecimal = 0 then
                 (if ui64 \<le> 0xffffffff then dec32 (ucast ui64) [] else dec64 ui64 [])
               else if hexadecimal = 1 then hexd hex_lower ui64 []
               else hexd hex_upper ui64 []);
          pad = min (unat width - length p) room
      in replicate pad zero @ take (room - pad) p)"

section \<open>Directives\<close>

text \<open>The variables that the flags of a directive set.\<close>

record pflags =
  pf_sign :: bool
  pf_hex :: nat
  pf_max :: bool
  pf_frac :: u64
  pf_slen :: u64

definition pflags0 :: pflags where
  "pflags0 = \<lparr>pf_sign = True, pf_hex = 0, pf_max = False, pf_frac = 0, pf_slen = -1\<rparr>"

fun scan_width :: "u64 \<Rightarrow> byte list \<Rightarrow> u64 \<times> byte list" where
  "scan_width width [] = (width, [])"
| "scan_width width (c # fmt) =
     (if asc CHR ''0'' \<le> c \<and> c \<le> asc CHR ''9''
      then scan_width (width * 10 + ucast c - 0x30) fmt
      else (width, c # fmt))"

fun scan_flags :: "pflags \<Rightarrow> byte list \<Rightarrow> va list \<Rightarrow> (pflags \<times> byte list \<times> va list) option" where
  "scan_flags f [] args = Some (f, [], args)"
| "scan_flags f (c # fmt) args =
     (if c = asc CHR ''u'' then scan_flags (f\<lparr>pf_sign := False\<rparr>) fmt args
      else if c = asc CHR ''m'' then scan_flags (f\<lparr>pf_max := True\<rparr>) fmt args
      else if c = asc CHR ''X'' then scan_flags (f\<lparr>pf_hex := 2, pf_sign := False\<rparr>) fmt args
      else if c = asc CHR ''x'' then scan_flags (f\<lparr>pf_hex := 1, pf_sign := False\<rparr>) fmt args
      else if c = asc CHR ''.'' then
        (case scan_width (pf_frac f) fmt of (frac, fmt) \<Rightarrow> Some (f\<lparr>pf_frac := frac\<rparr>, fmt, args))
      else if c = asc CHR ''*'' then
        (case args of va_long n # args \<Rightarrow> scan_flags (f\<lparr>pf_slen := n\<rparr>) fmt args | _ \<Rightarrow> None)
      else Some (f, c # fmt, args))"

text \<open>
  The integer conversions: the flag \<open>sign\<close>, and \<open>i64\<close> or \<open>ui64\<close>. An \<open>int\<close> is extended to
  64 bits by its sign if it is taken as one.
\<close>

definition long_arg :: "bool \<Rightarrow> va list \<Rightarrow> ((bool \<times> u64) \<times> va list) option" where
  "long_arg s args = (case args of va_long n # args \<Rightarrow> Some ((s, n), args) | _ \<Rightarrow> None)"

definition int_arg :: "bool \<Rightarrow> va list \<Rightarrow> ((bool \<times> u64) \<times> va list) option" where
  "int_arg s args = (case args of va_int n # args \<Rightarrow> Some ((s, if s then scast n else ucast n), args) | _ \<Rightarrow> None)"

definition num_arg :: "pflags \<Rightarrow> byte \<Rightarrow> va list \<Rightarrow> ((bool \<times> u64) \<times> va list) option" where
  "num_arg f c args =
     (if c \<in> {asc CHR ''O'', asc CHR ''T'', asc CHR ''r''} then long_arg True args
      else if c = asc CHR ''P'' then int_arg True args
      else if c = asc CHR ''M'' then
        (case long_arg False args of
           None \<Rightarrow> None
         | Some ((s, ms), args) \<Rightarrow> Some ((if ms = -1 then (True, -1) else (False, ms)), args))
      else if c \<in> {asc CHR ''z'', asc CHR ''i'', asc CHR ''l'', asc CHR ''L'', asc CHR ''A''} then
        long_arg (pf_sign f) args
      else if c \<in> {asc CHR ''d'', asc CHR ''D''} then int_arg (pf_sign f) args
      else if c = asc CHR ''p'' then long_arg False args
      else None)"

definition num_conv :: "byte set" where
  "num_conv = set (bytes ''OPTMzidlDLArp'')"

definition conv_num :: "nat \<Rightarrow> byte \<Rightarrow> u64 \<Rightarrow> pflags \<Rightarrow> byte \<Rightarrow> va list \<Rightarrow> (byte list \<times> va list) option" where
  "conv_num room zero width f c args =
     (case num_arg f c args of
        None \<Rightarrow> None
      | Some ((sign, n), args) \<Rightarrow>
          let (zero, hexadecimal, width) =
                (if c = asc CHR ''p'' then (asc CHR ''0'', 2, 16)
                 else (zero, pf_hex f,
                       if pf_max f \<and> c \<in> {asc CHR ''i'', asc CHR ''A''} then 20 else width))
          in Some (if sign \<and> n <s 0
                   then asc CHR ''-'' # ngx_sprintf_num (room - 1) (- n) zero hexadecimal width
                   else ngx_sprintf_num room n zero hexadecimal width, args))"

text \<open>\<open>%f\<close>: the loop that computes \<open>scale\<close> may wrap around.\<close>

definition conv_double :: "nat \<Rightarrow> byte \<Rightarrow> u64 \<Rightarrow> pflags \<Rightarrow> dbl \<Rightarrow> byte list" where
  "conv_double room zero width f d =
     (let out = (if d_neg d then [asc CHR ''-''] else []);
          scale = 10 ^ unat (pf_frac f);
          frac = (if pf_frac f \<noteq> 0 then d_frac d scale else 0);
          (ui64, frac) = (if pf_frac f \<noteq> 0 \<and> frac = scale then (d_int d + 1, 0) else (d_int d, frac));
          out = out @ ngx_sprintf_num (room - length out) ui64 zero 0 width
      in if pf_frac f \<noteq> 0 then
           (let out = (if length out < room then out @ [asc CHR ''.''] else out)
            in out @ ngx_sprintf_num (room - length out) frac (asc CHR ''0'') 0 (pf_frac f))
         else out)"

text \<open>\<open>%s\<close>: the loop looks at the next byte of the string before it looks at the room.\<close>

definition conv_str :: "nat \<Rightarrow> u64 \<Rightarrow> byte list \<Rightarrow> byte list option" where
  "conv_str room slen p =
     (if slen = -1 then
        (if NUL \<in> set p \<or> room < length p then Some (take room (takeWhile (\<lambda>c. c \<noteq> NUL) p)) else None)
      else let len = min room (unat slen) in if len \<le> length p then Some (take len p) else None)"

text \<open>The second switch: what a directive writes, and the arguments that are left.\<close>

definition conv :: "nat \<Rightarrow> byte \<Rightarrow> u64 \<Rightarrow> pflags \<Rightarrow> byte \<Rightarrow> va list \<Rightarrow> (byte list \<times> va list) option" where
  "conv room zero width f c args =
     (if c = asc CHR ''V'' then
        (case args of va_V v # args \<Rightarrow> Some (take room v, args) | _ \<Rightarrow> None)
      else if c = asc CHR ''v'' then
        (case args of va_v v # args \<Rightarrow> Some (take room v, args) | _ \<Rightarrow> None)
      else if c = asc CHR ''s'' then
        (case args of
           va_str p # args \<Rightarrow> map_option (\<lambda>s. (s, args)) (conv_str room (pf_slen f) p)
         | _ \<Rightarrow> None)
      else if c = asc CHR ''f'' then
        (case args of va_double d # args \<Rightarrow> Some (conv_double room zero width f d, args) | _ \<Rightarrow> None)
      else if c = asc CHR ''c'' then
        (case args of va_int d # args \<Rightarrow> Some ([ucast d], args) | _ \<Rightarrow> None)
      else if c = asc CHR ''Z'' then Some ([NUL], args)
      else if c = asc CHR ''N'' then Some ([LF], args)
      else if c = asc CHR ''%'' then Some ([asc CHR ''%''], args)
      else if c \<in> num_conv then conv_num room zero width f c args
      else Some ([c], args))"

lemma scan_width_le: "scan_width w fmt = (w', fmt') \<Longrightarrow> length fmt' \<le> length fmt"
  by (induction w fmt rule: scan_width.induct) (auto split: if_splits)

lemma scan_flags_le: "scan_flags f fmt args = Some (f', fmt', args') \<Longrightarrow> length fmt' \<le> length fmt"
proof (induction fmt arbitrary: f args)
  case (Cons c fmt)
  from Cons.prems show ?case
    by (auto dest!: Cons.IH dest: scan_width_le split: if_split_asm prod.split_asm list.split_asm va.split_asm)
qed simp

text \<open>
  The loop. A directive that the format ends in writes the terminating null byte and goes on
  behind it.
\<close>

function ngx_vslprintf :: "nat \<Rightarrow> byte list \<Rightarrow> va list \<Rightarrow> byte list option" where
  "ngx_vslprintf room [] args = Some []"
| "ngx_vslprintf room (c # fmt) args =
     (if room = 0 then Some []
      else if c \<noteq> asc CHR ''%'' then map_option (Cons c) (ngx_vslprintf (room - 1) fmt args)
      else let zero = (if fmt \<noteq> [] \<and> hd fmt = asc CHR ''0'' then asc CHR ''0'' else SP);
               (width, fmt1) = scan_width 0 fmt
           in case scan_flags pflags0 fmt1 args of
                Some (f, c # fmt2, args1) \<Rightarrow>
                  (case conv room zero width f c args1 of
                     None \<Rightarrow> None
                   | Some (out, args2) \<Rightarrow> map_option (append out) (ngx_vslprintf (room - length out) fmt2 args2))
              | _ \<Rightarrow> None)"
  by pat_completeness auto
termination
  by (relation "measure (\<lambda>(room, fmt, args). length fmt)")
    (auto dest!: scan_width_le [OF sym] scan_flags_le)

text \<open>\<open>ngx_snprintf\<close> and \<open>ngx_slprintf\<close> set \<open>last\<close>; for \<open>ngx_sprintf\<close> there is no end.\<close>

definition ngx_snprintf :: "nat \<Rightarrow> byte list \<Rightarrow> va list \<Rightarrow> byte list option" where
  "ngx_snprintf m fmt args = ngx_vslprintf m fmt args"

definition ngx_sprintf :: "byte list \<Rightarrow> va list \<Rightarrow> byte list option" where
  "ngx_sprintf fmt args = ngx_vslprintf (2 ^ 64 - 1) fmt args"


section \<open>Numbers in a narrow buffer\<close>

definition num_text :: "u64 \<Rightarrow> byte \<Rightarrow> nat \<Rightarrow> u64 \<Rightarrow> byte list" where
  "num_text n zero hexadecimal width =
     (let p = (if hexadecimal = 0 then
                 (if n \<le> 0xffffffff then dec32 (ucast n) [] else dec64 n [])
               else if hexadecimal = 1 then hexd hex_lower n []
               else hexd hex_upper n [])
      in replicate (unat width - length p) zero @ p)"

lemma sprintf_num_take: "ngx_sprintf_num room n zero h width = take room (num_text n zero h width)"
  by (auto simp: ngx_sprintf_num_def num_text_def Let_def min_def)

lemma take_Cons_pos: "0 < r \<Longrightarrow> take r (x # xs) = x # take (r - 1) xs"
  by (cases r) simp_all

lemma conv_num_take:
  assumes "conv_num r1 zero width f c args = Some (out, args')" "0 < r2" "r2 \<le> r1"
  shows "conv_num r2 zero width f c args = Some (take r2 out, args') \<and> length out \<le> r1"
proof -
  obtain sign n args1 where n: "num_arg f c args = Some ((sign, n), args1)"
    using assms(1) by (auto simp: conv_num_def split: option.splits)
  obtain z h w where v: "(if c = asc CHR ''p'' then (asc CHR ''0'', 2, 16)
      else (zero, pf_hex f, if pf_max f \<and> c \<in> {asc CHR ''i'', asc CHR ''A''} then 20 else width)) = (z, h, w)"
    by (metis surj_pair)
  define t where "t = (if sign \<and> n <s 0 then asc CHR ''-'' # num_text (- n) z h w else num_text n z h w)"
  have "conv_num r zero width f c args = Some (take r t, args1)" if "0 < r" for r
    unfolding conv_num_def n option.case prod.case Let_def v t_def sprintf_num_take using that
    by (simp add: take_Cons_pos)
  with assms show ?thesis by (auto simp: min_def)
qed

definition double_text :: "byte \<Rightarrow> u64 \<Rightarrow> pflags \<Rightarrow> dbl \<Rightarrow> byte list" where
  "double_text zero width f d =
     (let scale = 10 ^ unat (pf_frac f);
          frac = (if pf_frac f \<noteq> 0 then d_frac d scale else 0);
          (ui64, frac) = (if pf_frac f \<noteq> 0 \<and> frac = scale then (d_int d + 1, 0) else (d_int d, frac))
      in (if d_neg d then [asc CHR ''-''] else []) @ num_text ui64 zero 0 width @
         (if pf_frac f \<noteq> 0 then asc CHR ''.'' # num_text frac (asc CHR ''0'') 0 (pf_frac f) else []))"

lemma take_app: "xs = take r ys \<Longrightarrow> xs @ take (r - length xs) zs = take r (ys @ zs)"
  by (auto simp: min_def)

lemma conv_double_take: "0 < r \<Longrightarrow> conv_double r zero width f d = take r (double_text zero width f d)"
proof -
  assume r: "0 < r"
  define sg where "sg = (if d_neg d then [asc CHR ''-''] else [])"
  have sg: "take r sg = sg" "length sg \<le> r" using r by (auto simp: sg_def)
  have 1: "sg @ take (r - length sg) n = take r (sg @ n)" for n using sg by simp
  have 2: "(if length (take r a) < r then take r a @ [x] else take r a) = take r (a @ [x])" for a and x :: byte
    by (auto simp: min_def not_less)
  have 3: "take r a @ take (r - length (take r a)) n = take r (a @ n)" for a n :: "byte list"
    by (auto simp: min_def)
  define scale where "scale = (10 :: u64) ^ unat (pf_frac f)"
  define frac where "frac = (if pf_frac f \<noteq> 0 then d_frac d scale else 0)"
  obtain ui fr where u: "(if pf_frac f \<noteq> 0 \<and> frac = scale then (d_int d + 1, 0) else (d_int d, frac)) = (ui, fr)"
    by (metis surj_pair)
  note lets = conv_double_def double_text_def Let_def sg_def [symmetric] scale_def [symmetric] frac_def [symmetric]
    u prod.case sprintf_num_take 1
  show ?thesis
  proof (cases "pf_frac f = 0")
    case True
    then show ?thesis unfolding lets by simp
  next
    case False
    then have "conv_double r zero width f d =
      take r ((sg @ num_text ui zero 0 width) @ [asc CHR ''.'']) @
        take (r - length (take r ((sg @ num_text ui zero 0 width) @ [asc CHR ''.'']))) (num_text fr (asc CHR ''0'') 0 (pf_frac f))"
      unfolding lets 2 by simp
    also have "\<dots> = take r (((sg @ num_text ui zero 0 width) @ [asc CHR ''.'']) @ num_text fr (asc CHR ''0'') 0 (pf_frac f))"
      by (rule 3)
    also have "\<dots> = take r (double_text zero width f d)"
      using False unfolding lets by simp
    finally show ?thesis .
  qed
qed

lemma conv_str_take:
  assumes "conv_str r1 slen p = Some out" "r2 \<le> r1"
  shows "conv_str r2 slen p = Some (take r2 out) \<and> length out \<le> r1"
  using assms by (auto simp: conv_str_def Let_def min_def split: if_split_asm)

lemma conv_take:
  assumes "conv r1 zero width f c args = Some (out, args')" "0 < r2" "r2 \<le> r1"
  shows "conv r2 zero width f c args = Some (take r2 out, args') \<and> length out \<le> r1"
proof -
  have one: "take r2 [x] = [x]" for x :: byte using assms(2) by (cases r2) simp_all
  have r1: "0 < r1" "Suc 0 \<le> r1" using assms by simp_all
  note split = if_split_asm list.split_asm va.split_asm
  let ?args = "{asc CHR ''V'', asc CHR ''v'', asc CHR ''s'', asc CHR ''f'', asc CHR ''c''}"
  let ?plain = "{asc CHR ''Z'', asc CHR ''N'', asc CHR ''%''}"
  have plain: "conv r zero width f c args = Some ([if c = asc CHR ''Z'' then NUL else if c = asc CHR ''N'' then LF else c], args)"
    if "c \<notin> ?args" "c \<in> ?plain \<or> c \<notin> num_conv" for r
    using that by (auto simp: conv_def)
  consider "c = asc CHR ''V''" | "c = asc CHR ''v''" | "c = asc CHR ''s''" | "c = asc CHR ''f''" | "c = asc CHR ''c''"
    | "c \<in> num_conv" "c \<notin> ?args" "c \<notin> ?plain" | "c \<notin> ?args" "c \<in> ?plain \<or> c \<notin> num_conv"
    by blast
  then show ?thesis
  proof cases
    case 1
    with assms show ?thesis by (auto simp: conv_def min_def split: split)
  next
    case 2
    with assms show ?thesis by (auto simp: conv_def min_def split: split)
  next
    case 3
    with assms conv_str_take [of r1 "pf_slen f" _ out r2] show ?thesis by (auto simp: conv_def split: split)
  next
    case 4
    with assms show ?thesis by (auto simp: conv_def conv_double_take min_def split: split)
  next
    case 5
    with assms one show ?thesis by (auto simp: conv_def split: split)
  next
    case 6
    with assms have "conv_num r1 zero width f c args = Some (out, args')"
      and e: "conv r2 zero width f c args = conv_num r2 zero width f c args"
      by (simp_all add: conv_def)
    with conv_num_take [OF this(1) assms(2,3)] show ?thesis by simp
  next
    case 7
    have "out = [if c = asc CHR ''Z'' then NUL else if c = asc CHR ''N'' then LF else c] \<and> args' = args"
      using assms(1) plain [OF 7, of r1] by simp
    with plain [OF 7, of r2] one r1 show ?thesis by simp
  qed
qed

lemma vslprintf_prefix:
  "ngx_vslprintf room fmt args = Some out \<Longrightarrow>
   length out \<le> room \<and> (\<forall>m \<le> room. ngx_vslprintf m fmt args = Some (take m out))"
proof (induction room fmt args arbitrary: out rule: ngx_vslprintf.induct)
  case (2 room c fmt args)
  show ?case
  proof (cases "room = 0 \<or> c \<noteq> asc CHR ''%''")
    case True
    show ?thesis
    proof (cases "room = 0")
      case False
      with True "2.prems" obtain o1 where o: "ngx_vslprintf (room - 1) fmt args = Some o1" "out = c # o1" by auto
      from "2.IH"(1) [OF False] True False o have IH: "length o1 \<le> room - 1"
        "\<forall>m \<le> room - 1. ngx_vslprintf m fmt args = Some (take m o1)" by auto
      have "ngx_vslprintf m (c # fmt) args = Some (take m out)" if "m \<le> room" for m
      proof (cases m)
        case (Suc k)
        with that IH(2) False have "ngx_vslprintf k fmt args = Some (take k o1)" by simp
        with Suc True False show ?thesis by (simp add: o)
      qed simp
      with IH(1) False show ?thesis by (simp add: o)
    qed (use "2.prems" in simp)
  next
    case False
    let ?z = "if fmt \<noteq> [] \<and> hd fmt = asc CHR ''0'' then asc CHR ''0'' else SP"
    obtain width fmt1 where w: "scan_width 0 fmt = (width, fmt1)" by (metis surj_pair)
    from "2.prems" False w obtain f c2 fmt2 args1 where f: "scan_flags pflags0 fmt1 args = Some (f, c2 # fmt2, args1)"
      by (auto simp: Let_def split: option.splits list.splits)
    from "2.prems" False w f obtain o1 args2 where o: "conv room ?z width f c2 args1 = Some (o1, args2)"
      by (auto simp: Let_def split: option.splits)
    from "2.prems" False w f o obtain o2 where o2: "ngx_vslprintf (room - length o1) fmt2 args2 = Some o2" "out = o1 @ o2"
      by (auto simp: Let_def)
    from "2.IH"(2) [of ?z "(width, fmt1)"] False w f o o2(1)
    have IH: "length o2 \<le> room - length o1" "\<forall>m \<le> room - length o1. ngx_vslprintf m fmt2 args2 = Some (take m o2)"
      by auto
    have len: "length o1 \<le> room" using conv_take [OF o, of room] False by simp
    have "ngx_vslprintf m (c # fmt) args = Some (take m out)" if m: "m \<le> room" for m
    proof (cases "m = 0")
      case nz: False
      from conv_take [OF o, of m] nz m have "conv m ?z width f c2 args1 = Some (take m o1, args2)" by simp
      moreover have "ngx_vslprintf (m - length (take m o1)) fmt2 args2 = Some (take (m - length o1) o2)"
        using IH(2) m by (auto simp: min_def)
      ultimately show ?thesis using nz False w f by (simp add: Let_def o2(2))
    qed simp
    with IH(1) len show ?thesis by (simp add: o2(2))
  qed
qed simp

text \<open>
  Claim C40. A buffer that is too small gets the beginning of what a large one gets, whatever the
  format and the arguments; so nothing is ever written behind \<open>last\<close>, and a shorter buffer does not
  read more of the arguments.
\<close>
theorem vslprintf_truncates:
  assumes "ngx_vslprintf room fmt args = Some out"
  shows "length out \<le> room \<and> (\<forall>m \<le> room. ngx_snprintf m fmt args = Some (take m out))"
  using vslprintf_prefix [OF assms] by (simp add: ngx_snprintf_def)

section \<open>What a format means\<close>

text \<open>
  A format as a list of items: plain text, the strings, and numbers with a width, padded with
  zeros or with spaces. The padding stands behind the minus, which it does not count.
\<close>

datatype mode = m_int | m_long | m_uint | m_ulong | m_hex | m_HEX

datatype item = i_text "byte list" | i_s "byte list" | i_V "byte list" | i_num bool nat mode int

fun to_hex :: "byte list \<Rightarrow> nat \<Rightarrow> byte list" where
  "to_hex tab n = (if n < 16 then [tab ! n] else to_hex tab (n div 16) @ [tab ! (n mod 16)])"

declare to_hex.simps [simp del]

fun letters :: "mode \<Rightarrow> byte list" where
  "letters m_int = bytes ''d''"
| "letters m_long = bytes ''L''"
| "letters m_uint = bytes ''ud''"
| "letters m_ulong = bytes ''uL''"
| "letters m_hex = bytes ''xL''"
| "letters m_HEX = bytes ''XL''"

fun mode_body :: "mode \<Rightarrow> nat \<Rightarrow> byte list" where
  "mode_body m_hex n = to_hex hex_lower n"
| "mode_body m_HEX n = to_hex hex_upper n"
| "mode_body m n = to_dec n"

fun mode_ok :: "mode \<Rightarrow> int \<Rightarrow> bool" where
  "mode_ok m_int n \<longleftrightarrow> - (2 ^ 31) \<le> n \<and> n < 2 ^ 31"
| "mode_ok m_long n \<longleftrightarrow> - (2 ^ 63) \<le> n \<and> n < 2 ^ 63"
| "mode_ok m_uint n \<longleftrightarrow> 0 \<le> n \<and> n < 2 ^ 32"
| "mode_ok m n \<longleftrightarrow> 0 \<le> n \<and> n < 2 ^ 64"

fun item_fmt :: "item \<Rightarrow> byte list" where
  "item_fmt (i_text t) = t"
| "item_fmt (i_s s) = bytes ''%s''"
| "item_fmt (i_V s) = bytes ''%V''"
| "item_fmt (i_num zero w m n) =
     bytes ''%'' @ (if zero then bytes ''0'' else []) @ (if w = 0 then [] else to_dec w) @ letters m"

fun item_args :: "item \<Rightarrow> va list" where
  "item_args (i_text t) = []"
| "item_args (i_s s) = [va_str (s @ [NUL])]"
| "item_args (i_V s) = [va_V s]"
| "item_args (i_num zero w m n) = [if m = m_int \<or> m = m_uint then va_int (of_int n) else va_long (of_int n)]"

fun item_out :: "item \<Rightarrow> byte list" where
  "item_out (i_text t) = t"
| "item_out (i_s s) = s"
| "item_out (i_V s) = s"
| "item_out (i_num zero w m n) =
     (let b = mode_body m (nat \<bar>n\<bar>)
      in (if n < 0 then bytes ''-'' else []) @ replicate (w - length b) (if zero then asc CHR ''0'' else SP) @ b)"

fun item_ok :: "item \<Rightarrow> bool" where
  "item_ok (i_text t) \<longleftrightarrow> asc CHR ''%'' \<notin> set t"
| "item_ok (i_s s) \<longleftrightarrow> NUL \<notin> set s"
| "item_ok (i_V s) \<longleftrightarrow> True"
| "item_ok (i_num zero w m n) \<longleftrightarrow> w < 2 ^ 64 \<and> mode_ok m n"

lemma digit_word: "ucast (n :: 'a :: len word) + asc CHR ''0'' = digit (unat n)"
  by (simp add: digit_def of_nat_unat)

lemma dec64_eq: "dec64 n p = to_dec (unat n) @ p"
proof (induction n p rule: dec64.induct)
  case (1 n p)
  have u: "unat (n div 10) = unat n div 10" "unat (n mod 10) = unat n mod 10" by (simp_all add: unat_div unat_mod)
  have d: "ucast (n mod 10) + asc CHR ''0'' = digit (unat n mod 10)"
    using digit_word [of "n mod 10"] by (simp only: u)
  show ?case
  proof (cases "n div 10 = 0")
    case True
    then have "unat n div 10 = 0" using u(1) by simp
    then have "unat n < 10" by simp
    with d show ?thesis by (subst dec64.simps) (simp add: Let_def True to_dec_small)
  next
    case False
    then have "unat n div 10 \<noteq> 0" using u(1) by (metis unat_eq_zero)
    then have "10 \<le> unat n" by linarith
    with "1.IH" [OF refl refl False] d show ?thesis
      by (subst dec64.simps) (simp add: Let_def False u to_dec_big)
  qed
qed

lemma dec32_eq: "dec32 n p = to_dec (unat n) @ p"
proof (induction n p rule: dec32.induct)
  case (1 n p)
  have u: "unat (n div 10) = unat n div 10" "unat (n mod 10) = unat n mod 10" by (simp_all add: unat_div unat_mod)
  have d: "ucast (n mod 10) + asc CHR ''0'' = digit (unat n mod 10)"
    using digit_word [of "n mod 10"] by (simp only: u)
  show ?case
  proof (cases "n div 10 = 0")
    case True
    then have "unat n div 10 = 0" using u(1) by simp
    then have "unat n < 10" by simp
    with d show ?thesis by (subst dec32.simps) (simp add: Let_def True to_dec_small)
  next
    case False
    then have "unat n div 10 \<noteq> 0" using u(1) by (metis unat_eq_zero)
    then have "10 \<le> unat n" by linarith
    with "1.IH" [OF refl refl False] d show ?thesis
      by (subst dec32.simps) (simp add: Let_def False u to_dec_big)
  qed
qed

lemma dec_eq: "(if n \<le> 0xffffffff then dec32 (ucast n) [] else dec64 n []) = to_dec (unat n)"
proof (cases "n \<le> 0xffffffff")
  case True
  then have "unat n < 2 ^ 32" by (simp add: word_le_nat_alt)
  then show ?thesis by (simp add: True dec32_eq unsigned_ucast_eq take_bit_nat_eq_self)
qed (simp add: dec64_eq)

lemma nibble: "unat (n AND 0xf) = unat n mod 16" for n :: u64
proof -
  have "n AND 0xf = take_bit 4 n" by (simp add: take_bit_eq_mask mask_eq_exp_minus_1)
  then show ?thesis by (simp add: unsigned_take_bit_eq take_bit_eq_mod unat_mod)
qed

lemma hexd_eq: "hexd tab n p = to_hex tab (unat n) @ p"
proof (induction tab n p rule: hexd.induct)
  case (1 tab n p)
  have u: "unat (drop_bit 4 n) = unat n div 16" "unat (n AND 0xf) = unat n mod 16"
    
    by (simp_all add: drop_bit_eq_div unat_div nibble)
  show ?case
  proof (cases "drop_bit 4 n = 0")
    case True
    then have "unat n div 16 = 0" using u(1) by simp
    then have "unat n < 16" by simp
    then show ?thesis by (subst hexd.simps, subst to_hex.simps) (simp add: Let_def True u)
  next
    case False
    then have "unat n div 16 \<noteq> 0" using u(1) by (metis unat_eq_zero)
    then have "\<not> unat n < 16" by simp
    with "1.IH" [OF refl refl False] show ?thesis
      by (subst hexd.simps, subst to_hex.simps) (simp add: Let_def False u)
  qed
qed

lemma scan_width_digits:
  "list_all is_digit ds \<Longrightarrow> rest = [] \<or> \<not> is_digit (hd rest) \<Longrightarrow>
   scan_width (of_nat v) (ds @ rest) = (of_nat (v * 10 ^ length ds + dec_val ds), rest)"
proof (induction ds arbitrary: v)
  case Nil
  then show ?case by (cases rest) (auto simp: is_digit_def)
next
  case (Cons c ds)
  have "of_nat v * 10 + ucast c - 0x30 = (of_nat (v * 10 + dval c) :: u64)"
  proof -
    have "unat c = 48 + dval c" using Cons.prems(1) by (simp add: dval_unat is_digit_unat)
    then have "(ucast c :: u64) = of_nat (48 + dval c)" by (metis of_nat_unat)
    then show ?thesis by simp
  qed
  moreover have "asc CHR ''0'' \<le> c \<and> c \<le> asc CHR ''9''" using Cons.prems(1) by (simp add: is_digit_def)
  ultimately have "scan_width (of_nat v) ((c # ds) @ rest) = scan_width (of_nat (v * 10 + dval c)) (ds @ rest)"
    by (simp only: append_Cons scan_width.simps if_True simp_thms)
  also have "\<dots> = (of_nat ((v * 10 + dval c) * 10 ^ length ds + dec_val ds), rest)"
    using Cons.prems by (intro Cons.IH) simp_all
  also have "(v * 10 + dval c) * 10 ^ length ds + dec_val ds = v * 10 ^ length (c # ds) + dec_val (c # ds)"
    by (simp add: num_val_Cons add_mult_distrib)
  finally show ?case .
qed

lemma to_dec_first: "0 < n \<Longrightarrow> hd (to_dec n) \<noteq> asc CHR ''0''"
proof (induction n rule: to_dec.induct)
  case (1 n)
  show ?case
  proof (cases "n < 10")
    case True
    then have "digit n \<noteq> digit 0" using 1(2) digit_props(2) by (metis less_irrefl zero_less_numeral)
    then show ?thesis using True by (simp add: to_dec_small digit_def)
  next
    case False
    with 1 show ?thesis by (simp add: to_dec_big not_less hd_append)
  qed
qed

lemma scan_width_item:
  assumes "w < 2 ^ 64" "rest = [] \<or> \<not> is_digit (hd rest)"
  shows "scan_width 0 ((if zero then bytes ''0'' else []) @ (if w = 0 then [] else to_dec w) @ rest) = (of_nat w, rest)"
proof -
  let ?ds = "(if zero then bytes ''0'' else []) @ (if w = 0 then [] else to_dec w)"
  have "list_all is_digit ?ds" using to_dec_digits [of w] by (auto simp: list_all_iff is_digit_def)
  moreover have "dec_val ?ds = w" by (simp add: num_val_append num_val_Cons dval_def)
  ultimately show ?thesis using scan_width_digits [of ?ds rest 0] assms(2) by simp
qed

lemma letters_scan:
  "letters m = fl @ [c] \<Longrightarrow> scan_flags pflags0 (letters m @ fmt) args =
     Some (pflags0\<lparr>pf_sign := m \<in> {m_int, m_long},
       pf_hex := (if m = m_hex then 1 else if m = m_HEX then 2 else 0)\<rparr>, c # fmt, args)"
  by (cases m) (auto simp: pflags0_def)

lemma vslprintf_0 [simp]: "ngx_vslprintf 0 fmt args = Some []"
  by (cases fmt) simp_all

lemma num_arg_item:
  assumes "mode_ok m n" "letters m = fl @ [c]"
  shows "\<exists>v. num_arg (pflags0\<lparr>pf_sign := m \<in> {m_int, m_long},
       pf_hex := (if m = m_hex then 1 else if m = m_HEX then 2 else 0)\<rparr>) c (item_args (i_num zero w m n) @ args) =
     Some ((m \<in> {m_int, m_long}, v), args) \<and>
     (m \<in> {m_int, m_long} \<longrightarrow> (v <s 0 \<longleftrightarrow> n < 0)) \<and>
     unat (if n < 0 then - v else v) = nat \<bar>n\<bar> \<and> c \<in> num_conv \<and>
     c \<notin> set (bytes ''VvsfcZN%piA'')"
proof -
  have long: "(of_int n :: u64) <s 0 \<longleftrightarrow> n < 0" if "- (2 ^ 63) \<le> n" "n < 2 ^ 63"
    using that by (simp add: word_sless_alt signed_of_int signed_take_bit_int_eq_self)
  have abs: "unat (if n < 0 then - of_int n else of_int n :: u64) = nat \<bar>n\<bar>" if "\<bar>n\<bar> < 2 ^ 64"
  proof -
    have "(if n < 0 then - of_int n else of_int n :: u64) = of_nat (nat \<bar>n\<bar>)" by simp
    moreover have "nat \<bar>n\<bar> < 2 ^ 64" using that by (simp add: nat_less_iff)
    ultimately show ?thesis by (simp only: unat_of_nat take_bit_nat_eq_self_iff) (simp add: take_bit_nat_eq_self)
  qed
  have i: "(scast (of_int n :: u32) :: u64) = of_int n" if "- (2 ^ 31) \<le> n" "n < 2 ^ 31"
    using that by (simp add: scast_eq signed_of_int signed_take_bit_int_eq_self)
  have u: "(ucast (of_int n :: u32) :: u64) = of_int n" if "0 \<le> n" "n < 2 ^ 32"
    using that by (simp add: unsigned_of_int take_bit_int_eq_self)
  show ?thesis
    using assms long abs i u
    by (cases m) (auto simp: num_arg_def long_arg_def int_arg_def num_conv_def pflags0_def)
qed

lemma num_item:
  assumes ok: "w < 2 ^ 64" "mode_ok m n" and r: "0 < room" "length (item_out (i_num zero w m n)) \<le> room"
  shows "ngx_vslprintf room (item_fmt (i_num zero w m n) @ fmt) (item_args (i_num zero w m n) @ args) =
    map_option (append (item_out (i_num zero w m n)))
      (ngx_vslprintf (room - length (item_out (i_num zero w m n))) fmt args)"
proof -
  obtain fl c where l: "letters m = fl @ [c]" by (cases m) auto
  let ?pre = "(if zero then bytes ''0'' else []) @ (if w = 0 then [] else to_dec w)"
  let ?f = "pflags0\<lparr>pf_sign := m \<in> {m_int, m_long},
       pf_hex := (if m = m_hex then 1 else if m = m_HEX then 2 else 0)\<rparr>"
  let ?z = "if zero then asc CHR ''0'' else SP"
  have nd: "letters m @ fmt \<noteq> [] \<and> \<not> is_digit (hd (letters m @ fmt)) \<and> hd (letters m @ fmt) \<noteq> asc CHR ''0''"
    by (cases m) (auto simp: is_digit_def)
  have sw: "scan_width 0 (?pre @ letters m @ fmt) = (of_nat w, letters m @ fmt)"
    using scan_width_item [OF ok(1), of "letters m @ fmt" zero] nd by simp
  have z: "(if ?pre @ letters m @ fmt \<noteq> [] \<and> hd (?pre @ letters m @ fmt) = asc CHR ''0'' then asc CHR ''0'' else SP) = ?z"
    using nd to_dec_first [of w] by (cases m; cases zero) (auto simp: hd_append)
  from num_arg_item [OF ok(2) l, of zero w args] obtain v where v:
    "num_arg ?f c (item_args (i_num zero w m n) @ args) = Some ((m \<in> {m_int, m_long}, v), args)"
    "m \<in> {m_int, m_long} \<longrightarrow> (v <s 0 \<longleftrightarrow> n < 0)" "unat (if n < 0 then - v else v) = nat \<bar>n\<bar>"
    "c \<in> num_conv" "c \<notin> set (bytes ''VvsfcZN%piA'')" by blast
  have neg: "m \<in> {m_int, m_long} \<and> v <s 0 \<longleftrightarrow> n < 0" using v(2) ok(2) by (cases m) auto
  have body: "num_text x ?z (if m = m_hex then 1 else if m = m_HEX then 2 else 0) (of_nat w) =
     replicate (w - length (mode_body m (unat x))) ?z @ mode_body m (unat x)" for x
    using ok(1) unfolding num_text_def Let_def dec_eq hexd_eq
    by (cases m) (simp_all add: unat_of_nat take_bit_nat_eq_self)
  have cn: "conv_num room ?z (of_nat w) ?f c (item_args (i_num zero w m n) @ args) = Some (item_out (i_num zero w m n), args)"
  proof (cases "n < 0")
    case True
    with r(2) have "length (replicate (w - length (mode_body m (nat \<bar>n\<bar>))) ?z @ mode_body m (nat \<bar>n\<bar>)) \<le> room - 1"
      by (auto simp: Let_def)
    moreover have "num_text (- v) ?z (if m = m_hex then 1 else if m = m_HEX then 2 else 0) (of_nat w) =
        replicate (w - length (mode_body m (nat \<bar>n\<bar>))) ?z @ mode_body m (nat \<bar>n\<bar>)"
      using v(3) True unfolding body by simp
    ultimately have "take (room - 1) (num_text (- v) ?z (if m = m_hex then 1 else if m = m_HEX then 2 else 0) (of_nat w)) =
        replicate (w - length (mode_body m (nat \<bar>n\<bar>))) ?z @ mode_body m (nat \<bar>n\<bar>)"
      by (simp only: take_all)
    with v(1,5) neg True show ?thesis
      by (simp add: conv_num_def sprintf_num_take pflags0_def Let_def)
  next
    case False
    with r(2) have "length (replicate (w - length (mode_body m (nat \<bar>n\<bar>))) ?z @ mode_body m (nat \<bar>n\<bar>)) \<le> room"
      by (auto simp: Let_def)
    moreover have "num_text v ?z (if m = m_hex then 1 else if m = m_HEX then 2 else 0) (of_nat w) =
        replicate (w - length (mode_body m (nat \<bar>n\<bar>))) ?z @ mode_body m (nat \<bar>n\<bar>)"
      using v(3) False unfolding body by simp
    ultimately have "take room (num_text v ?z (if m = m_hex then 1 else if m = m_HEX then 2 else 0) (of_nat w)) =
        replicate (w - length (mode_body m (nat \<bar>n\<bar>))) ?z @ mode_body m (nat \<bar>n\<bar>)"
      by (simp only: take_all)
    with v(1,5) neg False show ?thesis
      by (auto simp: conv_num_def sprintf_num_take pflags0_def Let_def)
  qed
  have cv: "conv room ?z (of_nat w) ?f c (item_args (i_num zero w m n) @ args) = Some (item_out (i_num zero w m n), args)"
    using v(4,5) cn by (simp add: conv_def)
  have fl: "scan_flags pflags0 (letters m @ fmt) (item_args (i_num zero w m n) @ args) =
      Some (?f, c # fmt, item_args (i_num zero w m n) @ args)"
    by (rule letters_scan [OF l])
  have e: "item_fmt (i_num zero w m n) @ fmt = asc CHR ''%'' # (?pre @ letters m @ fmt)" by simp
  show ?thesis
    unfolding e ngx_vslprintf.simps z sw Let_def prod.case fl option.case list.case cv using r(1) by simp
qed

lemma map_append_Nil: "map_option (append []) x = x"
  by (cases x) simp_all

lemma text_item:
  "asc CHR ''%'' \<notin> set t \<Longrightarrow> length t \<le> room \<Longrightarrow>
   ngx_vslprintf room (t @ fmt) args = map_option (append t) (ngx_vslprintf (room - length t) fmt args)"
proof (induction t arbitrary: room)
  case (Cons c t)
  then have "ngx_vslprintf (room - 1) (t @ fmt) args = map_option (append t) (ngx_vslprintf (room - 1 - length t) fmt args)"
    by (intro Cons.IH) auto
  with Cons.prems show ?case by (simp add: option.map_comp comp_def)
qed (simp add: map_append_Nil)

lemma item_step:
  assumes "item_ok i" "length (item_out i) \<le> room"
  shows "ngx_vslprintf room (item_fmt i @ fmt) (item_args i @ args) =
    map_option (append (item_out i)) (ngx_vslprintf (room - length (item_out i)) fmt args)"
proof (cases "room = 0")
  case False
  show ?thesis
  proof (cases i)
    case (i_text t)
    with assms text_item show ?thesis by simp
  next
    case (i_s s)
    then have "NUL \<notin> set s" using assms(1) by simp
    then have "takeWhile (\<lambda>c. c \<noteq> NUL) (s @ [NUL]) = s" by (induction s) auto
    with False i_s assms show ?thesis by (simp add: Let_def pflags0_def conv_def conv_str_def)
  next
    case (i_V s)
    with False assms show ?thesis by (simp add: Let_def pflags0_def conv_def)
  next
    case (i_num zero w m n)
    with False assms num_item [of w m n room zero fmt args] show ?thesis by simp
  qed
qed (use assms(2) in simp)

lemma vslprintf_items:
  assumes "\<forall>i \<in> set items. item_ok i"
  shows "ngx_vslprintf m (concat (map item_fmt items)) (concat (map item_args items)) =
    Some (take m (concat (map item_out items)))"
proof -
  have full: "ngx_vslprintf room (concat (map item_fmt items)) (concat (map item_args items)) =
      Some (concat (map item_out items))" if "length (concat (map item_out items)) \<le> room" for room
    using assms that
  proof (induction items arbitrary: room)
    case (Cons i items)
    then have "ngx_vslprintf (room - length (item_out i)) (concat (map item_fmt items)) (concat (map item_args items)) =
      Some (concat (map item_out items))" by (intro Cons.IH) auto
    with Cons.prems item_step [of i room "concat (map item_fmt items)" "concat (map item_args items)"]
    show ?case by simp
  qed simp
  let ?r = "max m (length (concat (map item_out items)))"
  have "\<forall>m \<le> ?r. ngx_vslprintf m (concat (map item_fmt items)) (concat (map item_args items)) =
      Some (take m (concat (map item_out items)))"
    using vslprintf_prefix [OF full [of ?r]] by simp
  then show ?thesis by simp
qed

text \<open>
  Claim C39. Any format of plain text, strings and numbers, in any buffer: \<open>ngx_snprintf\<close> writes the
  texts of its items one after the other, cut at the end of the buffer.
\<close>
theorem snprintf_items:
  assumes "\<forall>i \<in> set items. item_ok i"
  shows "ngx_snprintf m (concat (map item_fmt items)) (concat (map item_args items)) =
    Some (take m (concat (map item_out items)))"
  unfolding ngx_snprintf_def by (rule vslprintf_items) fact

text \<open>The digits fit into \<open>temp\<close>, which has 20 bytes.\<close>

lemma num_fits:
  "length (if n \<le> 0xffffffff then dec32 (ucast n) [] else dec64 n []) \<le> 20"
  "length (hexd tab n []) \<le> 20"
proof -
  have n: "unat n < 2 ^ 64" using unsigned_less [of n] by simp
  show "length (if n \<le> 0xffffffff then dec32 (ucast n) [] else dec64 n []) \<le> 20"
    unfolding dec_eq using length_to_dec_le [of "unat n" 19] n by simp
  have hex: "m < 16 ^ Suc k \<Longrightarrow> length (to_hex tab m) \<le> Suc k" for m k
  proof (induction k arbitrary: m)
    case (Suc k)
    show ?case
    proof (cases "m < 16")
      case False
      from Suc.prems have "m div 16 < 16 ^ Suc k" by auto
      with Suc.IH False show ?thesis by (subst to_hex.simps) simp
    qed (subst to_hex.simps, simp)
  qed (subst to_hex.simps, simp)
  show "length (hexd tab n []) \<le> 20" unfolding hexd_eq using hex [of "unat n" 19] n by simp
qed

theorem snprintf_items_witness:
  "ngx_snprintf 8 (bytes ''%s: %04d'') [va_str (bytes ''id'' @ [NUL]), va_int (-7)] = Some (bytes ''id: -000'')"
proof -
  let ?items = "[i_s (bytes ''id''), i_text (bytes '': ''), i_num True 4 m_int (-7)]"
  have ok: "\<forall>i \<in> set ?items. item_ok i" by simp
  have "concat (map item_fmt ?items) = bytes ''%s: %04d''" by code_simp
  moreover have "concat (map item_args ?items) = [va_str (bytes ''id'' @ [NUL]), va_int (-7)]" by simp
  moreover have "take 8 (concat (map item_out ?items)) = bytes ''id: -000''" by code_simp
  ultimately show ?thesis using snprintf_items [OF ok, of 8] by (simp only:)
qed

theorem vslprintf_truncates_witness:
  "ngx_vslprintf 40 (bytes ''[%p] %*s %05.2f'') [va_long 255, va_long 3, va_str (bytes ''abcdef''),
     va_double \<lparr>d_neg = False, d_int = 3, d_frac = (\<lambda>scale. 14)\<rparr>] = Some (bytes ''[00000000000000FF] abc 00003.14'') \<and>
   ngx_snprintf 5 (bytes ''[%p] %*s %05.2f'') [va_long 255, va_long 3, va_str (bytes ''abcdef''),
     va_double \<lparr>d_neg = False, d_int = 3, d_frac = (\<lambda>scale. 14)\<rparr>] = Some (bytes ''[0000'')"
proof -
  let ?args = "[va_long 255, va_long 3, va_str (bytes ''abcdef''),
     va_double \<lparr>d_neg = False, d_int = 3, d_frac = (\<lambda>scale. 14)\<rparr>]"
  have v: "ngx_vslprintf 40 (bytes ''[%p] %*s %05.2f'') ?args = Some (bytes ''[00000000000000FF] abc 00003.14'')"
    by code_simp
  from vslprintf_truncates [OF v] have "ngx_snprintf 5 (bytes ''[%p] %*s %05.2f'') ?args =
      Some (take 5 (bytes ''[00000000000000FF] abc 00003.14''))" by (auto simp del: bytes_simps)
  also have "take 5 (bytes ''[00000000000000FF] abc 00003.14'') = bytes ''[0000''" by code_simp
  finally show ?thesis using v by blast
qed

end
