(* ===== verification/NgxTimes.thy ===== *)
theory NgxTimes
  imports NgxPrint
begin

unbundle bit_operations_syntax

text \<open>
  Calendar time: \<open>ngx_gmtime\<close>, \<open>ngx_http_time\<close> and \<open>ngx_http_cookie_time\<close> of src/core/ngx_times.c, which
  make the dates of headers, and \<open>ngx_http_parse_time\<close> of src/http/ngx_http_parse_time.c, which
  reads those of the client in three formats. That the days of the year come out right in both
  directions rests on one fact about the number of days before a year.
\<close>

section \<open>Seconds to a date\<close>

record tm =
  tm_sec :: u32
  tm_min :: u32
  tm_hour :: u32
  tm_mday :: u32
  tm_mon :: u32
  tm_year :: u32
  tm_wday :: u32

text \<open>
  Everything up to the last casts fits into 64 bits whatever \<open>t\<close> is, so it is computed in \<open>nat\<close>,
  and \<open>yday\<close>, which may be negative, in \<open>int\<close>.
\<close>

definition gm_date :: "nat \<Rightarrow> nat \<times> nat \<times> nat" where
  "gm_date days =
     (let days = days + 719527 - (31 + 28);
          year = (days + 2) * 400 div (365 * 400 + 100 - 4 + 1);
          yday = int days - int (365 * year + year div 4 - year div 100 + year div 400);
          (yday, year) =
            (if yday < 0 then
               (let leap = (if year mod 4 = 0 \<and> (year mod 100 \<noteq> 0 \<or> year mod 400 = 0) then 1 else 0)
                in (365 + leap + yday, year - 1))
             else (yday, year));
          mon = nat ((yday + 31) * 10 div 306);
          mday = nat (yday - (int (367 * mon div 12) - 30) + 1)
      in if yday \<ge> 306 then (year + 1, mon - 10, mday) else (year, mon + 2, mday))"

definition ngx_gmtime :: "u64 \<Rightarrow> tm" where
  "ngx_gmtime t =
     (let n = unat t;
          days = n div 86400;
          wday = (4 + days) mod 7;
          n = n mod 86400;
          hour = n div 3600;
          n = n mod 3600;
          mi = n div 60;
          sec = n mod 60;
          (year, mon, mday) = gm_date days
      in \<lparr>tm_sec = of_nat sec, tm_min = of_nat mi, tm_hour = of_nat hour, tm_mday = of_nat mday,
          tm_mon = of_nat mon, tm_year = of_nat year, tm_wday = of_nat wday\<rparr>)"

definition week :: "byte list list" where
  "week = map bytes [''Sun'', ''Mon'', ''Tue'', ''Wed'', ''Thu'', ''Fri'', ''Sat'']"

definition months :: "byte list list" where
  "months = map bytes [''Jan'', ''Feb'', ''Mar'', ''Apr'', ''May'', ''Jun'', ''Jul'', ''Aug'', ''Sep'', ''Oct'', ''Nov'', ''Dec'']"

definition ngx_http_time :: "u64 \<Rightarrow> byte list option" where
  "ngx_http_time t =
     (let tm = ngx_gmtime t in
      ngx_sprintf (bytes ''%s, %02d %s %4d %02d:%02d:%02d GMT'')
        [va_str (week ! unat (tm_wday tm) @ [NUL]), va_int (tm_mday tm),
         va_str (months ! unat (tm_mon tm - 1) @ [NUL]), va_int (tm_year tm),
         va_int (tm_hour tm), va_int (tm_min tm), va_int (tm_sec tm)])"

definition ngx_http_cookie_time :: "u64 \<Rightarrow> byte list option" where
  "ngx_http_cookie_time t =
     (let tm = ngx_gmtime t in
      ngx_sprintf (if 2037 <s tm_year tm then bytes ''%s, %02d-%s-%d %02d:%02d:%02d GMT''
                   else bytes ''%s, %02d-%s-%02d %02d:%02d:%02d GMT'')
        [va_str (week ! unat (tm_wday tm) @ [NUL]), va_int (tm_mday tm),
         va_str (months ! unat (tm_mon tm - 1) @ [NUL]),
         va_int (if 2037 <s tm_year tm then tm_year tm else tm_year tm mod 100),
         va_int (tm_hour tm), va_int (tm_min tm), va_int (tm_sec tm)])"

section \<open>A date to seconds\<close>

text \<open>Reading: past the end of the value, \<open>NGX_ERROR\<close>, or a value.\<close>

datatype 'a reading = overread | failed | ok 'a

fun bind_reading :: "'a reading \<Rightarrow> ('a \<Rightarrow> 'b reading) \<Rightarrow> 'b reading" where
  "bind_reading overread f = overread"
| "bind_reading failed f = failed"
| "bind_reading (ok x) f = f x"

definition byte_at :: "byte list \<Rightarrow> nat \<Rightarrow> byte reading" where
  "byte_at v p = (case rd v p of None \<Rightarrow> overread | Some c \<Rightarrow> ok c)"

definition digit_at :: "byte list \<Rightarrow> nat \<Rightarrow> nat reading" where
  "digit_at v p = bind_reading (byte_at v p) (\<lambda>c. if is_digit c then ok (dval c) else failed)"

definition char_at :: "byte \<Rightarrow> byte list \<Rightarrow> nat \<Rightarrow> unit reading" where
  "char_at x v p = bind_reading (byte_at v p) (\<lambda>c. if c = x then ok () else failed)"

definition digits2_at :: "byte list \<Rightarrow> nat \<Rightarrow> nat reading" where
  "digits2_at v p = bind_reading (digit_at v p) (\<lambda>a. bind_reading (digit_at v (p + 1)) (\<lambda>b. ok (a * 10 + b)))"

definition digits4_at :: "byte list \<Rightarrow> nat \<Rightarrow> nat reading" where
  "digits4_at v p =
     bind_reading (digit_at v p) (\<lambda>a. bind_reading (digit_at v (p + 1)) (\<lambda>b.
     bind_reading (digit_at v (p + 2)) (\<lambda>c. bind_reading (digit_at v (p + 3)) (\<lambda>d.
       ok (a * 1000 + b * 100 + c * 10 + d)))))"

datatype time_fmt = fmt_no | fmt_rfc822 | fmt_rfc850 | fmt_isoc

fun time_format :: "byte list \<Rightarrow> nat \<Rightarrow> time_fmt \<times> nat" where
  "time_format [] p = (fmt_no, p)"
| "time_format (c # cs) p =
     (if c = asc CHR '','' then (fmt_no, p)
      else if c = SP then (fmt_isoc, p)
      else time_format cs (Suc p))"

definition skip_spaces :: "byte list \<Rightarrow> nat \<Rightarrow> nat" where
  "skip_spaces v p = p + length (takeWhile (\<lambda>c. c = SP) (drop p v))"

definition time_day :: "time_fmt \<Rightarrow> byte list \<Rightarrow> nat \<Rightarrow> (time_fmt \<times> nat \<times> nat) reading" where
  "time_day fmt v p =
     (if fmt = fmt_isoc then ok (fmt, 32, p)
      else bind_reading (digits2_at v p) (\<lambda>day.
           bind_reading (byte_at v (p + 2)) (\<lambda>c.
             if c = SP then (if length v < p + 2 + 18 then failed else ok (fmt_rfc822, day, p + 3))
             else if c = asc CHR ''-'' then ok (fmt_rfc850, day, p + 3)
             else failed)))"

definition time_month :: "byte list \<Rightarrow> nat \<Rightarrow> nat reading" where
  "time_month v p =
     bind_reading (byte_at v p) (\<lambda>c.
       if c = asc CHR ''J'' then
         bind_reading (byte_at v (p + 1)) (\<lambda>c1. if c1 = asc CHR ''a'' then ok 0
           else bind_reading (byte_at v (p + 2)) (\<lambda>c2. ok (if c2 = asc CHR ''n'' then 5 else 6)))
       else if c = asc CHR ''F'' then ok 1
       else if c = asc CHR ''M'' then bind_reading (byte_at v (p + 2)) (\<lambda>c2. ok (if c2 = asc CHR ''r'' then 2 else 4))
       else if c = asc CHR ''A'' then bind_reading (byte_at v (p + 1)) (\<lambda>c1. ok (if c1 = asc CHR ''p'' then 3 else 7))
       else if c = asc CHR ''S'' then ok 8
       else if c = asc CHR ''O'' then ok 9
       else if c = asc CHR ''N'' then ok 10
       else if c = asc CHR ''D'' then ok 11
       else failed)"

definition time_sep :: "time_fmt \<Rightarrow> byte list \<Rightarrow> nat \<Rightarrow> unit reading" where
  "time_sep fmt v p =
     (if fmt = fmt_rfc822 then char_at SP v p else if fmt = fmt_rfc850 then char_at (asc CHR ''-'') v p else ok ())"

definition time_year :: "time_fmt \<Rightarrow> byte list \<Rightarrow> nat \<Rightarrow> (nat \<times> nat) reading" where
  "time_year fmt v p =
     (if fmt = fmt_rfc822 then bind_reading (digits4_at v p) (\<lambda>y. ok (y, p + 4))
      else if fmt = fmt_rfc850 then
        bind_reading (digits2_at v p) (\<lambda>y. ok (y + (if y < 70 then 2000 else 1900), p + 2))
      else ok (2038, p))"

definition time_isoc_day :: "time_fmt \<Rightarrow> nat \<Rightarrow> byte list \<Rightarrow> nat \<Rightarrow> (nat \<times> nat) reading" where
  "time_isoc_day fmt day v p =
     (if fmt \<noteq> fmt_isoc then ok (day, p)
      else bind_reading (byte_at v p) (\<lambda>c. let p = (if c = SP then p + 1 else p) in
           bind_reading (digit_at v p) (\<lambda>day.
           bind_reading (byte_at v (p + 1)) (\<lambda>c.
           bind_reading (if c \<noteq> SP then bind_reading (digit_at v (p + 1)) (\<lambda>d. ok (day * 10 + d, p + 2)) else ok (day, p + 1))
             (\<lambda>(day, p). if length v < p + 14 then failed else ok (day, p))))))"

definition mdays :: "nat list" where
  "mdays = [31, 28, 31, 30, 31, 30, 31, 31, 30, 31, 30, 31]"

text \<open>The checks of the date, and the formula; \<open>year\<close> is unsigned, so that it may wrap below 0.\<close>

definition date_invalid :: "nat \<Rightarrow> nat \<Rightarrow> nat \<Rightarrow> bool" where
  "date_invalid day month year \<longleftrightarrow>
     (if day = 29 \<and> month = 1 then year mod 4 \<noteq> 0 \<or> year mod 100 = 0 \<and> year mod 400 \<noteq> 0
      else day > mdays ! month)"

definition date_seconds :: "nat \<Rightarrow> nat \<Rightarrow> u64 \<Rightarrow> nat \<Rightarrow> nat \<Rightarrow> nat \<Rightarrow> u64" where
  "date_seconds day month year hour mi sec =
     (let month = int month - 1;
          (month, year) = (if month \<le> 0 then (month + 12, year - 1) else (month, year))
      in (365 * year + year div 4 - year div 100 + year div 400
          + of_int (367 * month div 12 - 30)
          + of_nat day - 1
          - 719527 + 31 + 28) * 86400 + of_nat hour * 3600 + of_nat mi * 60 + of_nat sec)"

text \<open>From the space before the hour to the end.\<close>

definition time_clock :: "time_fmt \<Rightarrow> nat \<Rightarrow> nat \<Rightarrow> nat \<Rightarrow> byte list \<Rightarrow> nat \<Rightarrow> u64 reading" where
  "time_clock fmt day month year v p =
     bind_reading (char_at SP v p) (\<lambda>_.
     bind_reading (digits2_at v (p + 1)) (\<lambda>hour.
     bind_reading (char_at (asc CHR '':'') v (p + 3)) (\<lambda>_.
     bind_reading (digits2_at v (p + 4)) (\<lambda>mi.
     bind_reading (char_at (asc CHR '':'') v (p + 6)) (\<lambda>_.
     bind_reading (digits2_at v (p + 7)) (\<lambda>sec.
     bind_reading
       (if fmt = fmt_isoc then bind_reading (char_at SP v (p + 9)) (\<lambda>_. digits4_at v (p + 10)) else ok year) (\<lambda>year.
     if hour > 23 \<or> mi > 59 \<or> sec > 59 then failed
     else if date_invalid day month year then failed
     else ok (date_seconds day month (of_nat year) hour mi sec))))))))"

text \<open>From the day on.\<close>

definition parse_date :: "time_fmt \<Rightarrow> byte list \<Rightarrow> nat \<Rightarrow> u64 reading" where
  "parse_date fmt v p =
     (if length v < p + 18 then failed
      else
        bind_reading (time_day fmt v p) (\<lambda>(fmt, day, p).
        bind_reading (time_month v p) (\<lambda>month.
        bind_reading (time_sep fmt v (p + 3)) (\<lambda>_.
        bind_reading (time_year fmt v (p + 4)) (\<lambda>(year, p).
        bind_reading (time_isoc_day fmt day v p) (\<lambda>(day, p).
        time_clock fmt day month year v p))))))"

definition ngx_http_parse_time :: "byte list \<Rightarrow> u64 reading" where
  "ngx_http_parse_time v =
     (case time_format v 0 of (fmt, p) \<Rightarrow> parse_date fmt v (skip_spaces v (p + 1)))"

section \<open>No read outside the value\<close>

definition in_value :: "'a reading \<Rightarrow> bool" where
  "in_value m \<longleftrightarrow> m \<noteq> overread"

lemma in_value_simps [simp]: "in_value (ok x)" "in_value failed" "\<not> in_value overread"
  by (simp_all add: in_value_def)

lemma in_value_bind: "in_value m \<Longrightarrow> (\<And>x. m = ok x \<Longrightarrow> in_value (f x)) \<Longrightarrow> in_value (bind_reading m f)"
  by (cases m) simp_all

lemma bind_reading_ok: "bind_reading m f = ok y \<longleftrightarrow> (\<exists>x. m = ok x \<and> f x = ok y)"
  by (cases m) simp_all

lemma in_value_byte: "p < length v \<Longrightarrow> in_value (byte_at v p)"
  by (simp add: byte_at_def rd_Some)

lemma in_value_digit: "p < length v \<Longrightarrow> in_value (digit_at v p)"
  unfolding digit_at_def by (rule in_value_bind) (auto simp: in_value_byte)

lemma in_value_char: "p < length v \<Longrightarrow> in_value (char_at x v p)"
  unfolding char_at_def by (rule in_value_bind) (auto simp: in_value_byte)

lemma in_value_digits2: "p + 1 < length v \<Longrightarrow> in_value (digits2_at v p)"
  unfolding digits2_at_def by (intro in_value_bind) (auto simp: in_value_digit)

lemma in_value_digits4: "p + 3 < length v \<Longrightarrow> in_value (digits4_at v p)"
  unfolding digits4_at_def by (intro in_value_bind) (auto simp: in_value_digit)

lemmas in_value_reads = in_value_byte in_value_digit in_value_char in_value_digits2 in_value_digits4

lemma time_day_in: "p + 18 \<le> length v \<Longrightarrow> in_value (time_day fmt v p)"
  by (auto simp: time_day_def in_value_reads intro!: in_value_bind)

lemma time_day_ok:
  assumes "time_day fmt v p = ok (fmt', day, q)" "p + 18 \<le> length v"
  shows "fmt' = fmt_isoc \<and> q = p \<or> fmt' = fmt_rfc822 \<and> q + 17 \<le> length v \<or> fmt' = fmt_rfc850 \<and> q + 15 \<le> length v"
  using assms by (auto simp: time_day_def bind_reading_ok split: if_splits)

lemma time_month_in: "p + 2 < length v \<Longrightarrow> in_value (time_month v p)"
  by (auto simp: time_month_def in_value_reads intro!: in_value_bind)

lemma time_sep_in: "p < length v \<Longrightarrow> in_value (time_sep fmt v p)"
  by (auto simp: time_sep_def in_value_reads)

lemma time_year_in: "p + 3 < length v \<Longrightarrow> in_value (time_year fmt v p)"
  by (auto simp: time_year_def in_value_reads intro!: in_value_bind)

lemma time_year_ok:
  "time_year fmt v p = ok (y, q) \<Longrightarrow>
   q = p + (if fmt = fmt_rfc822 then 4 else if fmt = fmt_rfc850 then 2 else 0)"
  by (auto simp: time_year_def bind_reading_ok split: if_splits)

lemma time_isoc_day_in: "p + 2 < length v \<Longrightarrow> in_value (time_isoc_day fmt day v p)"
  by (auto simp: time_isoc_day_def in_value_reads Let_def intro!: in_value_bind split: prod.splits)

lemma time_isoc_day_ok:
  "time_isoc_day fmt day v p = ok (d, q) \<Longrightarrow> if fmt = fmt_isoc then q + 14 \<le> length v else q = p"
  by (auto simp: time_isoc_day_def bind_reading_ok Let_def split: if_splits)

lemma time_clock_in:
  "p + 9 \<le> length v \<Longrightarrow> (fmt = fmt_isoc \<longrightarrow> p + 14 \<le> length v) \<Longrightarrow> in_value (time_clock fmt day month year v p)"
  unfolding time_clock_def by (intro in_value_bind) (auto simp: in_value_reads intro!: in_value_bind)

text \<open>
  The three checks of the length are enough: whatever the value is, the parser never
  reads outside it.
\<close>
theorem parse_time_in_value: "ngx_http_parse_time v \<noteq> overread"
proof -
  have "in_value (parse_date fmt v p)" for fmt p
  proof (cases "length v < p + 18")
    case False
    then have len: "p + 18 \<le> length v" by simp
    have "in_value (bind_reading (time_month v q) (\<lambda>month.
      bind_reading (time_sep fmt' v (q + 3)) (\<lambda>_.
      bind_reading (time_year fmt' v (q + 4)) (\<lambda>(year, p).
      bind_reading (time_isoc_day fmt' day v p) (\<lambda>(day, p). time_clock fmt' day month year v p)))))"
      if d: "time_day fmt v p = ok (fmt', day, q)" for fmt' day q
    proof -
      from time_day_ok [OF d len] have q: "q + 15 \<le> length v"
        "fmt' = fmt_isoc \<longrightarrow> q + 18 \<le> length v" "fmt' = fmt_rfc822 \<longrightarrow> q + 17 \<le> length v" using len by auto
      have clock: "in_value (time_clock fmt' d month y v r)"
        if "time_year fmt' v (q + 4) = ok (y, p1)" "time_isoc_day fmt' day v p1 = ok (d, r)" for y p1 d r month
        using time_year_ok [OF that(1)] time_isoc_day_ok [OF that(2)] q
        by (intro time_clock_in) (auto split: if_splits)
      have day: "in_value (time_isoc_day fmt' day v r)" if "time_year fmt' v (q + 4) = ok (y, r)" for y r
        using time_year_ok [OF that] q by (intro time_isoc_day_in) (auto split: if_splits)
      show ?thesis
        using q(1) clock day
        by (intro in_value_bind time_month_in time_sep_in time_year_in)
          (auto split: prod.splits intro!: in_value_bind)
    qed
    then show ?thesis
      unfolding parse_date_def if_not_P [OF False]
      by (intro in_value_bind time_day_in [OF len]) auto
  qed (simp add: parse_date_def)
  then show ?thesis by (simp add: ngx_http_parse_time_def in_value_def split: prod.split)
qed

section \<open>The calendar\<close>

text \<open>The days before March 1 of a year, counted from March 1 of the year 0.\<close>

definition before_year :: "nat \<Rightarrow> nat" where
  "before_year y = 365 * y + y div 4 - y div 100 + y div 400"

definition leap :: "nat \<Rightarrow> bool" where
  "leap y \<longleftrightarrow> y mod 4 = 0 \<and> (y mod 100 \<noteq> 0 \<or> y mod 400 = 0)"

lemma before_year_int:
  "int (before_year y) = 365 * int y + int (y div 4) - int (y div 100) + int (y div 400)"
  unfolding before_year_def by (simp add: of_nat_diff le_trans [OF div_le_dividend])

lemma int_div_mod: "int y = int k * int (y div k) + int (y mod k)"
  by (metis mult_div_mod_eq of_nat_add of_nat_mult)

lemma gauss_bounds:
  fixes y :: int
  assumes "y = 4 * a + r" "y = 100 * b + s" "y = 400 * c + t" "0 \<le> r" "r < 4" "0 \<le> s" "s < 100" "0 \<le> t" "t < 400"
  shows "146097 * y - 699 \<le> 400 * (365 * y + a - b + c) \<and> 400 * (365 * y + a - b + c) \<le> 146097 * y + 396"
  using assms by simp

lemma before_year_400:
  "146097 * int y - 699 \<le> 400 * int (before_year y) \<and> 400 * int (before_year y) \<le> 146097 * int y + 396"
  unfolding before_year_int
proof (rule gauss_bounds)
  show "int y = 4 * int (y div 4) + int (y mod 4)" using int_div_mod [of y 4] by simp
  show "int y = 100 * int (y div 100) + int (y mod 100)" using int_div_mod [of y 100] by simp
  show "int y = 400 * int (y div 400) + int (y mod 400)" using int_div_mod [of y 400] by simp
qed simp_all

lemma before_year_Suc: "before_year (Suc y) = before_year y + 365 + (if leap (Suc y) then 1 else 0)"
proof -
  have dm: "int (Suc y div k) = int (y div k) + (if Suc y mod k = 0 then 1 else 0)" if "0 < k" for k
    using that by (simp add: div_Suc)
  have "Suc y mod 400 = 0 \<Longrightarrow> Suc y mod 100 = 0" "Suc y mod 100 = 0 \<Longrightarrow> Suc y mod 4 = 0"
    using dvd_trans [of 100 400 "Suc y"] dvd_trans [of 4 100 "Suc y"] by (simp_all add: mod_eq_0_iff_dvd)
  then have "int (before_year (Suc y)) = int (before_year y + 365 + (if leap (Suc y) then 1 else 0))"
    unfolding before_year_int of_nat_add leap_def by (auto simp: dm)
  then show ?thesis by linarith
qed

text \<open>The year that \<open>gm_date\<close> finds, and the day of it, both counted from March 1.\<close>

lemma year_of_day:
  assumes "y = (d + 2) * 400 div 146097"
  shows "int (before_year y) \<le> int d + 2" "d < before_year (Suc y)" "0 < d \<Longrightarrow> before_year y > d \<Longrightarrow> 0 < y"
proof -
  define n where "n = (d + 2) * 400"
  have y: "y = n div 146097" unfolding n_def by (rule assms)
  have "n = 146097 * y + n mod 146097" "n mod 146097 < 146097" unfolding y by simp_all
  then have "146097 * y \<le> n \<and> n < 146097 * Suc y" by simp
  then have "146097 * y \<le> (d + 2) * 400" "(d + 2) * 400 < 146097 * Suc y" by (simp_all only: n_def)
  then have "146097 * int y \<le> 400 * int d + 800" "400 * int d + 800 < 146097 * int y + 146097" by simp_all
  with before_year_400 [of y] before_year_400 [of "Suc y"]
  have "int (before_year y) \<le> int d + 2" and "int d < int (before_year (Suc y))" by simp_all
  then show "int (before_year y) \<le> int d + 2" "d < before_year (Suc y)" by simp_all
  show "0 < d \<Longrightarrow> before_year y > d \<Longrightarrow> 0 < y" by (cases y) (auto simp: before_year_def)
qed

lemma gm_date_eq:
  assumes "gm_date days = (year, mon, mday)"
  obtains y yd where "before_year y + yd = days + 719468" "yd < 365 + (if leap (Suc y) then 1 else 0)"
    "mday = yd + 31 - 367 * ((yd + 31) * 10 div 306) div 12"
    "(year, mon) = (if 306 \<le> yd then (y + 1, (yd + 31) * 10 div 306 - 10) else (y, (yd + 31) * 10 div 306 + 2))"
proof -
  let ?d = "days + 719468"
  define y0 where "y0 = (?d + 2) * 400 div 146097"
  note y0 = year_of_day [OF y0_def]
  define y where "y = (if before_year y0 > ?d then y0 - 1 else y0)"
  define yd where "yd = ?d - before_year y"
  have step: "before_year y0 = before_year (y0 - 1) + 365 + (if leap y0 then 1 else 0)" if "before_year y0 > ?d"
    using before_year_Suc [of "y0 - 1"] y0(3) that by simp
  have 1: "before_year y + yd = ?d" "yd < 365 + (if leap (Suc y) then 1 else 0)"
    using y0 step before_year_Suc [of y0] by (auto simp: y_def yd_def)
  have yday: "(if int ?d - int (before_year y0) < 0
      then (365 + (if leap y0 then 1 else 0) + (int ?d - int (before_year y0)), y0 - 1)
      else (int ?d - int (before_year y0), y0)) = (int yd, y)"
    using 1(1) step by (auto simp: y_def yd_def)
  have mon: "nat ((int yd + 31) * 10 div 306) = (yd + 31) * 10 div 306"
    by (simp add: nat_div_distrib nat_mult_distrib nat_add_distrib)
  have le: "367 * ((yd + 31) * 10 div 306) div 12 \<le> yd + 30"
  proof -
    define k where "k = (yd + 31) * 10 div 306"
    have "306 * k \<le> 10 * yd + 310" unfolding k_def using div_times_less_eq_dividend [of "(yd + 31) * 10" 306] by simp
    moreover have "12 * (367 * k div 12) \<le> 367 * k" by simp
    ultimately have "367 * k div 12 \<le> yd + 30" by linarith
    then show ?thesis by (simp only: k_def)
  qed
  have "gm_date days = (if 306 \<le> yd then (y + 1, (yd + 31) * 10 div 306 - 10, yd + 31 - 367 * ((yd + 31) * 10 div 306) div 12)
      else (y, (yd + 31) * 10 div 306 + 2, yd + 31 - 367 * ((yd + 31) * 10 div 306) div 12))"
  proof -
    have e: "days + 719527 - (31 + 28) = ?d" "365 * 400 + 100 - 4 + 1 = (146097 :: nat)" by simp_all
    have mday: "nat (int yd - (int (367 * ((yd + 31) * 10 div 306) div 12) - 30) + 1) =
        yd + 31 - 367 * ((yd + 31) * 10 div 306) div 12" using le by linarith
    have gt: "306 \<le> int yd \<longleftrightarrow> 306 \<le> yd" by simp
    show ?thesis
      unfolding gm_date_def Let_def e y0_def [symmetric] before_year_def [symmetric] leap_def [symmetric]
        yday prod.case mon mday gt by (rule refl)
  qed
  with assms 1 that show ?thesis by (auto split: if_splits)
qed

text \<open>The month and the day, by their number: the formulas against the table.\<close>

lemma month_of_day:
  assumes "yd < 366" "k = (yd + 31) * 10 div 306"
  shows "1 \<le> k \<and> k \<le> 12 \<and> 367 * k div 12 \<le> yd + 30 \<and> 30 \<le> 367 * k div 12 \<and>
    yd + 31 - 367 * k div 12 \<le> 31 \<and> (306 \<le> yd \<longleftrightarrow> 11 \<le> k) \<and>
    (yd + 31 - 367 * k div 12 \<le> mdays ! (if 11 \<le> k then k - 11 else k + 1) \<or> yd = 365 \<and> k = 12)"
proof -
  have k: "306 * k \<le> 10 * yd + 310" "10 * yd + 310 < 306 * k + 306"
  proof -
    have "(yd + 31) * 10 = 306 * k + (yd + 31) * 10 mod 306" unfolding assms(2) by simp
    moreover have "(yd + 31) * 10 mod 306 < 306" by simp
    ultimately show "306 * k \<le> 10 * yd + 310" "10 * yd + 310 < 306 * k + 306" by simp_all
  qed
  then have "1 \<le> k" "k \<le> 12" using assms(1) by linarith+
  then have "k = 1 \<or> k = 2 \<or> k = 3 \<or> k = 4 \<or> k = 5 \<or> k = 6 \<or> k = 7 \<or> k = 8 \<or> k = 9 \<or> k = 10 \<or> k = 11 \<or> k = 12"
    by presburger
  then show ?thesis using k assms(1) by (elim disjE) (auto simp: mdays_def)
qed

text \<open>\<open>gm_date\<close> gives dates that the parser takes, and its seconds are those of the day.\<close>

lemma word_div_of_nat: "n < 2 ^ 64 \<Longrightarrow> (of_nat n :: u64) div numeral k = of_nat (n div unat (numeral k :: u64))"
  by (simp add: word_unat_eq_iff unat_div unat_of_nat take_bit_nat_eq_self
      le_less_trans [OF div_le_dividend])

text \<open>The formula of the parser on a day counted from March 1.\<close>

lemma date_seconds_eq:
  assumes "before_year y + yd = days + 719468" "yd < 366" "k = (yd + 31) * 10 div 306" "y < 2 ^ 63"
  shows "date_seconds (yd + 31 - 367 * k div 12) (if 11 \<le> k then k - 11 else k + 1)
    (of_nat (if 11 \<le> k then y + 1 else y)) hour mi sec = of_nat (days * 86400 + hour * 3600 + mi * 60 + sec)"
proof -
  note m = month_of_day [OF assms(2,3)]
  let ?q = "367 * k div 12"
  have month: "(if int (if 11 \<le> k then k - 11 else k + 1) - 1 \<le> 0
      then (int (if 11 \<le> k then k - 11 else k + 1) - 1 + 12, of_nat (if 11 \<le> k then y + 1 else y) - 1)
      else (int (if 11 \<le> k then k - 11 else k + 1) - 1, of_nat (if 11 \<le> k then y + 1 else y)))
    = (int k, of_nat y :: u64)" using m by auto
  have q: "of_int (367 * int k div 12 - 30) = (of_nat ?q - 30 :: u64)"
  proof -
    have "367 * int k div 12 = int ?q" by (simp add: zdiv_int)
    then show ?thesis by simp
  qed
  have day: "(of_nat (yd + 31 - ?q) :: u64) = of_nat yd + 31 - of_nat ?q"
    using m by (simp add: of_nat_diff)
  have "before_year y + y div 100 = 365 * y + y div 4 + y div 400" using before_year_int [of y] by linarith
  then have "(of_nat (before_year y + y div 100) :: u64) = of_nat (365 * y + y div 4 + y div 400)" by (rule arg_cong)
  then have year: "365 * of_nat y + of_nat (y div 4) - of_nat (y div 100) + of_nat (y div 400) = (of_nat (before_year y) :: u64)"
    by (simp add: algebra_simps)
  have "(of_nat (before_year y + yd) :: u64) = of_nat (days + 719468)" using assms(1) by simp
  then have days: "(of_nat (before_year y) + of_nat yd - 719468 :: u64) = of_nat days" by (simp add: algebra_simps)
  have "y < 2 ^ 64" using assms(4) by simp
  note div = word_div_of_nat [OF this]
  have "365 * of_nat y + of_nat y div 4 - of_nat y div 100 + of_nat y div 400 + (of_nat ?q - 30)
      + (of_nat yd + 31 - of_nat ?q) - 1 - 719527 + 31 + 28 =
    (365 * of_nat y + of_nat (y div 4) - of_nat (y div 100) + of_nat (y div 400)) + (of_nat yd - 719468 :: u64)"
    by (simp add: div)
  also have "\<dots> = of_nat days" unfolding year using days by (simp add: algebra_simps)
  finally have base: "365 * of_nat y + of_nat y div 4 - of_nat y div 100 + of_nat y div 400 + (of_nat ?q - 30)
      + (of_nat yd + 31 - of_nat ?q) - 1 - 719527 + 31 + 28 = (of_nat days :: u64)" .
  show ?thesis
    unfolding date_seconds_def Let_def month prod.case q day base by simp
qed

lemma gm_date_valid:
  assumes "gm_date days = (year, mon, mday)" "days < 2 ^ 60"
  shows "1 \<le> mon \<and> mon \<le> 12 \<and> 1 \<le> mday \<and> mday \<le> 31 \<and> \<not> date_invalid mday (mon - 1) year"
    and "date_seconds mday (mon - 1) (of_nat year) hour mi sec = of_nat (days * 86400 + hour * 3600 + mi * 60 + sec)"
    and "1969 \<le> year" "days < 2932897 \<Longrightarrow> year \<le> 9999"
proof -
  from gm_date_eq [OF assms(1)] obtain y yd where g: "before_year y + yd = days + 719468"
      "yd < 365 + (if leap (Suc y) then 1 else 0)" "mday = yd + 31 - 367 * ((yd + 31) * 10 div 306) div 12"
      "(year, mon) = (if 306 \<le> yd then (y + 1, (yd + 31) * 10 div 306 - 10) else (y, (yd + 31) * 10 div 306 + 2))" by blast
  define k where "k = (yd + 31) * 10 div 306"
  have yd: "yd < 366" using g(2) by (simp split: if_splits)
  note m = month_of_day [OF this k_def]
  have e: "mday = yd + 31 - 367 * k div 12" "year = (if 11 \<le> k then y + 1 else y)" "mon - 1 = (if 11 \<le> k then k - 11 else k + 1)"
    "mon = (if 11 \<le> k then k - 10 else k + 2)"
    using g(3,4) [folded k_def] m by (cases "11 \<le> k"; simp)+
  have "date_invalid mday (mon - 1) year = False"
  proof (cases "yd = 365 \<and> k = 12")
    case True
    with g(2) have "leap (Suc y)" by (simp split: if_splits)
    with True show ?thesis by (simp add: date_invalid_def e leap_def)
  next
    case False
    with m have le: "mday \<le> mdays ! (mon - 1)" unfolding e(1,3) by blast
    have "\<not> (mday = 29 \<and> mon - 1 = 1)" using le by (auto simp: mdays_def)
    with le show ?thesis by (auto simp: date_invalid_def)
  qed
  then show "1 \<le> mon \<and> mon \<le> 12 \<and> 1 \<le> mday \<and> mday \<le> 31 \<and> \<not> date_invalid mday (mon - 1) year"
    using m by (auto simp: e split: if_splits)
  have d: "400 * int days + 400 * 719468 = 400 * int (before_year y) + 400 * int yd" using g(1) by simp
  with before_year_400 [of y] assms(2) have "146097 * int y \<le> 400 * int days + 400 * 719468 + 699" by simp
  with assms(2) have y63: "y < 2 ^ 63" by simp
  show "date_seconds mday (mon - 1) (of_nat year) hour mi sec = of_nat (days * 86400 + hour * 3600 + mi * 60 + sec)"
    unfolding e(1-3) by (rule date_seconds_eq [OF g(1) yd k_def y63])
  from d before_year_400 [of y] yd have "1969 \<le> y" by linarith
  then show "1969 \<le> year" by (simp add: e)
  assume days: "days < 2932897"
  with d before_year_400 [of y] have "y \<le> 9999" by linarith
  moreover have "yd < 306" if "y = 9999"
  proof -
    have "before_year 9999 = 3652059" by (simp add: before_year_def)
    with g(1) days that show ?thesis by simp
  qed
  ultimately have "y < 9999 \<or> y = 9999 \<and> yd < 306" by linarith
  then show "year \<le> 9999" using m by (auto simp: e(2))
qed

section \<open>The three formats\<close>

definition two :: "nat \<Rightarrow> byte list" where
  "two n = [digit (n div 10), digit (n mod 10)]"

definition four :: "nat \<Rightarrow> byte list" where
  "four n = [digit (n div 1000), digit (n div 100 mod 10), digit (n div 10 mod 10), digit (n mod 10)]"

definition clock :: "nat \<Rightarrow> nat \<Rightarrow> nat \<Rightarrow> byte list" where
  "clock hour mi sec = two hour @ bytes '':'' @ two mi @ bytes '':'' @ two sec"

definition rfc822_text :: "byte list \<Rightarrow> nat \<Rightarrow> nat \<Rightarrow> nat \<Rightarrow> byte list \<Rightarrow> byte list" where
  "rfc822_text day mday month year time =
     day @ bytes '', '' @ two mday @ bytes '' '' @ months ! month @ bytes '' '' @ four year @ bytes '' '' @ time @ bytes '' GMT''"

definition rfc850_text :: "byte list \<Rightarrow> nat \<Rightarrow> nat \<Rightarrow> nat \<Rightarrow> byte list \<Rightarrow> byte list" where
  "rfc850_text day mday month year time =
     day @ bytes '', '' @ two mday @ bytes ''-'' @ months ! month @ bytes ''-'' @ two (year mod 100) @ bytes '' '' @ time @ bytes '' GMT''"

definition asctime_text :: "byte list \<Rightarrow> nat \<Rightarrow> nat \<Rightarrow> nat \<Rightarrow> byte list \<Rightarrow> byte list" where
  "asctime_text day mday month year time =
     day @ bytes '' '' @ months ! month @ bytes '' '' @ (if mday < 10 then [SP, digit mday] else two mday) @ bytes '' '' @ time @
       bytes '' '' @ four year"

lemma months_read:
  assumes "m < 12"
  shows "\<exists>a b c. months ! m = [a, b, c] \<and> a \<noteq> SP \<and>
    (\<forall>v p. rd v p = Some a \<longrightarrow> rd v (Suc p) = Some b \<longrightarrow> rd v (Suc (Suc p)) = Some c \<longrightarrow> time_month v p = ok m)"
proof -
  from assms have "m = 0 \<or> m = 1 \<or> m = 2 \<or> m = 3 \<or> m = 4 \<or> m = 5 \<or> m = 6 \<or> m = 7 \<or> m = 8 \<or> m = 9 \<or> m = 10 \<or> m = 11"
    by presburger
  then show ?thesis
    by (elim disjE) (simp_all add: months_def time_month_def byte_at_def)
qed

lemma four_digits:
  fixes n :: nat
  assumes "n < 10000"
  shows "n div 1000 * 1000 + n div 100 mod 10 * 100 + n div 10 mod 10 * 10 + n mod 10 = n" "n div 1000 < 10"
proof -
  have "n = 10 * (n div 10) + n mod 10" by simp
  moreover have "n div 10 = 10 * (n div 100) + n div 10 mod 10"
    using mult_div_mod_eq [of 10 "n div 10"] by (simp add: div_mult2_eq [symmetric])
  moreover have "n div 100 = 10 * (n div 1000) + n div 100 mod 10"
    using mult_div_mod_eq [of 10 "n div 100"] by (simp add: div_mult2_eq [symmetric])
  ultimately show "n div 1000 * 1000 + n div 100 mod 10 * 100 + n div 10 mod 10 * 10 + n mod 10 = n" by linarith
  show "n div 1000 < 10" using assms by (simp add: less_mult_imp_div_less)
qed

lemma digit_ne: "n < 10 \<Longrightarrow> digit n \<noteq> SP" "n < 10 \<Longrightarrow> digit n \<noteq> asc CHR '','' "
  using digit_props(1) [of n] by (auto simp: is_digit_def)

text \<open>Positions behind a prefix, in the forms that the simplifier leaves.\<close>

lemma rd_shift:
  "rd (pre @ v) (length pre) = rd v 0" "rd (pre @ v) (Suc (length pre)) = rd v 1"
  "rd (pre @ v) (Suc (Suc (length pre))) = rd v 2"
  "rd (pre @ v) (numeral k + length pre) = rd v (numeral k)" "rd (pre @ v) (length pre + numeral k) = rd v (numeral k)"
  by (simp_all add: rd_def nth_append)

text \<open>The rest of a reader is looked at when its first part has been read.\<close>

lemma bind_weak_cong: "m = m' \<Longrightarrow> bind_reading m f = bind_reading m' f"
  by simp

lemmas reads = digits2_at_def digits4_at_def digit_at_def char_at_def byte_at_def rd_shift

lemma two_digits:
  "n < 100 \<Longrightarrow> dval (digit (n div 10)) * 10 + dval (digit (n mod 10)) = n"
  "n < 100 \<Longrightarrow> is_digit (digit (n div 10))" "is_digit (digit (n mod 10))"
  by (simp_all add: less_mult_imp_div_less)

text \<open>What stands behind a prefix.\<close>

lemma length_two [simp]: "length (two n) = 2" "length (four n) = 4" "length (clock hour mi sec) = 8"
  by (simp_all add: two_def four_def clock_def)

lemma length_months [simp]: "m < 12 \<Longrightarrow> length (months ! m) = 3"
  using months_read [of m] by auto

lemma byte_behind: "v = a @ c # r \<Longrightarrow> p = length a \<Longrightarrow> byte_at v p = ok c"
  by (simp add: byte_at_def)

lemma char_behind: "v = a @ c # r \<Longrightarrow> p = length a \<Longrightarrow> char_at c v p = ok ()"
  by (simp add: char_at_def byte_behind)

lemma two_behind: "v = a @ two n @ r \<Longrightarrow> p = length a \<Longrightarrow> n < 100 \<Longrightarrow> digits2_at v p = ok n"
  by (simp add: reads two_def less_mult_imp_div_less cong: bind_weak_cong)

lemma four_behind: "v = a @ four n @ r \<Longrightarrow> p = length a \<Longrightarrow> n < 10000 \<Longrightarrow> digits4_at v p = ok n"
  by (simp add: reads four_def four_digits cong: bind_weak_cong)

lemma month_behind:
  assumes "v = a @ months ! m @ r" "p = length a" "m < 12"
  shows "time_month v p = ok m"
proof -
  from months_read [OF assms(3)] obtain x y z where m: "months ! m = [x, y, z]"
    and read: "\<forall>v p. rd v p = Some x \<longrightarrow> rd v (Suc p) = Some y \<longrightarrow> rd v (Suc (Suc p)) = Some z \<longrightarrow> time_month v p = ok m"
    by (elim exE conjE)
  show ?thesis using assms(1,2) by (intro read [rule_format]) (simp_all add: m rd_shift)
qed

lemma time_clock_text:
  assumes "v = a @ SP # clock hour mi sec @ r" "p = length a" "hour < 24" "mi < 60" "sec < 60"
    and "\<not> date_invalid day month year" "fmt = fmt_isoc \<Longrightarrow> r = SP # four year \<and> year < 10000"
  shows "time_clock fmt day month (if fmt = fmt_isoc then y else year) v p = ok (date_seconds day month (of_nat year) hour mi sec)"
proof -
  have "char_at SP v p = ok ()"
    by (rule char_behind [OF assms(1,2)])
  moreover have "digits2_at v (p + 1) = ok hour"
    by (rule two_behind [of _ "a @ [SP]"]) (use assms in \<open>simp_all add: clock_def\<close>)
  moreover have "char_at (asc CHR '':'') v (p + 3) = ok ()"
    by (rule char_behind [of _ "a @ SP # two hour"]) (use assms in \<open>simp_all add: clock_def\<close>)
  moreover have "digits2_at v (p + 4) = ok mi"
    by (rule two_behind [of _ "a @ SP # two hour @ bytes '':''"]) (use assms in \<open>simp_all add: clock_def\<close>)
  moreover have "char_at (asc CHR '':'') v (p + 6) = ok ()"
    by (rule char_behind [of _ "a @ SP # two hour @ bytes '':'' @ two mi"]) (use assms in \<open>simp_all add: clock_def\<close>)
  moreover have "digits2_at v (p + 7) = ok sec"
    by (rule two_behind [of _ "a @ SP # two hour @ bytes '':'' @ two mi @ bytes '':''"]) (use assms in \<open>simp_all add: clock_def\<close>)
  moreover have "char_at SP v (p + 9) = ok ()" if "fmt = fmt_isoc"
    by (rule char_behind [of _ "a @ SP # clock hour mi sec"]) (use assms that in simp_all)
  moreover have "digits4_at v (p + 10) = ok year" if "fmt = fmt_isoc"
    by (rule four_behind [of _ "a @ SP # clock hour mi sec @ [SP]" _ "[]"]) (use assms that in simp_all)
  ultimately show ?thesis using assms(3-6) by (simp add: time_clock_def cong: bind_weak_cong)
qed

lemma two_digit_year:
  assumes "1970 \<le> year" "year < 2070"
  shows "year mod 100 + (if year mod 100 < 70 then 2000 else 1900) = (year :: nat)"
proof -
  define q r where "q = year div 100" "r = year mod 100"
  then have e: "year = 100 * q + r" "r < 100" by simp_all
  with assms have "q = 20 \<and> r < 70 \<or> q = 19 \<and> 70 \<le> r" by linarith
  with e show ?thesis by (auto simp: q_r_def(2) [symmetric])
qed

lemma time_format_comma:
  "SP \<notin> set d \<Longrightarrow> asc CHR '','' \<notin> set d \<Longrightarrow> time_format (d @ asc CHR '','' # r) p = (fmt_no, p + length d)"
  by (induction d arbitrary: p) auto

lemma time_format_space:
  "SP \<notin> set d \<Longrightarrow> asc CHR '','' \<notin> set d \<Longrightarrow> time_format (d @ SP # r) p = (fmt_isoc, p + length d)"
  by (induction d arbitrary: p) auto

text \<open>A date that the parser takes.\<close>

definition date_ok :: "nat \<Rightarrow> nat \<Rightarrow> nat \<Rightarrow> nat \<Rightarrow> nat \<Rightarrow> nat \<Rightarrow> bool" where
  "date_ok mday month year hour mi sec \<longleftrightarrow> month < 12 \<and> 1 \<le> mday \<and> year < 10000 \<and> hour < 24 \<and> mi < 60 \<and> sec < 60 \<and>
     \<not> date_invalid mday month year"

lemma date_okD:
  assumes "date_ok mday month year hour mi sec"
  shows "month < 12" "1 \<le> mday" "mday \<le> 31" "year < 10000" "hour < 24" "mi < 60" "sec < 60" "\<not> date_invalid mday month year"
proof -
  show a: "month < 12" "1 \<le> mday" "year < 10000" "hour < 24" "mi < 60" "sec < 60" "\<not> date_invalid mday month year"
    using assms by (simp_all add: date_ok_def)
  have "month = 0 \<or> month = 1 \<or> month = 2 \<or> month = 3 \<or> month = 4 \<or> month = 5 \<or> month = 6 \<or> month = 7 \<or> month = 8 \<or>
    month = 9 \<or> month = 10 \<or> month = 11" using a(1) by presburger
  then show "mday \<le> 31" using a(7) by (elim disjE) (auto simp: date_invalid_def mdays_def split: if_splits)
qed

lemma date_rfc822:
  assumes v: "v = pre @ two mday @ SP # months ! month @ SP # four year @ SP # clock hour mi sec @ bytes '' GMT''"
    and date_ok: "date_ok mday month year hour mi sec"
  shows "parse_date fmt_no v (length pre) = ok (date_seconds mday month (of_nat year) hour mi sec)"
proof -
  note date = date_okD [OF date_ok]
  have "length v = length pre + 24" using date by (simp add: v)
  moreover have "digits2_at v (length pre) = ok mday" by (rule two_behind [OF v]) (use date in simp_all)
  moreover have "byte_at v (length pre + 2) = ok SP"
    by (rule byte_behind [of _ "pre @ two mday"]) (simp_all add: v)
  ultimately have day: "time_day fmt_no v (length pre) = ok (fmt_rfc822, mday, length pre + 3)" "\<not> length v < length pre + 18"
    by (simp_all add: time_day_def)
  have month: "time_month v (length pre + 3) = ok month"
    by (rule month_behind [of _ "pre @ two mday @ [SP]"]) (use date in \<open>simp_all add: v\<close>)
  have "char_at SP v (length pre + 3 + 3) = ok ()"
    by (rule char_behind [of _ "pre @ two mday @ [SP] @ months ! month"]) (use date in \<open>simp_all add: v\<close>)
  moreover have "digits4_at v (length pre + 3 + 4) = ok year"
    by (rule four_behind [of _ "pre @ two mday @ [SP] @ months ! month @ [SP]"]) (use date in \<open>simp_all add: v\<close>)
  ultimately have year: "time_sep fmt_rfc822 v (length pre + 3 + 3) = ok ()"
    "time_year fmt_rfc822 v (length pre + 3 + 4) = ok (year, length pre + 3 + 4 + 4)"
    by (simp_all add: time_sep_def time_year_def)
  have "time_clock fmt_rfc822 mday month (if fmt_rfc822 = fmt_isoc then year else year) v (length pre + 3 + 4 + 4) =
      ok (date_seconds mday month (of_nat year) hour mi sec)"
    by (rule time_clock_text [of _ "pre @ two mday @ [SP] @ months ! month @ [SP] @ four year"])
      (use date in \<open>simp_all add: v\<close>)
  then show ?thesis
    unfolding parse_date_def if_not_P [OF day(2)] day(1) bind_reading.simps prod.case month year time_isoc_day_def by simp
qed

lemma date_rfc850:
  assumes v: "v = pre @ two mday @ asc CHR ''-'' # months ! month @ asc CHR ''-'' # two (year mod 100) @ SP # clock hour mi sec @ bytes '' GMT''"
    and date_ok: "date_ok mday month year hour mi sec" and y: "1970 \<le> year" "year < 2070"
  shows "parse_date fmt_no v (length pre) = ok (date_seconds mday month (of_nat year) hour mi sec)"
proof -
  note date = date_okD [OF date_ok]
  have yy: "year mod 100 + (if year mod 100 < 70 then 2000 else 1900) = year" using y by (rule two_digit_year)
  have "length v = length pre + 22" using date by (simp add: v)
  moreover have "digits2_at v (length pre) = ok mday" by (rule two_behind [OF v]) (use date in simp_all)
  moreover have "byte_at v (length pre + 2) = ok (asc CHR ''-'')"
    by (rule byte_behind [of _ "pre @ two mday"]) (simp_all add: v)
  ultimately have day: "time_day fmt_no v (length pre) = ok (fmt_rfc850, mday, length pre + 3)" "\<not> length v < length pre + 18"
    by (simp_all add: time_day_def)
  have month: "time_month v (length pre + 3) = ok month"
    by (rule month_behind [of _ "pre @ two mday @ bytes ''-''"]) (use date in \<open>simp_all add: v\<close>)
  have "char_at (asc CHR ''-'') v (length pre + 3 + 3) = ok ()"
    by (rule char_behind [of _ "pre @ two mday @ bytes ''-'' @ months ! month"]) (use date in \<open>simp_all add: v\<close>)
  moreover have "digits2_at v (length pre + 3 + 4) = ok (year mod 100)"
    by (rule two_behind [of _ "pre @ two mday @ bytes ''-'' @ months ! month @ bytes ''-''"]) (use date in \<open>simp_all add: v\<close>)
  ultimately have year: "time_sep fmt_rfc850 v (length pre + 3 + 3) = ok ()"
    "time_year fmt_rfc850 v (length pre + 3 + 4) = ok (year, length pre + 3 + 4 + 2)"
    using yy by (simp_all add: time_sep_def time_year_def)
  have "time_clock fmt_rfc850 mday month (if fmt_rfc850 = fmt_isoc then year else year) v (length pre + 3 + 4 + 2) =
      ok (date_seconds mday month (of_nat year) hour mi sec)"
    by (rule time_clock_text [of _ "pre @ two mday @ bytes ''-'' @ months ! month @ bytes ''-'' @ two (year mod 100)"])
      (use date in \<open>simp_all add: v\<close>)
  then show ?thesis
    unfolding parse_date_def if_not_P [OF day(2)] day(1) bind_reading.simps prod.case month year time_isoc_day_def by simp
qed

lemma isoc_day:
  assumes v: "v = pre @ months ! month @ SP # (if mday < 10 then [SP, digit mday] else two mday) @ SP # r"
    and date: "month < 12" "mday \<le> 31" and len: "length pre + 20 \<le> length v"
  shows "time_isoc_day fmt_isoc day v (length pre + 4) = ok (mday, length pre + 6)"
proof (cases "mday < 10")
  case True
  have "byte_at v (length pre + 4) = ok SP"
    by (rule byte_behind [of _ "pre @ months ! month @ [SP]"]) (use date True in \<open>simp_all add: v\<close>)
  moreover have "byte_at v (length pre + 5) = ok (digit mday)"
    by (rule byte_behind [of _ "pre @ months ! month @ [SP, SP]"]) (use date True in \<open>simp_all add: v\<close>)
  moreover have "byte_at v (length pre + 6) = ok SP"
    by (rule byte_behind [of _ "pre @ months ! month @ [SP, SP, digit mday]"]) (use date True in \<open>simp_all add: v\<close>)
  ultimately show ?thesis using True len by (simp add: time_isoc_day_def digit_at_def add.commute)
next
  case False
  have "byte_at v (length pre + 4) = ok (digit (mday div 10))"
    by (rule byte_behind [of _ "pre @ months ! month @ [SP]"]) (use date False in \<open>simp_all add: v two_def\<close>)
  moreover have "byte_at v (length pre + 5) = ok (digit (mday mod 10))"
    by (rule byte_behind [of _ "pre @ months ! month @ [SP, digit (mday div 10)]"]) (use date False in \<open>simp_all add: v two_def\<close>)
  ultimately show ?thesis
    using date len digit_ne(1) [of "mday div 10"] digit_ne(1) [of "mday mod 10"]
    by (simp add: time_isoc_day_def digit_at_def add.commute)
qed

lemma date_asctime:
  assumes v: "v = pre @ months ! month @ SP # (if mday < 10 then [SP, digit mday] else two mday) @ SP # clock hour mi sec @ SP # four year"
    and date_ok: "date_ok mday month year hour mi sec"
  shows "parse_date fmt_isoc v (length pre) = ok (date_seconds mday month (of_nat year) hour mi sec)"
proof -
  note date = date_okD [OF date_ok]
  have len: "length v = length pre + 20" using date by (simp add: v)
  have month: "time_month v (length pre) = ok month"
    by (rule month_behind [OF v]) (use date in simp_all)
  have isoc: "time_isoc_day fmt_isoc 32 v (length pre + 4) = ok (mday, length pre + 6)"
    by (rule isoc_day [OF v]) (use date len in simp_all)
  have "time_clock fmt_isoc mday month (if fmt_isoc = fmt_isoc then 2038 else year) v (length pre + 6) =
      ok (date_seconds mday month (of_nat year) hour mi sec)"
    by (rule time_clock_text [of _ "pre @ months ! month @ SP # (if mday < 10 then [SP, digit mday] else two mday)"])
      (use date in \<open>simp_all add: v\<close>)
  then show ?thesis
    using len month isoc by (simp add: parse_date_def time_day_def time_sep_def time_year_def)
qed

lemma skip_comma: "r = [] \<or> hd r \<noteq> SP \<Longrightarrow> skip_spaces (d @ x # SP # r) (Suc (length d)) = length (d @ [x, SP])"
  by (cases r) (auto simp: skip_spaces_def)

lemma skip_none: "r = [] \<or> hd r \<noteq> SP \<Longrightarrow> skip_spaces (pre @ r) (length pre) = length pre"
  by (cases r) (auto simp: skip_spaces_def)

lemma hd_two: "n < 100 \<Longrightarrow> hd (two n @ r) \<noteq> SP"
  using digit_ne(1) [of "n div 10"] by (simp add: two_def less_mult_imp_div_less)

lemma parse_rfc822:
  assumes "SP \<notin> set day" "asc CHR '','' \<notin> set day" "date_ok mday month year hour mi sec"
  shows "ngx_http_parse_time (rfc822_text day mday month year (clock hour mi sec)) =
    ok (date_seconds mday month (of_nat year) hour mi sec)"
  using date_rfc822 [OF refl assms(3), of "day @ bytes '', ''"] date_okD [OF assms(3)]
    skip_comma [of "two mday @ SP # months ! month @ SP # four year @ SP # clock hour mi sec @ bytes '' GMT''" day "asc CHR '',''"]
    hd_two [of mday] time_format_comma [OF assms(1,2)]
  by (simp add: ngx_http_parse_time_def rfc822_text_def)

lemma parse_rfc850:
  assumes "SP \<notin> set day" "asc CHR '','' \<notin> set day" "date_ok mday month year hour mi sec" "1970 \<le> year" "year < 2070"
  shows "ngx_http_parse_time (rfc850_text day mday month year (clock hour mi sec)) =
    ok (date_seconds mday month (of_nat year) hour mi sec)"
  using date_rfc850 [OF refl assms(3-5), of "day @ bytes '', ''"] date_okD [OF assms(3)]
    skip_comma [of "two mday @ asc CHR ''-'' # months ! month @ asc CHR ''-'' # two (year mod 100) @ SP # clock hour mi sec @ bytes '' GMT''" day "asc CHR '',''"]
    hd_two [of mday] time_format_comma [OF assms(1,2)]
  by (simp add: ngx_http_parse_time_def rfc850_text_def)

lemma parse_asctime:
  assumes "SP \<notin> set day" "asc CHR '','' \<notin> set day" "date_ok mday month year hour mi sec"
  shows "ngx_http_parse_time (asctime_text day mday month year (clock hour mi sec)) =
    ok (date_seconds mday month (of_nat year) hour mi sec)"
proof -
  define dd where "dd = (if mday < 10 then [SP, digit mday] else two mday)"
  let ?r = "months ! month @ SP # dd @ SP # clock hour mi sec @ SP # four year"
  have "months ! month \<noteq> [] \<and> hd (months ! month) \<noteq> SP" using months_read [of month] date_okD(1) [OF assms(3)] by auto
  then have "skip_spaces (day @ SP # ?r) (Suc (length day)) = Suc (length day)"
    using skip_none [of ?r "day @ [SP]"] by simp
  moreover have "parse_date fmt_isoc (day @ SP # ?r) (Suc (length day)) =
      ok (date_seconds mday month (of_nat year) hour mi sec)"
    using date_asctime [folded dd_def, OF refl assms(3), of "day @ [SP]"] by (simp add: dd_def)
  moreover have v: "asctime_text day mday month year (clock hour mi sec) = day @ SP # ?r"
    by (simp add: asctime_text_def dd_def)
  ultimately show ?thesis
    unfolding v by (simp add: ngx_http_parse_time_def time_format_space [OF assms(1,2)] del: append_assoc)
qed

text \<open>
  Claim C38. The three formats of a date that HTTP allows are read alike: the ISO C one, that of
  RFC 822, and, for the years it has two digits for, that of RFC 850, whatever day of the week
  is written before them.
\<close>
theorem parse_time_formats:
  assumes "SP \<notin> set day" "asc CHR '','' \<notin> set day" "date_ok mday month year hour mi sec"
  shows "let t = ok (date_seconds mday month (of_nat year) hour mi sec)
    in ngx_http_parse_time (rfc822_text day mday month year (clock hour mi sec)) = t \<and>
       ngx_http_parse_time (asctime_text day mday month year (clock hour mi sec)) = t \<and>
       (1970 \<le> year \<and> year < 2070 \<longrightarrow>
          ngx_http_parse_time (rfc850_text day mday month year (clock hour mi sec)) = t)"
  using parse_rfc822 [OF assms] parse_asctime [OF assms] parse_rfc850 [OF assms] by (simp add: Let_def)

section \<open>There and back\<close>

lemma two_out: "n < 100 \<Longrightarrow> item_out (i_num True 2 m_int (int n)) = two n"
proof -
  assume n: "n < 100"
  show ?thesis
  proof (cases "n < 10")
    case True
    then show ?thesis by (simp add: two_def to_dec_small digit_def)
  next
    case False
    with n have "n div 10 < 10" "10 \<le> n" by auto
    then show ?thesis by (simp add: two_def to_dec_big to_dec_small)
  qed
qed

lemma four_out: "1000 \<le> n \<Longrightarrow> n < 10000 \<Longrightarrow> item_out (i_num False 4 m_int (int n)) = four n"
proof -
  assume n: "1000 \<le> n" "n < 10000"
  have d: "n div 10 div 10 = n div 100" "n div 100 div 10 = n div 1000" by (simp_all add: div_mult2_eq [symmetric])
  have "10 \<le> n" "10 \<le> n div 10" "10 \<le> n div 10 div 10" "n div 10 div 10 div 10 < 10" using n by linarith+
  then have "to_dec n = four n" by (simp add: to_dec_big to_dec_small four_def d)
  then show ?thesis by simp
qed

lemma week_month_text:
  "w < 7 \<Longrightarrow> week ! w \<noteq> [] \<and> NUL \<notin> set (week ! w) \<and> SP \<notin> set (week ! w) \<and> asc CHR '','' \<notin> set (week ! w) \<and> length (week ! w) = 3"
  "m < 12 \<Longrightarrow> NUL \<notin> set (months ! m) \<and> length (months ! m) = 3"
proof -
  assume "w < 7"
  then have "w = 0 \<or> w = 1 \<or> w = 2 \<or> w = 3 \<or> w = 4 \<or> w = 5 \<or> w = 6" by presburger
  then show "week ! w \<noteq> [] \<and> NUL \<notin> set (week ! w) \<and> SP \<notin> set (week ! w) \<and> asc CHR '','' \<notin> set (week ! w) \<and> length (week ! w) = 3"
    by (elim disjE) (simp_all add: week_def)
next
  assume "m < 12"
  then have "m = 0 \<or> m = 1 \<or> m = 2 \<or> m = 3 \<or> m = 4 \<or> m = 5 \<or> m = 6 \<or> m = 7 \<or> m = 8 \<or> m = 9 \<or> m = 10 \<or> m = 11"
    by presburger
  then show "NUL \<notin> set (months ! m) \<and> length (months ! m) = 3"
    by (elim disjE) (simp_all add: months_def)
qed

text \<open>The fields of \<open>ngx_gmtime\<close> as numbers.\<close>

lemma gmtime_fields:
  assumes "unat t < 253402300800"
  obtains days year mon mday hour mi sec where
    "ngx_gmtime t = \<lparr>tm_sec = of_nat sec, tm_min = of_nat mi, tm_hour = of_nat hour, tm_mday = of_nat mday,
       tm_mon = of_nat mon, tm_year = of_nat year, tm_wday = of_nat ((4 + days) mod 7)\<rparr>"
    "gm_date days = (year, mon, mday)" "days < 2932897" "hour < 24" "mi < 60" "sec < 60"
    "unat t = days * 86400 + hour * 3600 + mi * 60 + sec"
proof -
  define days where "days = unat t div 86400"
  obtain year mon mday where g: "gm_date days = (year, mon, mday)" by (metis surj_pair)
  define n where "n = unat t mod 86400"
  have n: "unat t = days * 86400 + n" "n < 86400" by (simp_all add: days_def n_def)
  have c: "n = n div 3600 * 3600 + n mod 3600 div 60 * 60 + n mod 3600 mod 60" by simp
  have small: "n div 3600 < 24" "n mod 3600 div 60 < 60" "n mod 3600 mod 60 < 60"
    using n(2) by (simp_all add: less_mult_imp_div_less)
  have "ngx_gmtime t = \<lparr>tm_sec = of_nat (n mod 3600 mod 60), tm_min = of_nat (n mod 3600 div 60), tm_hour = of_nat (n div 3600),
      tm_mday = of_nat mday, tm_mon = of_nat mon, tm_year = of_nat year, tm_wday = of_nat ((4 + days) mod 7)\<rparr>"
    by (simp only: ngx_gmtime_def Let_def days_def [symmetric] n_def [symmetric] g prod.case)
  moreover have "days < 2932897" using assms n by simp
  moreover have "unat t = days * 86400 + n div 3600 * 3600 + n mod 3600 div 60 * 60 + n mod 3600 mod 60"
    using n(1) c by simp
  ultimately show ?thesis using that g small by blast
qed

text \<open>
  Claim C37. Up to the year 9999, the date that \<open>ngx_http_time\<close> prints for a time is read back by
  \<open>ngx_http_parse_time\<close> as that time; it has the 29 bytes that the headers reserve for it.
\<close>
theorem http_time_roundtrip:
  assumes "unat t < 253402300800"
  shows "\<exists>s. ngx_http_time t = Some s \<and> length s = 29 \<and> ngx_http_parse_time s = ok t"
proof -
  obtain days year mon mday hour mi sec where
    gm: "ngx_gmtime t = \<lparr>tm_sec = of_nat sec, tm_min = of_nat mi, tm_hour = of_nat hour, tm_mday = of_nat mday,
       tm_mon = of_nat mon, tm_year = of_nat year, tm_wday = of_nat ((4 + days) mod 7)\<rparr>"
    and g: "gm_date days = (year, mon, mday)" "days < 2932897" "hour < 24" "mi < 60" "sec < 60"
    and t: "unat t = days * 86400 + hour * 3600 + mi * 60 + sec" by (rule gmtime_fields [OF assms])
  have "days < 2 ^ 60" using g(2) by simp
  note v = gm_date_valid [OF g(1) this]
  have year: "1000 \<le> year" "year < 10000" using v(3) v(4) [OF g(2)] by simp_all
  let ?w = "(4 + days) mod 7"
  have w: "unat (of_nat ?w :: u32) = ?w" by (simp add: unat_of_nat take_bit_nat_eq_self)
  have m: "unat (of_nat mon - 1 :: u32) = mon - 1"
  proof -
    have "(of_nat mon - 1 :: u32) = of_nat (mon - 1)" using v(1) by (simp add: of_nat_diff)
    moreover have "mon \<le> 12" using v(1) by blast
    then have "mon - 1 < 2 ^ 32" by simp
    then have "unat (of_nat (mon - 1) :: u32) = mon - 1" by (simp add: unat_of_nat take_bit_nat_eq_self)
    ultimately show ?thesis by simp
  qed
  have "mon - 1 < 12" using v(1) by linarith
  note wm = week_month_text(1) [of ?w, simplified] week_month_text(2) [OF this]
  let ?items = "[i_s (week ! ?w), i_text (bytes '', ''), i_num True 2 m_int (int mday), i_text (bytes '' ''), i_s (months ! (mon - 1)),
    i_text (bytes '' ''), i_num False 4 m_int (int year), i_text (bytes '' ''), i_num True 2 m_int (int hour), i_text (bytes '':''),
    i_num True 2 m_int (int mi), i_text (bytes '':''), i_num True 2 m_int (int sec), i_text (bytes '' GMT'')]"
  have ok: "\<forall>i \<in> set ?items. item_ok i" using wm v(1) year g(3-5) by auto
  have fmt: "concat (map item_fmt ?items) = bytes ''%s, %02d %s %4d %02d:%02d:%02d GMT''"
    by (simp add: to_dec_small digit_def)
  let ?s = "rfc822_text (week ! ?w) mday (mon - 1) year (clock hour mi sec)"
  have out: "concat (map item_out ?items) = ?s"
    using two_out [of mday] two_out [of hour] two_out [of mi] two_out [of sec] four_out [OF year] v(1) g(3-5)
    by (simp add: rfc822_text_def clock_def del: item_out.simps(4))
  have len: "length ?s = 29" using wm by (simp add: rfc822_text_def)
  have "ngx_http_time t = Some (take (2 ^ 64 - 1) ?s)"
    using vslprintf_items [OF ok, of "2 ^ 64 - 1", unfolded fmt out]
    by (simp add: ngx_http_time_def gm w m ngx_sprintf_def del: bytes_simps)
  then have "ngx_http_time t = Some ?s" using len by simp
  moreover have "ngx_http_parse_time ?s = ok (date_seconds mday (mon - 1) (of_nat year) hour mi sec)"
    by (rule parse_rfc822) (use wm v(1) year g(3-5) in \<open>auto simp: date_ok_def\<close>)
  moreover have "date_seconds mday (mon - 1) (of_nat year) hour mi sec = t"
    unfolding v(2) t [symmetric] by simp
  ultimately show ?thesis using len by auto
qed

theorem http_time_roundtrip_witness:
  "\<exists>s. ngx_http_time 784111777 = Some s \<and> length s = 29 \<and> ngx_http_parse_time s = ok 784111777"
proof -
  have "unat (784111777 :: u64) < 253402300800" by simp
  from http_time_roundtrip [OF this] show ?thesis .
qed

theorem parse_time_formats_witness:
  "ngx_http_parse_time (bytes ''Sunday, 06-Nov-94 08:49:37 GMT'') = ok 784111777 \<and>
   ngx_http_parse_time (bytes ''Sunday Nov  6 08:49:37 1994'') = ok 784111777"
proof -
  have "SP \<notin> set (bytes ''Sunday'')" "asc CHR '','' \<notin> set (bytes ''Sunday'')" "date_ok 6 10 1994 8 49 37" by code_simp+
  from parse_time_formats [OF this]
  have "ngx_http_parse_time (asctime_text (bytes ''Sunday'') 6 10 1994 (clock 8 49 37)) = ok (date_seconds 6 10 (of_nat 1994) 8 49 37)"
    "ngx_http_parse_time (rfc850_text (bytes ''Sunday'') 6 10 1994 (clock 8 49 37)) = ok (date_seconds 6 10 (of_nat 1994) 8 49 37)"
    by (simp_all add: Let_def)
  moreover have "asctime_text (bytes ''Sunday'') 6 10 1994 (clock 8 49 37) = bytes ''Sunday Nov  6 08:49:37 1994''" by code_simp
  moreover have "rfc850_text (bytes ''Sunday'') 6 10 1994 (clock 8 49 37) = bytes ''Sunday, 06-Nov-94 08:49:37 GMT''" by code_simp
  moreover have "date_seconds 6 10 (of_nat 1994) 8 49 37 = 784111777" by code_simp
  ultimately show ?thesis by (simp only: simp_thms)
qed

text \<open>The day 0 is not rejected: it is the last day of the month before.\<close>

lemma parse_time_day_zero:
  "ngx_http_parse_time (bytes ''Sun, 00 Nov 1994 08:49:37 GMT'') = ngx_http_parse_time (bytes ''Mon, 31 Oct 1994 08:49:37 GMT'')"
  by code_simp

end
