(* ===== verification/HttpLine.thy ===== *)
theory HttpLine
  imports Prelude
begin

unbundle bit_operations_syntax

text \<open>
  \<open>ngx_http_parse_request_line\<close> of src/http/ngx_http_parse.c, the state machine that reads the
  request line. The buffer is the list of bytes received so far; a pointer into it is an
  index, \<open>NULL\<close> is \<open>None\<close>. The request keeps the state between two calls, and a call goes on at
  \<open>b->pos\<close>, behind the bytes already read. The build is little endian with unaligned access,
  so the method comparisons are the word comparisons of the first branch of the macros; each
  is a comparison of the bytes it reads.
\<close>

section \<open>Data\<close>

abbreviation (input) NGX_HTTP_UNKNOWN :: nat where "NGX_HTTP_UNKNOWN \<equiv> 0x0001"
abbreviation (input) NGX_HTTP_GET :: nat where "NGX_HTTP_GET \<equiv> 0x0002"
abbreviation (input) NGX_HTTP_HEAD :: nat where "NGX_HTTP_HEAD \<equiv> 0x0004"
abbreviation (input) NGX_HTTP_POST :: nat where "NGX_HTTP_POST \<equiv> 0x0008"
abbreviation (input) NGX_HTTP_PUT :: nat where "NGX_HTTP_PUT \<equiv> 0x0010"
abbreviation (input) NGX_HTTP_DELETE :: nat where "NGX_HTTP_DELETE \<equiv> 0x0020"
abbreviation (input) NGX_HTTP_MKCOL :: nat where "NGX_HTTP_MKCOL \<equiv> 0x0040"
abbreviation (input) NGX_HTTP_COPY :: nat where "NGX_HTTP_COPY \<equiv> 0x0080"
abbreviation (input) NGX_HTTP_MOVE :: nat where "NGX_HTTP_MOVE \<equiv> 0x0100"
abbreviation (input) NGX_HTTP_OPTIONS :: nat where "NGX_HTTP_OPTIONS \<equiv> 0x0200"
abbreviation (input) NGX_HTTP_PROPFIND :: nat where "NGX_HTTP_PROPFIND \<equiv> 0x0400"
abbreviation (input) NGX_HTTP_PROPPATCH :: nat where "NGX_HTTP_PROPPATCH \<equiv> 0x0800"
abbreviation (input) NGX_HTTP_LOCK :: nat where "NGX_HTTP_LOCK \<equiv> 0x1000"
abbreviation (input) NGX_HTTP_UNLOCK :: nat where "NGX_HTTP_UNLOCK \<equiv> 0x2000"
abbreviation (input) NGX_HTTP_PATCH :: nat where "NGX_HTTP_PATCH \<equiv> 0x4000"
abbreviation (input) NGX_HTTP_TRACE :: nat where "NGX_HTTP_TRACE \<equiv> 0x8000"

definition NGX_HTTP_PARSE_INVALID_METHOD :: i64 where "NGX_HTTP_PARSE_INVALID_METHOD = 10"
definition NGX_HTTP_PARSE_INVALID_REQUEST :: i64 where "NGX_HTTP_PARSE_INVALID_REQUEST = 11"
definition NGX_HTTP_PARSE_INVALID_09_METHOD :: i64 where "NGX_HTTP_PARSE_INVALID_09_METHOD = 12"

declare NGX_HTTP_PARSE_INVALID_METHOD_def [res_simps] NGX_HTTP_PARSE_INVALID_REQUEST_def [res_simps]
  NGX_HTTP_PARSE_INVALID_09_METHOD_def [res_simps]

text \<open>The bytes that mean nothing special in a URI.\<close>

definition usual :: "u32 list" where
  "usual = [0xffffdbfe, 0x7fff37d6, 0xffffffff, 0xffffffff,
            0xffffffff, 0xffffffff, 0xffffffff, 0xffffffff]"

datatype rl_state =
    sw_start | sw_method | sw_spaces_before_uri | sw_schema | sw_schema_slash
  | sw_schema_slash_slash | sw_host_start | sw_host | sw_host_end | sw_host_ip_literal | sw_port
  | sw_host_http_09 | sw_after_slash_in_uri | sw_check_uri | sw_check_uri_http_09 | sw_uri
  | sw_http_09 | sw_http_H | sw_http_HT | sw_http_HTT | sw_http_HTTP | sw_first_major_digit
  | sw_major_digit | sw_first_minor_digit | sw_minor_digit | sw_spaces_after_digit | sw_almost_done

text \<open>
  The fields of \<open>ngx_http_request_t\<close> the parser owns. \<open>http_major\<close> and \<open>http_minor\<close> are bit
  fields of 16 bits.
\<close>

record rline =
  rstate :: rl_state
  request_start :: "nat option"
  method_end :: "nat option"
  rmethod :: nat
  schema_start :: "nat option"
  schema_end :: "nat option"
  host_start :: "nat option"
  host_end :: "nat option"
  port_end :: "nat option"
  uri_start :: "nat option"
  uri_end :: "nat option"
  uri_ext :: "nat option"
  args_start :: "nat option"
  http_protocol :: "nat option"
  request_end :: "nat option"
  complex_uri :: bool
  quoted_uri :: bool
  plus_in_uri :: bool
  space_in_uri :: bool
  http_major :: u16
  http_minor :: u16
  http_version :: nat

text \<open>\<open>ngx_http_create_request\<close>: zeroed memory, method unknown, version 1.0.\<close>

definition rline_init :: rline where
  "rline_init = \<lparr>rstate = sw_start, request_start = None, method_end = None,
     rmethod = NGX_HTTP_UNKNOWN, schema_start = None, schema_end = None, host_start = None,
     host_end = None, port_end = None, uri_start = None, uri_end = None, uri_ext = None,
     args_start = None, http_protocol = None, request_end = None, complex_uri = False,
     quoted_uri = False, plus_in_uri = False, space_in_uri = False, http_major = 0,
     http_minor = 0, http_version = 1000\<rparr>"

text \<open>
  How a step leaves the loop: \<open>goto done\<close>, or a \<open>return\<close> of an error; \<open>rl_undef\<close> is a read
  through a null pointer, which never happens (\<open>request_line_no_fault\<close>).
\<close>

datatype rl_stop = rl_done rline | rl_fail i64 | rl_undef

abbreviation rl_invalid :: "rline + rl_stop" where
  "rl_invalid \<equiv> Inr (rl_fail NGX_HTTP_PARSE_INVALID_REQUEST)"

section \<open>The method\<close>

text \<open>
  \<open>method_code w\<close>: the switch over \<open>p - m\<close>, \<open>w\<close> being the bytes from \<open>m\<close> up to, not including,
  the space at \<open>p\<close>. The comparisons of three and seven letters include that space.
\<close>

definition method_code :: "byte list \<Rightarrow> nat option" where
  "method_code w =
     (if length w = 3 then
        (if w = bytes ''GET'' then Some NGX_HTTP_GET
         else if w = bytes ''PUT'' then Some NGX_HTTP_PUT else None)
      else if length w = 4 then
        (if w ! 1 = asc CHR ''O'' then
           (if w = bytes ''POST'' then Some NGX_HTTP_POST
            else if w = bytes ''COPY'' then Some NGX_HTTP_COPY
            else if w = bytes ''MOVE'' then Some NGX_HTTP_MOVE
            else if w = bytes ''LOCK'' then Some NGX_HTTP_LOCK else None)
         else if w = bytes ''HEAD'' then Some NGX_HTTP_HEAD else None)
      else if length w = 5 then
        (if w = bytes ''MKCOL'' then Some NGX_HTTP_MKCOL
         else if w = bytes ''PATCH'' then Some NGX_HTTP_PATCH
         else if w = bytes ''TRACE'' then Some NGX_HTTP_TRACE else None)
      else if length w = 6 then
        (if w = bytes ''DELETE'' then Some NGX_HTTP_DELETE
         else if w = bytes ''UNLOCK'' then Some NGX_HTTP_UNLOCK else None)
      else if length w = 7 then
        (if w = bytes ''OPTIONS'' then Some NGX_HTTP_OPTIONS else None)
      else if length w = 8 then
        (if w = bytes ''PROPFIND'' then Some NGX_HTTP_PROPFIND else None)
      else if length w = 9 then
        (if w = bytes ''PROPPATCH'' then Some NGX_HTTP_PROPPATCH else None)
      else None)"

definition set_method :: "nat option \<Rightarrow> rline \<Rightarrow> rline" where
  "set_method m r = (case m of None \<Rightarrow> r | Some x \<Rightarrow> r\<lparr>rmethod := x\<rparr>)"

definition is_method_char :: "byte \<Rightarrow> bool" where
  "is_method_char ch \<longleftrightarrow> \<not> ((ch < asc CHR ''A'' \<or> ch > asc CHR ''Z'') \<and> ch \<noteq> asc CHR ''_'')"

definition st_start :: "nat \<Rightarrow> rline \<Rightarrow> byte \<Rightarrow> rline + rl_stop" where
  "st_start p r0 ch =
     (let r = r0\<lparr>request_start := Some p\<rparr> in
      if ch = CR \<or> ch = LF then Inl r
      else if (ch < asc CHR ''A'' \<or> ch > asc CHR ''Z'') \<and> ch \<noteq> asc CHR ''_'' then
        Inr (rl_fail NGX_HTTP_PARSE_INVALID_METHOD)
      else Inl (r\<lparr>rstate := sw_method\<rparr>))"

definition st_method :: "byte list \<Rightarrow> nat \<Rightarrow> rline \<Rightarrow> byte \<Rightarrow> rline + rl_stop" where
  "st_method d p r ch =
     (if ch = SP then
        (case request_start r of
           None \<Rightarrow> Inr rl_undef
         | Some m \<Rightarrow> Inl ((set_method (method_code (seg m p d)) (r\<lparr>method_end := Some (p - 1)\<rparr>))
             \<lparr>rstate := sw_spaces_before_uri\<rparr>))
      else if (ch < asc CHR ''A'' \<or> ch > asc CHR ''Z'') \<and> ch \<noteq> asc CHR ''_'' then
        Inr (rl_fail NGX_HTTP_PARSE_INVALID_METHOD)
      else Inl r)"

section \<open>Schema, host and port\<close>

definition is_alpha :: "byte \<Rightarrow> bool" where
  "is_alpha ch \<longleftrightarrow> (let c = ch OR 0x20 in asc CHR ''a'' \<le> c \<and> c \<le> asc CHR ''z'')"

definition st_spaces_before_uri :: "nat \<Rightarrow> rline \<Rightarrow> byte \<Rightarrow> rline + rl_stop" where
  "st_spaces_before_uri p r ch =
     (if ch = asc CHR ''/'' then Inl (r\<lparr>uri_start := Some p, rstate := sw_after_slash_in_uri\<rparr>)
      else if is_alpha ch then Inl (r\<lparr>schema_start := Some p, rstate := sw_schema\<rparr>)
      else if ch = SP then Inl r
      else rl_invalid)"

definition st_schema :: "nat \<Rightarrow> rline \<Rightarrow> byte \<Rightarrow> rline + rl_stop" where
  "st_schema p r ch =
     (if is_alpha ch then Inl r
      else if ch = asc CHR '':'' then Inl (r\<lparr>schema_end := Some p, rstate := sw_schema_slash\<rparr>)
      else rl_invalid)"

definition st_schema_slash :: "rline \<Rightarrow> byte \<Rightarrow> rline + rl_stop" where
  "st_schema_slash r ch =
     (if ch = asc CHR ''/'' then Inl (r\<lparr>rstate := sw_schema_slash_slash\<rparr>) else rl_invalid)"

definition st_schema_slash_slash :: "rline \<Rightarrow> byte \<Rightarrow> rline + rl_stop" where
  "st_schema_slash_slash r ch =
     (if ch = asc CHR ''/'' then Inl (r\<lparr>rstate := sw_host_start\<rparr>) else rl_invalid)"

text \<open>\<open>uri_start = schema_end + 1; uri_end = schema_end + 2\<close>: the first slash of \<open>//host\<close>.\<close>

definition slash_of_schema :: "rline \<Rightarrow> rline + rl_stop" where
  "slash_of_schema r =
     (case schema_end r of
        None \<Rightarrow> Inr rl_undef
      | Some e \<Rightarrow> Inl (r\<lparr>uri_start := Some (e + 1), uri_end := Some (e + 2), rstate := sw_host_http_09\<rparr>))"

definition st_host_end :: "nat \<Rightarrow> rline \<Rightarrow> byte \<Rightarrow> rline + rl_stop" where
  "st_host_end p r0 ch =
     (let r = r0\<lparr>host_end := Some p\<rparr> in
      if ch = asc CHR '':'' then Inl (r\<lparr>rstate := sw_port\<rparr>)
      else if ch = asc CHR ''/'' then Inl (r\<lparr>uri_start := Some p, rstate := sw_after_slash_in_uri\<rparr>)
      else if ch = SP then slash_of_schema r
      else rl_invalid)"

definition st_host :: "nat \<Rightarrow> rline \<Rightarrow> byte \<Rightarrow> rline + rl_stop" where
  "st_host p r ch =
     (if is_alpha ch then Inl r
      else if asc CHR ''0'' \<le> ch \<and> ch \<le> asc CHR ''9'' \<or> ch = asc CHR ''.'' \<or> ch = asc CHR ''-'' then Inl r
      else st_host_end p r ch)"

definition st_host_start :: "nat \<Rightarrow> rline \<Rightarrow> byte \<Rightarrow> rline + rl_stop" where
  "st_host_start p r0 ch =
     (let r = r0\<lparr>host_start := Some p\<rparr> in
      if ch = asc CHR ''['' then Inl (r\<lparr>rstate := sw_host_ip_literal\<rparr>)
      else st_host p (r\<lparr>rstate := sw_host\<rparr>) ch)"

definition st_host_ip_literal :: "rline \<Rightarrow> byte \<Rightarrow> rline + rl_stop" where
  "st_host_ip_literal r ch =
     (if asc CHR ''0'' \<le> ch \<and> ch \<le> asc CHR ''9'' then Inl r
      else if is_alpha ch then Inl r
      else if ch = asc CHR '':'' then Inl r
      else if ch = asc CHR '']'' then Inl (r\<lparr>rstate := sw_host_end\<rparr>)
      else if ch \<in> set (bytes ''-._~'') then Inl r
      else if ch \<in> set (asc CHR 0x27 # bytes ''!$&()*+,;='') then Inl r
      else rl_invalid)"

definition st_port :: "nat \<Rightarrow> rline \<Rightarrow> byte \<Rightarrow> rline + rl_stop" where
  "st_port p r ch =
     (if asc CHR ''0'' \<le> ch \<and> ch \<le> asc CHR ''9'' then Inl r
      else if ch = asc CHR ''/'' then
        Inl (r\<lparr>port_end := Some p, uri_start := Some p, rstate := sw_after_slash_in_uri\<rparr>)
      else if ch = SP then slash_of_schema (r\<lparr>port_end := Some p\<rparr>)
      else rl_invalid)"

text \<open>The three places that expect \<open>HTTP\<close>, the end of the line, or (but here) more of the URI.\<close>

definition st_host_http_09 :: "nat \<Rightarrow> rline \<Rightarrow> byte \<Rightarrow> rline + rl_stop" where
  "st_host_http_09 p r ch =
     (if ch = SP then Inl r
      else if ch = CR then Inl (r\<lparr>http_minor := 9, rstate := sw_almost_done\<rparr>)
      else if ch = LF then Inr (rl_done (r\<lparr>http_minor := 9\<rparr>))
      else if ch = asc CHR ''H'' then Inl (r\<lparr>http_protocol := Some p, rstate := sw_http_H\<rparr>)
      else rl_invalid)"

section \<open>URI\<close>

definition st_after_slash_in_uri :: "nat \<Rightarrow> rline \<Rightarrow> byte \<Rightarrow> rline + rl_stop" where
  "st_after_slash_in_uri p r ch =
     (if bitmap_test usual ch then Inl (r\<lparr>rstate := sw_check_uri\<rparr>)
      else if ch = SP then Inl (r\<lparr>uri_end := Some p, rstate := sw_check_uri_http_09\<rparr>)
      else if ch = CR then Inl (r\<lparr>uri_end := Some p, http_minor := 9, rstate := sw_almost_done\<rparr>)
      else if ch = LF then Inr (rl_done (r\<lparr>uri_end := Some p, http_minor := 9\<rparr>))
      else if ch = asc CHR ''.'' then Inl (r\<lparr>complex_uri := True, rstate := sw_uri\<rparr>)
      else if ch = asc CHR ''%'' then Inl (r\<lparr>quoted_uri := True, rstate := sw_uri\<rparr>)
      else if ch = asc CHR ''/'' then Inl (r\<lparr>complex_uri := True, rstate := sw_uri\<rparr>)
      else if ch = asc CHR ''?'' then Inl (r\<lparr>args_start := Some (p + 1), rstate := sw_uri\<rparr>)
      else if ch = asc CHR ''#'' then Inl (r\<lparr>complex_uri := True, rstate := sw_uri\<rparr>)
      else if ch = asc CHR ''+'' then Inl (r\<lparr>plus_in_uri := True\<rparr>)
      else if ch = NUL then rl_invalid
      else Inl (r\<lparr>rstate := sw_check_uri\<rparr>))"

definition st_check_uri :: "nat \<Rightarrow> rline \<Rightarrow> byte \<Rightarrow> rline + rl_stop" where
  "st_check_uri p r ch =
     (if bitmap_test usual ch then Inl r
      else if ch = asc CHR ''/'' then Inl (r\<lparr>uri_ext := None, rstate := sw_after_slash_in_uri\<rparr>)
      else if ch = asc CHR ''.'' then Inl (r\<lparr>uri_ext := Some (p + 1)\<rparr>)
      else if ch = SP then Inl (r\<lparr>uri_end := Some p, rstate := sw_check_uri_http_09\<rparr>)
      else if ch = CR then Inl (r\<lparr>uri_end := Some p, http_minor := 9, rstate := sw_almost_done\<rparr>)
      else if ch = LF then Inr (rl_done (r\<lparr>uri_end := Some p, http_minor := 9\<rparr>))
      else if ch = asc CHR ''%'' then Inl (r\<lparr>quoted_uri := True, rstate := sw_uri\<rparr>)
      else if ch = asc CHR ''?'' then Inl (r\<lparr>args_start := Some (p + 1), rstate := sw_uri\<rparr>)
      else if ch = asc CHR ''#'' then Inl (r\<lparr>complex_uri := True, rstate := sw_uri\<rparr>)
      else if ch = asc CHR ''+'' then Inl (r\<lparr>plus_in_uri := True\<rparr>)
      else if ch = NUL then rl_invalid
      else Inl r)"

text \<open>\<open>p--\<close> under the loop's \<open>p++\<close>: the same byte is handled again in the new state.\<close>

definition st_check_uri_http_09 :: "nat \<Rightarrow> rline \<Rightarrow> byte \<Rightarrow> rline + rl_stop" where
  "st_check_uri_http_09 p r ch =
     (if ch = SP then Inl r
      else if ch = CR then Inl (r\<lparr>http_minor := 9, rstate := sw_almost_done\<rparr>)
      else if ch = LF then Inr (rl_done (r\<lparr>http_minor := 9\<rparr>))
      else if ch = asc CHR ''H'' then Inl (r\<lparr>http_protocol := Some p, rstate := sw_http_H\<rparr>)
      else st_check_uri p (r\<lparr>space_in_uri := True, rstate := sw_check_uri\<rparr>) ch)"

definition st_uri :: "nat \<Rightarrow> rline \<Rightarrow> byte \<Rightarrow> rline + rl_stop" where
  "st_uri p r ch =
     (if bitmap_test usual ch then Inl r
      else if ch = SP then Inl (r\<lparr>uri_end := Some p, rstate := sw_http_09\<rparr>)
      else if ch = CR then Inl (r\<lparr>uri_end := Some p, http_minor := 9, rstate := sw_almost_done\<rparr>)
      else if ch = LF then Inr (rl_done (r\<lparr>uri_end := Some p, http_minor := 9\<rparr>))
      else if ch = asc CHR ''#'' then Inl (r\<lparr>complex_uri := True\<rparr>)
      else if ch = NUL then rl_invalid
      else Inl r)"

definition st_http_09 :: "nat \<Rightarrow> rline \<Rightarrow> byte \<Rightarrow> rline + rl_stop" where
  "st_http_09 p r ch =
     (if ch = SP then Inl r
      else if ch = CR then Inl (r\<lparr>http_minor := 9, rstate := sw_almost_done\<rparr>)
      else if ch = LF then Inr (rl_done (r\<lparr>http_minor := 9\<rparr>))
      else if ch = asc CHR ''H'' then Inl (r\<lparr>http_protocol := Some p, rstate := sw_http_H\<rparr>)
      else st_uri p (r\<lparr>space_in_uri := True, rstate := sw_uri\<rparr>) ch)"

section \<open>Version and end of line\<close>

definition st_expect :: "byte \<Rightarrow> rl_state \<Rightarrow> rline \<Rightarrow> byte \<Rightarrow> rline + rl_stop" where
  "st_expect x st r ch = (if ch = x then Inl (r\<lparr>rstate := st\<rparr>) else rl_invalid)"

definition st_first_major_digit :: "rline \<Rightarrow> byte \<Rightarrow> rline + rl_stop" where
  "st_first_major_digit r ch =
     (if ch < asc CHR ''1'' \<or> ch > asc CHR ''9'' then rl_invalid
      else Inl (r\<lparr>http_major := ucast (ch - asc CHR ''0''), rstate := sw_major_digit\<rparr>))"

definition st_major_digit :: "rline \<Rightarrow> byte \<Rightarrow> rline + rl_stop" where
  "st_major_digit r ch =
     (if ch = asc CHR ''.'' then Inl (r\<lparr>rstate := sw_first_minor_digit\<rparr>)
      else if ch < asc CHR ''0'' \<or> ch > asc CHR ''9'' then rl_invalid
      else Inl (r\<lparr>http_major := http_major r * 10 + ucast (ch - asc CHR ''0'')\<rparr>))"

definition st_first_minor_digit :: "rline \<Rightarrow> byte \<Rightarrow> rline + rl_stop" where
  "st_first_minor_digit r ch =
     (if ch < asc CHR ''0'' \<or> ch > asc CHR ''9'' then rl_invalid
      else Inl (r\<lparr>http_minor := ucast (ch - asc CHR ''0''), rstate := sw_minor_digit\<rparr>))"

definition st_minor_digit :: "rline \<Rightarrow> byte \<Rightarrow> rline + rl_stop" where
  "st_minor_digit r ch =
     (if ch = CR then Inl (r\<lparr>rstate := sw_almost_done\<rparr>)
      else if ch = LF then Inr (rl_done r)
      else if ch = SP then Inl (r\<lparr>rstate := sw_spaces_after_digit\<rparr>)
      else if ch < asc CHR ''0'' \<or> ch > asc CHR ''9'' then rl_invalid
      else Inl (r\<lparr>http_minor := http_minor r * 10 + ucast (ch - asc CHR ''0'')\<rparr>))"

definition st_spaces_after_digit :: "rline \<Rightarrow> byte \<Rightarrow> rline + rl_stop" where
  "st_spaces_after_digit r ch =
     (if ch = SP then Inl r
      else if ch = CR then Inl (r\<lparr>rstate := sw_almost_done\<rparr>)
      else if ch = LF then Inr (rl_done r)
      else rl_invalid)"

definition st_almost_done :: "nat \<Rightarrow> rline \<Rightarrow> byte \<Rightarrow> rline + rl_stop" where
  "st_almost_done p r ch =
     (if ch = LF then Inr (rl_done (r\<lparr>request_end := Some (p - 1)\<rparr>)) else rl_invalid)"

section \<open>The parser\<close>

definition rl_step :: "byte list \<Rightarrow> nat \<Rightarrow> rline \<Rightarrow> byte \<Rightarrow> rline + rl_stop" where
  "rl_step d p r ch = (case rstate r of
     sw_start \<Rightarrow> st_start p r ch
   | sw_method \<Rightarrow> st_method d p r ch
   | sw_spaces_before_uri \<Rightarrow> st_spaces_before_uri p r ch
   | sw_schema \<Rightarrow> st_schema p r ch
   | sw_schema_slash \<Rightarrow> st_schema_slash r ch
   | sw_schema_slash_slash \<Rightarrow> st_schema_slash_slash r ch
   | sw_host_start \<Rightarrow> st_host_start p r ch
   | sw_host \<Rightarrow> st_host p r ch
   | sw_host_end \<Rightarrow> st_host_end p r ch
   | sw_host_ip_literal \<Rightarrow> st_host_ip_literal r ch
   | sw_port \<Rightarrow> st_port p r ch
   | sw_host_http_09 \<Rightarrow> st_host_http_09 p r ch
   | sw_after_slash_in_uri \<Rightarrow> st_after_slash_in_uri p r ch
   | sw_check_uri \<Rightarrow> st_check_uri p r ch
   | sw_check_uri_http_09 \<Rightarrow> st_check_uri_http_09 p r ch
   | sw_uri \<Rightarrow> st_uri p r ch
   | sw_http_09 \<Rightarrow> st_http_09 p r ch
   | sw_http_H \<Rightarrow> st_expect (asc CHR ''T'') sw_http_HT r ch
   | sw_http_HT \<Rightarrow> st_expect (asc CHR ''T'') sw_http_HTT r ch
   | sw_http_HTT \<Rightarrow> st_expect (asc CHR ''P'') sw_http_HTTP r ch
   | sw_http_HTTP \<Rightarrow> st_expect (asc CHR ''/'') sw_first_major_digit r ch
   | sw_first_major_digit \<Rightarrow> st_first_major_digit r ch
   | sw_major_digit \<Rightarrow> st_major_digit r ch
   | sw_first_minor_digit \<Rightarrow> st_first_minor_digit r ch
   | sw_minor_digit \<Rightarrow> st_minor_digit r ch
   | sw_spaces_after_digit \<Rightarrow> st_spaces_after_digit r ch
   | sw_almost_done \<Rightarrow> st_almost_done p r ch)"

definition rl_finish :: "nat \<Rightarrow> rline \<Rightarrow> rline \<times> i64" where
  "rl_finish p r0 =
     (let r = (if request_end r0 = None then r0\<lparr>request_end := Some p\<rparr> else r0);
          r = r\<lparr>http_version := unat (http_major r) * 1000 + unat (http_minor r), rstate := sw_start\<rparr>
      in (r, if http_version r = 9 \<and> rmethod r \<noteq> NGX_HTTP_GET
             then NGX_HTTP_PARSE_INVALID_09_METHOD else NGX_OK))"

text \<open>
  A call on the buffer \<open>d\<close> at \<open>b->pos = p\<close>: return code, request, new \<open>b->pos\<close>. After an error the
  request and the position are not used again; only the code is kept.
\<close>

datatype rl_result = rl_again rline nat | rl_return i64 rline nat | rl_error i64 | rl_fault

definition ngx_http_parse_request_line :: "byte list \<Rightarrow> nat \<Rightarrow> rline \<Rightarrow> rl_result" where
  "ngx_http_parse_request_line d p r =
     (case feed rl_step d p r of
        Inl r' \<Rightarrow> rl_again r' (max p (length d))
      | Inr (q, rl_fail e) \<Rightarrow> rl_error e
      | Inr (q, rl_undef) \<Rightarrow> rl_fault
      | Inr (q, rl_done r') \<Rightarrow> (case rl_finish q r' of (r'', rc) \<Rightarrow> rl_return rc r'' (q + 1)))"

section \<open>Parsing in pieces\<close>

lemmas st_defs = st_start_def st_method_def st_spaces_before_uri_def st_schema_def st_schema_slash_def
  st_schema_slash_slash_def st_host_start_def st_host_def st_host_end_def st_host_ip_literal_def
  st_port_def st_host_http_09_def st_after_slash_in_uri_def st_check_uri_def
  st_check_uri_http_09_def st_uri_def st_http_09_def st_expect_def st_first_major_digit_def
  st_major_digit_def st_first_minor_digit_def st_minor_digit_def st_spaces_after_digit_def
  st_almost_done_def slash_of_schema_def

lemma rl_step_append: "p < length d \<Longrightarrow> rl_step (d @ e) p r c = rl_step d p r c"
  by (simp add: rl_step_def st_method_def seg_append split: rl_state.split option.split)

interpretation rl: incremental rl_step
  by unfold_locales (rule rl_step_append)

text \<open>
  Claim C4. A request line may arrive in any number of pieces: after \<open>NGX_AGAIN\<close>, the call on
  the buffer with more bytes in it, from the saved position and request, returns what one call
  on all the bytes returns; any other result does not depend on the bytes behind it.
\<close>
theorem request_line_resumable:
  assumes "p \<le> length d"
  shows "case ngx_http_parse_request_line d p r of
      rl_again r' q \<Rightarrow> q = length d \<and> ngx_http_parse_request_line (d @ e) p r =
        ngx_http_parse_request_line (d @ e) q r'
    | res \<Rightarrow> ngx_http_parse_request_line (d @ e) p r = res"
proof (cases "feed rl_step d p r")
  case (Inl r')
  with assms show ?thesis
    by (simp add: ngx_http_parse_request_line_def rl.feed_again [OF assms Inl] max_absorb2
        split: sum.split)
next
  case (Inr qr)
  with rl.feed_stop [OF assms Inr] show ?thesis
    by (cases qr; cases "snd qr")
      (simp_all add: ngx_http_parse_request_line_def rl_finish_def Let_def)
qed

definition rl_is_again :: "rl_result \<Rightarrow> bool" where
  "rl_is_again res = (case res of rl_again r q \<Rightarrow> True | _ \<Rightarrow> False)"

theorem request_line_resumable_witness:
  "\<exists>r' q. ngx_http_parse_request_line (bytes ''GET /'') 0 rline_init = rl_again r' q \<and>
     ngx_http_parse_request_line (bytes ''GET / HTTP/1.0'' @ [LF]) q r' =
     ngx_http_parse_request_line (bytes ''GET / HTTP/1.0'' @ [LF]) 0 rline_init"
proof -
  have again: "rl_is_again (ngx_http_parse_request_line (bytes ''GET /'') 0 rline_init)" by code_simp
  then obtain r' q where *: "ngx_http_parse_request_line (bytes ''GET /'') 0 rline_init = rl_again r' q"
    by (auto simp: rl_is_again_def split: rl_result.splits)
  have split: "bytes ''GET / HTTP/1.0'' @ [LF] = bytes ''GET /'' @ (bytes '' HTTP/1.0'' @ [LF])" by simp
  show ?thesis
    using request_line_resumable [of 0 "bytes ''GET /''" "bytes '' HTTP/1.0'' @ [LF]" rline_init] *
    unfolding split by (simp only: rl_result.simps) simp
qed

section \<open>What an accepted line looks like\<close>

subsection \<open>The method\<close>

definition method_of :: "byte list \<Rightarrow> nat" where
  "method_of w = (case method_code w of None \<Rightarrow> NGX_HTTP_UNKNOWN | Some m \<Rightarrow> m)"

definition method_ok :: "byte list \<Rightarrow> nat \<Rightarrow> rline \<Rightarrow> bool" where
  "method_ok d p r \<longleftrightarrow> (\<exists>a me. request_start r = Some a \<and> method_end r = Some me \<and> a \<le> me \<and>
     Suc me < p \<and> (\<forall>i. a \<le> i \<and> i \<le> me \<longrightarrow> is_method_char (d ! i)) \<and> d ! Suc me = SP \<and>
     rmethod r = method_of (seg a (Suc me) d))"

definition inv_method :: "byte list \<Rightarrow> nat \<Rightarrow> rline \<Rightarrow> bool" where
  "inv_method d p r \<longleftrightarrow> (case rstate r of
     sw_start \<Rightarrow> rmethod r = NGX_HTTP_UNKNOWN
   | sw_method \<Rightarrow> rmethod r = NGX_HTTP_UNKNOWN \<and>
       (\<exists>a. request_start r = Some a \<and> a < p \<and> (\<forall>i. a \<le> i \<and> i < p \<longrightarrow> is_method_char (d ! i)))
   | _ \<Rightarrow> method_ok d p r)"

definition past_method :: "rline \<Rightarrow> bool" where
  "past_method r \<longleftrightarrow> rstate r \<noteq> sw_start \<and> rstate r \<noteq> sw_method"

definition same_method :: "rline \<Rightarrow> rline \<Rightarrow> bool" where
  "same_method r r' \<longleftrightarrow> request_start r' = request_start r \<and> method_end r' = method_end r \<and>
     rmethod r' = rmethod r"

lemma inv_method_past: "past_method r \<Longrightarrow> inv_method d p r \<longleftrightarrow> method_ok d p r"
  by (cases "rstate r") (simp_all add: past_method_def inv_method_def)

lemma method_ok_same:
  "method_ok d p r \<Longrightarrow> same_method r r' \<Longrightarrow> p \<le> p' \<Longrightarrow> method_ok d p' r'"
  unfolding method_ok_def same_method_def by fastforce

lemma rl_step_past:
  assumes "past_method r"
  shows "(\<forall>r'. rl_step d p r c = Inl r' \<longrightarrow> past_method r' \<and> same_method r r') \<and>
    (\<forall>r'. rl_step d p r c = Inr (rl_done r') \<longrightarrow> same_method r r')"
  using assms
  by (cases "rstate r")
    (simp_all add: rl_step_def st_defs past_method_def same_method_def Let_def split: option.split)

lemma rl_step_start:
  "rstate r = sw_start \<Longrightarrow> rl_step d p r c = st_start p r c"
  by (simp add: rl_step_def)

lemma rl_step_method:
  "rstate r = sw_method \<Longrightarrow> rl_step d p r c = st_method d p r c"
  by (simp add: rl_step_def)

lemma state_cases:
  obtains "rstate r = sw_start" | "rstate r = sw_method" | "past_method r"
  by (auto simp: past_method_def)

lemma all_less_SucI: "(\<forall>i. a \<le> i \<and> i < p \<longrightarrow> P i) \<Longrightarrow> P p \<Longrightarrow> (\<forall>i. a \<le> i \<and> i < Suc p \<longrightarrow> P i)"
  by (auto simp: less_Suc_eq)

lemma inv_method_step:
  assumes "inv_method d p r" and step: "rl_step d p r (d ! p) = Inl r'"
  shows "inv_method d (Suc p) r'"
proof (cases r rule: state_cases)
  case 1
  with assms show ?thesis
    by (auto simp: rl_step_start st_start_def inv_method_def Let_def is_method_char_def less_Suc_eq
        split: if_splits)
next
  case 2
  with assms(1) obtain a where a: "request_start r = Some a" "a < p"
      "\<forall>i. a \<le> i \<and> i < p \<longrightarrow> is_method_char (d ! i)" "rmethod r = NGX_HTTP_UNKNOWN"
    by (auto simp: inv_method_def)
  show ?thesis
  proof (cases "d ! p = SP")
    case True
    with step 2 a(1) have r': "r' = (set_method (method_code (seg a p d)) (r\<lparr>method_end := Some (p - 1)\<rparr>))
        \<lparr>rstate := sw_spaces_before_uri\<rparr>"
      by (simp add: rl_step_method st_method_def)
    have "method_ok d (Suc p) r'"
      unfolding method_ok_def r' using a True
      by (intro exI [of _ a] exI [of _ "p - 1"])
        (auto simp: set_method_def method_of_def split: option.split)
    moreover have "past_method r'" by (simp add: r' past_method_def)
    ultimately show ?thesis by (simp add: inv_method_past)
  next
    case False
    with step 2 have "r' = r" "is_method_char (d ! p)"
      by (auto simp: rl_step_method st_method_def is_method_char_def split: if_splits)
    with a 2 show ?thesis by (auto simp: inv_method_def less_Suc_eq)
  qed
next
  case 3
  with assms rl_step_past [OF 3, of d p "d ! p"] show ?thesis
    by (auto simp: inv_method_past intro: method_ok_same)
qed

lemma inv_method_stop:
  assumes "inv_method d p r" and step: "rl_step d p r (d ! p) = Inr (rl_done r')"
  shows "method_ok d p r'"
proof (cases r rule: state_cases)
  case 1
  with step show ?thesis by (auto simp: rl_step_start st_start_def Let_def split: if_splits)
next
  case 2
  with step show ?thesis
    by (auto simp: rl_step_method st_method_def split: if_splits option.splits)
next
  case 3
  with assms rl_step_past [OF 3, of d p "d ! p"] show ?thesis
    by (auto simp: inv_method_past intro: method_ok_same)
qed

subsection \<open>The URI\<close>

definition no_ctl :: "byte list \<Rightarrow> nat \<Rightarrow> nat \<Rightarrow> bool" where
  "no_ctl d u e \<longleftrightarrow> (\<forall>i. u \<le> i \<and> i < e \<longrightarrow> d ! i \<noteq> NUL \<and> d ! i \<noteq> CR \<and> d ! i \<noteq> LF)"

text \<open>Nothing that a normalisation of the path would change: no escape, no \<open>//\<close>, no \<open>/.\<close>\<close>

definition clean :: "byte list \<Rightarrow> nat \<Rightarrow> nat \<Rightarrow> bool" where
  "clean d u e \<longleftrightarrow>
     (\<forall>i. u \<le> i \<and> i < e \<longrightarrow> d ! i \<noteq> asc CHR ''%'' \<and> d ! i \<noteq> asc CHR ''#'' \<and> d ! i \<noteq> asc CHR ''?'') \<and>
     (\<forall>i. u \<le> i \<and> Suc i < e \<and> d ! i = asc CHR ''/'' \<longrightarrow>
        d ! Suc i \<noteq> asc CHR ''/'' \<and> d ! Suc i \<noteq> asc CHR ''.'')"

definition uri_at :: "byte list \<Rightarrow> nat \<Rightarrow> rline \<Rightarrow> nat \<Rightarrow> bool" where
  "uri_at d p r u \<longleftrightarrow> uri_start r = Some u \<and> u < p \<and> d ! u = asc CHR ''/'' \<and> no_ctl d u p \<and>
     (\<exists>me. method_end r = Some me \<and> Suc me < u)"

text \<open>What the flags promise of the path, the URI up to the question mark.\<close>

definition flags_ok :: "byte list \<Rightarrow> rline \<Rightarrow> nat \<Rightarrow> nat \<Rightarrow> bool" where
  "flags_ok d r u e \<longleftrightarrow> complex_uri r \<or> quoted_uri r \<or>
     (case args_start r of
        None \<Rightarrow> clean d u e
      | Some q \<Rightarrow> u < q \<and> q \<le> e \<and> d ! (q - 1) = asc CHR ''?'' \<and> clean d u (q - 1))"

definition uri_ok :: "byte list \<Rightarrow> nat \<Rightarrow> rline \<Rightarrow> bool" where
  "uri_ok d p r \<longleftrightarrow> (\<exists>u e. uri_at d e r u \<and> uri_end r = Some e \<and> e \<le> p \<and> flags_ok d r u e)"

definition schema_at :: "byte list \<Rightarrow> nat \<Rightarrow> rline \<Rightarrow> bool" where
  "schema_at d p r \<longleftrightarrow> args_start r = None \<and> (\<exists>s me. schema_end r = Some s \<and> Suc s < p \<and>
     d ! Suc s = asc CHR ''/'' \<and> method_end r = Some me \<and> me < s)"

definition path_at :: "byte list \<Rightarrow> nat \<Rightarrow> rline \<Rightarrow> bool" where
  "path_at d p r \<longleftrightarrow> args_start r = None \<and> (\<exists>u. uri_at d p r u \<and> clean d u p)"

definition inv_uri :: "byte list \<Rightarrow> nat \<Rightarrow> rline \<Rightarrow> bool" where
  "inv_uri d p r \<longleftrightarrow> (case rstate r of
     sw_start \<Rightarrow> args_start r = None
   | sw_method \<Rightarrow> args_start r = None
   | sw_spaces_before_uri \<Rightarrow> args_start r = None
   | sw_schema \<Rightarrow> args_start r = None \<and> (\<exists>me. method_end r = Some me \<and> Suc (Suc me) < p)
   | sw_schema_slash \<Rightarrow> args_start r = None \<and>
       (\<exists>s me. schema_end r = Some s \<and> Suc s = p \<and> method_end r = Some me \<and> me < s)
   | sw_schema_slash_slash \<Rightarrow> schema_at d p r
   | sw_host_start \<Rightarrow> schema_at d p r
   | sw_host \<Rightarrow> schema_at d p r
   | sw_host_end \<Rightarrow> schema_at d p r
   | sw_host_ip_literal \<Rightarrow> schema_at d p r
   | sw_port \<Rightarrow> schema_at d p r
   | sw_after_slash_in_uri \<Rightarrow> path_at d p r
   | sw_check_uri \<Rightarrow> path_at d p r \<and> d ! (p - 1) \<noteq> asc CHR ''/''
   | sw_check_uri_http_09 \<Rightarrow> path_at d p r \<and> uri_ok d (p - 1) r \<and> d ! (p - 1) = SP
   | sw_uri \<Rightarrow> \<exists>u. uri_at d p r u \<and> flags_ok d r u p \<and>
       (complex_uri r \<or> quoted_uri r \<or> args_start r \<noteq> None)
   | sw_http_09 \<Rightarrow> (\<exists>u. uri_at d p r u) \<and> uri_ok d (p - 1) r \<and>
       (complex_uri r \<or> quoted_uri r \<or> args_start r \<noteq> None)
   | _ \<Rightarrow> uri_ok d p r)"

lemma usualD:
  assumes "bitmap_test usual c"
  shows "c \<noteq> NUL" "c \<noteq> CR" "c \<noteq> LF" "c \<noteq> SP" "c \<noteq> asc CHR ''%''" "c \<noteq> asc CHR ''#''"
    "c \<noteq> asc CHR ''?''" "c \<noteq> asc CHR ''/''" "c \<noteq> asc CHR ''.''" "c \<noteq> asc CHR ''+''"
proof -
  have "\<not> bitmap_test usual NUL" "\<not> bitmap_test usual CR" "\<not> bitmap_test usual LF"
    "\<not> bitmap_test usual SP" "\<not> bitmap_test usual (asc CHR ''%'')" "\<not> bitmap_test usual (asc CHR ''#'')"
    "\<not> bitmap_test usual (asc CHR ''?'')" "\<not> bitmap_test usual (asc CHR ''/'')"
    "\<not> bitmap_test usual (asc CHR ''.'')" "\<not> bitmap_test usual (asc CHR ''+'')"
    by code_simp+
  with assms show "c \<noteq> NUL" "c \<noteq> CR" "c \<noteq> LF" "c \<noteq> SP" "c \<noteq> asc CHR ''%''" "c \<noteq> asc CHR ''#''"
    "c \<noteq> asc CHR ''?''" "c \<noteq> asc CHR ''/''" "c \<noteq> asc CHR ''.''" "c \<noteq> asc CHR ''+''"
    by blast+
qed

lemma no_ctl_Suc:
  "no_ctl d u p \<Longrightarrow> d ! p \<noteq> NUL \<Longrightarrow> d ! p \<noteq> CR \<Longrightarrow> d ! p \<noteq> LF \<Longrightarrow> no_ctl d u (Suc p)"
  by (auto simp: no_ctl_def less_Suc_eq)

lemma uri_at_Suc:
  "uri_at d p r u \<Longrightarrow> d ! p \<noteq> NUL \<Longrightarrow> d ! p \<noteq> CR \<Longrightarrow> d ! p \<noteq> LF \<Longrightarrow>
   uri_start r' = uri_start r \<Longrightarrow> method_end r' = method_end r \<Longrightarrow> uri_at d (Suc p) r' u"
  by (auto simp: uri_at_def intro: no_ctl_Suc)

lemma clean_Suc:
  assumes "clean d u p" "u < p" "d ! p \<noteq> asc CHR ''%''" "d ! p \<noteq> asc CHR ''#''" "d ! p \<noteq> asc CHR ''?''"
    "d ! (p - 1) = asc CHR ''/'' \<Longrightarrow> d ! p \<noteq> asc CHR ''/'' \<and> d ! p \<noteq> asc CHR ''.''"
  shows "clean d u (Suc p)"
proof -
  have *: "d ! Suc i \<noteq> asc CHR ''/'' \<and> d ! Suc i \<noteq> asc CHR ''.''"
    if "u \<le> i" "Suc i < Suc p" "d ! i = asc CHR ''/''" for i
  proof (cases "Suc i = p")
    case True
    with that assms(6) show ?thesis by auto
  next
    case False
    with that have "Suc i < p" by simp
    with that assms(1) show ?thesis unfolding clean_def by blast
  qed
  have "d ! i \<noteq> asc CHR ''%'' \<and> d ! i \<noteq> asc CHR ''#'' \<and> d ! i \<noteq> asc CHR ''?''"
    if "u \<le> i" "i < Suc p" for i
  proof (cases "i = p")
    case False
    with that have "i < p" by simp
    with that assms(1) show ?thesis unfolding clean_def by blast
  qed (use assms in simp)
  with * show ?thesis unfolding clean_def by blast
qed

definition same_uri :: "rline \<Rightarrow> rline \<Rightarrow> bool" where
  "same_uri r r' \<longleftrightarrow> uri_start r' = uri_start r \<and> method_end r' = method_end r \<and>
     args_start r' = args_start r \<and> complex_uri r' = complex_uri r \<and> quoted_uri r' = quoted_uri r"

lemma uri_at_same: "uri_at d p r u \<Longrightarrow> same_uri r r' \<Longrightarrow> uri_at d p r' u"
  by (auto simp: uri_at_def same_uri_def)

lemma flags_ok_same: "flags_ok d r u e \<Longrightarrow> same_uri r r' \<Longrightarrow> flags_ok d r' u e"
  by (auto simp: flags_ok_def same_uri_def)

lemma path_at_Suc:
  assumes "path_at d p r" "same_uri r r'" "d ! p \<noteq> NUL" "d ! p \<noteq> CR" "d ! p \<noteq> LF"
    "d ! p \<noteq> asc CHR ''%''" "d ! p \<noteq> asc CHR ''#''" "d ! p \<noteq> asc CHR ''?''"
    "d ! (p - 1) = asc CHR ''/'' \<Longrightarrow> d ! p \<noteq> asc CHR ''/'' \<and> d ! p \<noteq> asc CHR ''.''"
  shows "path_at d (Suc p) r'"
proof -
  from assms(1) obtain u where u: "args_start r = None" "uri_at d p r u" "clean d u p"
    by (auto simp: path_at_def)
  then have "u < p" by (simp add: uri_at_def)
  with u have "clean d u (Suc p)" using clean_Suc [OF u(3) _ assms(6-9)] by blast
  with u uri_at_Suc [OF u(2) assms(3-5)] assms(2) show ?thesis
    by (auto simp: path_at_def same_uri_def)
qed

lemma path_end:
  assumes "path_at d p r" "same_uri r r'" "uri_end r' = Some p"
  shows "uri_ok d p r'"
  using assms unfolding path_at_def uri_ok_def same_uri_def flags_ok_def uri_at_def by auto

lemma uri_end:
  assumes "uri_at d p r u" "flags_ok d r u p" "same_uri r r'" "uri_end r' = Some p"
  shows "uri_ok d p r'"
  using assms uri_at_same flags_ok_same unfolding uri_ok_def by blast

lemma uri_ok_same:
  assumes "uri_ok d p r" "same_uri r r'" "uri_end r' = uri_end r" "p \<le> p'"
  shows "uri_ok d p' r'"
proof -
  from assms(1) obtain u e where "uri_at d e r u" "uri_end r = Some e" "e \<le> p" "flags_ok d r u e"
    by (auto simp: uri_ok_def)
  with assms(2-) uri_at_same flags_ok_same have "uri_at d e r' u" "uri_end r' = Some e" "e \<le> p'"
    "flags_ok d r' u e" by auto
  then show ?thesis unfolding uri_ok_def by blast
qed

lemma path_special:
  assumes "path_at d p r" "d ! p \<noteq> NUL" "d ! p \<noteq> CR" "d ! p \<noteq> LF"
    "uri_start r' = uri_start r" "method_end r' = method_end r"
    "complex_uri r' \<or> quoted_uri r' \<or> args_start r' = Some (Suc p) \<and> d ! p = asc CHR ''?''"
  shows "\<exists>u. uri_at d (Suc p) r' u \<and> flags_ok d r' u (Suc p) \<and>
    (complex_uri r' \<or> quoted_uri r' \<or> args_start r' \<noteq> None)"
proof -
  from assms(1) obtain u where u: "uri_at d p r u" "clean d u p" by (auto simp: path_at_def)
  then have "uri_at d (Suc p) r' u" "u < p"
    using uri_at_Suc [OF u(1) assms(2-6)] by (auto simp: uri_at_def)
  with u assms(7) show ?thesis by (intro exI [of _ u]) (auto simp: flags_ok_def)
qed

lemma uri_ok_Suc: "uri_ok d p r \<Longrightarrow> uri_ok d (Suc p) r"
  by (erule uri_ok_same) (simp_all add: same_uri_def)

lemma usual_simps [simp]:
  "\<not> bitmap_test usual NUL" "\<not> bitmap_test usual CR" "\<not> bitmap_test usual LF"
  "\<not> bitmap_test usual SP" "\<not> bitmap_test usual (asc CHR ''%'')" "\<not> bitmap_test usual (asc CHR ''#'')"
  "\<not> bitmap_test usual (asc CHR ''?'')" "\<not> bitmap_test usual (asc CHR ''/'')"
  "\<not> bitmap_test usual (asc CHR ''.'')" "\<not> bitmap_test usual (asc CHR ''+'')"
  using usualD by blast+

lemmas usual_nums [simp] = usual_simps [simplified of_char_def, simplified]

lemmas path_simps = inv_uri_def same_uri_def uri_ok_Suc

lemma check_uri_step:
  assumes inv: "path_at d p r" "d ! (p - 1) \<noteq> asc CHR ''/''" and "rstate r = sw_check_uri"
    and step: "st_check_uri p r (d ! p) = Inl r'"
  shows "inv_uri d (Suc p) r'"
proof -
  note path = path_at_Suc [OF inv(1), of r'] path_end [OF inv(1), of r'] path_special [OF inv(1), of r']
  show ?thesis
  proof (cases "bitmap_test usual (d ! p)")
    case True
    with assms have "r' = r" by (simp add: st_check_uri_def)
    with assms path usualD [OF True] show ?thesis by (simp add: path_simps)
  next
    case False
    show ?thesis
      using step assms path False
      by (auto simp: st_check_uri_def path_simps split: if_splits)
  qed
qed

lemma after_slash_step:
  assumes inv: "path_at d p r" and "rstate r = sw_after_slash_in_uri"
    and step: "st_after_slash_in_uri p r (d ! p) = Inl r'"
  shows "inv_uri d (Suc p) r'"
proof -
  note path = path_at_Suc [OF inv(1), of r'] path_end [OF inv(1), of r'] path_special [OF inv(1), of r']
  show ?thesis
  proof (cases "bitmap_test usual (d ! p)")
    case True
    with assms have "r' = r\<lparr>rstate := sw_check_uri\<rparr>" by (simp add: st_after_slash_in_uri_def)
    with assms path usualD [OF True] show ?thesis by (simp add: path_simps)
  next
    case False
    show ?thesis
      using step assms path False
      by (auto simp: st_after_slash_in_uri_def path_simps split: if_splits)
  qed
qed

lemma uri_step:
  assumes inv: "uri_at d p r u" "flags_ok d r u p"
      "complex_uri r \<or> quoted_uri r \<or> args_start r \<noteq> None"
    and st: "rstate r = sw_uri" and step: "st_uri p r (d ! p) = Inl r'"
  shows "inv_uri d (Suc p) r'"
proof -
  have e: "uri_end r' = Some p \<Longrightarrow> same_uri r r' \<Longrightarrow> uri_ok d p r'"
    using inv by (rule_tac uri_end)
  have f: "flags_ok d r' u (Suc p)"
    if "complex_uri r \<Longrightarrow> complex_uri r'" "quoted_uri r' = quoted_uri r" "args_start r' = args_start r"
    using inv(2,3) that by (auto simp: flags_ok_def split: option.splits)
  have a: "uri_start r' = uri_start r \<Longrightarrow> method_end r' = method_end r \<Longrightarrow> d ! p \<noteq> NUL \<Longrightarrow>
      d ! p \<noteq> CR \<Longrightarrow> d ! p \<noteq> LF \<Longrightarrow> uri_at d (Suc p) r' u"
    using uri_at_Suc [OF inv(1)] by blast
  show ?thesis
  proof (cases "bitmap_test usual (d ! p)")
    case True
    with step have "r' = r" by (simp add: st_uri_def)
    with a f usualD [OF True] st inv(3) show ?thesis by (auto simp: inv_uri_def)
  next
    case False
    consider "d ! p = SP" | "d ! p = CR" | "d ! p = asc CHR ''#''"
      | "d ! p \<notin> {SP, CR, LF, asc CHR ''#'', NUL}"
      using step False by (auto simp: st_uri_def split: if_splits)
    then show ?thesis
    proof cases
      case 1
      with step have r': "r' = r\<lparr>uri_end := Some p, rstate := sw_http_09\<rparr>" by (simp add: st_uri_def)
      with 1 a e inv(3) show ?thesis by (auto simp: path_simps)
    next
      case 2
      with step have "r' = r\<lparr>uri_end := Some p, http_minor := 9, rstate := sw_almost_done\<rparr>"
        by (simp add: st_uri_def)
      with e show ?thesis by (simp add: path_simps)
    next
      case 3
      with step have "r' = r\<lparr>complex_uri := True\<rparr>" by (simp add: st_uri_def)
      with 3 a f st show ?thesis by (auto simp: inv_uri_def)
    next
      case 4
      with step False have "r' = r" by (simp add: st_uri_def)
      with 4 a f st inv(3) show ?thesis by (auto simp: inv_uri_def)
    qed
  qed
qed

lemma check_uri_http_09_step:
  assumes inv: "path_at d p r" "uri_ok d (p - 1) r" "d ! (p - 1) = SP"
    and st: "rstate r = sw_check_uri_http_09" and step: "st_check_uri_http_09 p r (d ! p) = Inl r'"
  shows "inv_uri d (Suc p) r'"
proof -
  have u: "same_uri r r' \<Longrightarrow> uri_end r' = uri_end r \<Longrightarrow> uri_ok d p r'"
    using inv(2) by (rule uri_ok_same) simp_all
  consider "d ! p = SP" | "d ! p = CR" | "d ! p = asc CHR ''H''"
    | "st_check_uri p (r\<lparr>space_in_uri := True, rstate := sw_check_uri\<rparr>) (d ! p) = Inl r'"
    using step by (auto simp: st_check_uri_http_09_def split: if_splits)
  then show ?thesis
  proof cases
    case 4
    have "path_at d p (r\<lparr>space_in_uri := True, rstate := sw_check_uri\<rparr>)"
      using inv(1) by (simp add: path_at_def uri_at_def)
    from check_uri_step [OF this _ _ 4] inv(3) show ?thesis by simp
  next
    case 1
    with step have "r' = r" by (simp add: st_check_uri_http_09_def)
    with 1 st u path_at_Suc [OF inv(1), of r'] inv(3) show ?thesis by (simp add: path_simps)
  qed (use step u in \<open>auto simp: st_check_uri_http_09_def path_simps split: if_splits\<close>)
qed

lemma http_09_step:
  assumes inv: "uri_at d p r u" "uri_ok d (p - 1) r"
      "complex_uri r \<or> quoted_uri r \<or> args_start r \<noteq> None"
    and st: "rstate r = sw_http_09" and step: "st_http_09 p r (d ! p) = Inl r'"
  shows "inv_uri d (Suc p) r'"
proof -
  have u: "same_uri r r' \<Longrightarrow> uri_end r' = uri_end r \<Longrightarrow> uri_ok d p r'"
    using inv(2) by (rule uri_ok_same) simp_all
  consider "d ! p = SP" | "d ! p = CR" | "d ! p = asc CHR ''H''"
    | "st_uri p (r\<lparr>space_in_uri := True, rstate := sw_uri\<rparr>) (d ! p) = Inl r'"
    using step by (auto simp: st_http_09_def split: if_splits)
  then show ?thesis
  proof cases
    case 4
    have "uri_at d p (r\<lparr>space_in_uri := True, rstate := sw_uri\<rparr>) u"
      using inv(1) by (simp add: uri_at_def)
    moreover have "flags_ok d (r\<lparr>space_in_uri := True, rstate := sw_uri\<rparr>) u p"
      using inv by (auto simp: uri_ok_def flags_ok_def uri_at_def split: option.splits)
    ultimately show ?thesis using uri_step [OF _ _ _ _ 4] inv(3) by simp
  next
    case 1
    with step have "r' = r" by (simp add: st_http_09_def)
    with 1 st u uri_at_Suc [OF inv(1), of r'] inv(3) show ?thesis by (auto simp: path_simps)
  qed (use step u in \<open>auto simp: st_http_09_def path_simps split: if_splits\<close>)
qed

text \<open>The states before the URI: the method is known, a schema may be.\<close>

lemma uri_first:
  assumes "method_end r' = Some me" "Suc me < p" "uri_start r' = Some p" "args_start r' = None"
    "d ! p = asc CHR ''/''"
  shows "path_at d (Suc p) r'"
  using assms by (auto simp: path_at_def uri_at_def no_ctl_def clean_def less_Suc_eq le_less)

lemma method_step_inv_uri:
  assumes "inv_uri d p r" "rstate r = sw_start \<or> rstate r = sw_method"
    "rl_step d p r (d ! p) = Inl r'"
  shows "inv_uri d (Suc p) r'"
  using assms
  by (auto simp: rl_step_def st_start_def st_method_def inv_uri_def set_method_def Let_def
      split: if_splits option.splits)

lemma schema_step:
  assumes "inv_uri d p r" "method_ok d p r" "p < length d"
    "rstate r = sw_spaces_before_uri \<or> rstate r = sw_schema \<or> rstate r = sw_schema_slash"
    "rl_step d p r (d ! p) = Inl r'"
  shows "inv_uri d (Suc p) r'"
proof -
  from assms(2) obtain me where me: "method_end r = Some me" "Suc me < p" by (auto simp: method_ok_def)
  from assms(4) show ?thesis
  proof (elim disjE)
    assume "rstate r = sw_spaces_before_uri"
    with assms me uri_first [of r' me p d] show ?thesis
      by (auto simp: rl_step_def st_spaces_before_uri_def inv_uri_def split: if_splits)
  next
    assume "rstate r = sw_schema"
    with assms me show ?thesis
      by (auto simp: rl_step_def st_schema_def inv_uri_def split: if_splits)
  next
    assume "rstate r = sw_schema_slash"
    with assms me show ?thesis
      by (auto simp: rl_step_def st_schema_slash_def inv_uri_def schema_at_def split: if_splits)
  qed
qed

lemma schema_at_Suc: "schema_at d p r \<Longrightarrow> schema_end r' = schema_end r \<Longrightarrow> method_end r' = method_end r \<Longrightarrow>
    args_start r' = args_start r \<Longrightarrow> schema_at d (Suc p) r'"
  unfolding schema_at_def by fastforce

lemma schema_path:
  assumes "schema_at d p r" "method_end r' = method_end r" "args_start r' = args_start r"
    "uri_start r' = Some p" "d ! p = asc CHR ''/''"
  shows "path_at d (Suc p) r'"
proof -
  from assms(1) obtain me where "method_end r = Some me" "Suc me < p" "args_start r = None"
    by (auto simp: schema_at_def)
  with assms uri_first show ?thesis by metis
qed

lemma schema_slash_uri:
  assumes "schema_at d p r" "schema_end r = Some s" "method_end r' = method_end r"
    "args_start r' = args_start r" "uri_start r' = Some (s + 1)" "uri_end r' = Some (s + 2)"
  shows "uri_ok d (Suc p) r'"
proof -
  from assms(1,2) obtain me where s: "Suc s < p" "d ! Suc s = asc CHR ''/''"
      "method_end r = Some me" "me < s" "args_start r = None"
    by (auto simp: schema_at_def)
  have "uri_at d (s + 2) r' (s + 1)"
    using s assms by (auto simp: uri_at_def no_ctl_def less_Suc_eq le_less)
  moreover have "flags_ok d r' (s + 1) (s + 2)"
    using s assms by (auto simp: flags_ok_def clean_def less_Suc_eq le_less)
  ultimately show ?thesis using s assms(6) unfolding uri_ok_def by auto
qed

definition in_host :: "rl_state \<Rightarrow> bool" where
  "in_host st \<longleftrightarrow>
     st \<in> {sw_schema_slash_slash, sw_host_start, sw_host, sw_host_end, sw_host_ip_literal, sw_port}"

lemma host_outcome:
  assumes "in_host (rstate r)" "rl_step d p r c = Inl r'"
  shows "method_end r' = method_end r \<and> args_start r' = args_start r \<and>
    (in_host (rstate r') \<and> schema_end r' = schema_end r \<or>
     rstate r' = sw_after_slash_in_uri \<and> uri_start r' = Some p \<and> c = asc CHR ''/'' \<or>
     rstate r' = sw_host_http_09 \<and> (\<exists>s. schema_end r = Some s \<and> uri_start r' = Some (s + 1) \<and>
       uri_end r' = Some (s + 2)))"
  using assms
  by (auto simp: in_host_def rl_step_def st_schema_slash_slash_def st_host_start_def st_host_def
      st_host_end_def st_host_ip_literal_def st_port_def slash_of_schema_def Let_def
      split: if_splits option.splits)

lemma inv_uri_host: "in_host (rstate r) \<Longrightarrow> inv_uri d p r \<longleftrightarrow> schema_at d p r"
  by (auto simp: in_host_def inv_uri_def)

lemma host_step:
  assumes "schema_at d p r" "in_host (rstate r)" "rl_step d p r (d ! p) = Inl r'"
  shows "inv_uri d (Suc p) r'"
  using host_outcome [OF assms(2,3)]
proof (elim conjE disjE exE)
  assume "in_host (rstate r')" "schema_end r' = schema_end r" "method_end r' = method_end r"
    "args_start r' = args_start r"
  with assms(1) show ?thesis by (simp add: inv_uri_host schema_at_Suc)
next
  assume "rstate r' = sw_after_slash_in_uri" "uri_start r' = Some p" "d ! p = asc CHR ''/''"
    "method_end r' = method_end r" "args_start r' = args_start r"
  with schema_path [OF assms(1)] show ?thesis by (simp add: inv_uri_def)
next
  fix s
  assume "rstate r' = sw_host_http_09" "schema_end r = Some s" "uri_start r' = Some (s + 1)"
    "uri_end r' = Some (s + 2)" "method_end r' = method_end r" "args_start r' = args_start r"
  with schema_slash_uri [OF assms(1)] show ?thesis by (simp add: inv_uri_def)
qed

lemma version_step:
  assumes inv: "uri_ok d p r"
    and st: "rstate r \<in> {sw_host_http_09, sw_http_H, sw_http_HT, sw_http_HTT, sw_http_HTTP,
        sw_first_major_digit, sw_major_digit, sw_first_minor_digit, sw_minor_digit,
        sw_spaces_after_digit, sw_almost_done}"
    and step: "rl_step d p r (d ! p) = Inl r'"
  shows "inv_uri d (Suc p) r'"
proof -
  have u: "same_uri r r' \<Longrightarrow> uri_end r' = uri_end r \<Longrightarrow> uri_ok d (Suc p) r'"
    using inv by (rule uri_ok_same) simp_all
  show ?thesis
    using st step u
    by (auto simp: rl_step_def st_host_http_09_def st_expect_def st_first_major_digit_def
        st_major_digit_def st_first_minor_digit_def st_minor_digit_def st_spaces_after_digit_def
        st_almost_done_def inv_uri_def same_uri_def split: if_splits)
qed

lemma inv_uri_step:
  assumes p: "p < length d" and inv: "inv_uri d p r" and m: "inv_method d p r"
    and step: "rl_step d p r (d ! p) = Inl r'"
  shows "inv_uri d (Suc p) r'"
proof (cases "rstate r")
  case sw_check_uri
  with inv step have "path_at d p r" "d ! (p - 1) \<noteq> asc CHR ''/''" "st_check_uri p r (d ! p) = Inl r'"
    by (simp_all add: inv_uri_def rl_step_def)
  with sw_check_uri show ?thesis using check_uri_step by blast
next
  case sw_after_slash_in_uri
  with inv step have "path_at d p r" "st_after_slash_in_uri p r (d ! p) = Inl r'"
    by (simp_all add: inv_uri_def rl_step_def)
  with sw_after_slash_in_uri show ?thesis using after_slash_step by blast
next
  case sw_check_uri_http_09
  with inv step have "path_at d p r" "uri_ok d (p - 1) r" "d ! (p - 1) = SP"
      "st_check_uri_http_09 p r (d ! p) = Inl r'"
    by (simp_all add: inv_uri_def rl_step_def)
  with sw_check_uri_http_09 show ?thesis using check_uri_http_09_step by blast
next
  case sw_uri
  with inv step obtain u where "uri_at d p r u" "flags_ok d r u p"
      "complex_uri r \<or> quoted_uri r \<or> args_start r \<noteq> None" "st_uri p r (d ! p) = Inl r'"
    by (auto simp: inv_uri_def rl_step_def)
  with sw_uri show ?thesis using uri_step by blast
next
  case sw_http_09
  with inv step obtain u where "uri_at d p r u" "uri_ok d (p - 1) r"
      "complex_uri r \<or> quoted_uri r \<or> args_start r \<noteq> None" "st_http_09 p r (d ! p) = Inl r'"
    by (auto simp: inv_uri_def rl_step_def)
  with sw_http_09 show ?thesis using http_09_step by blast
next
  case sw_start
  then show ?thesis using inv step method_step_inv_uri by blast
next
  case sw_method
  then show ?thesis using inv step method_step_inv_uri by blast
next
  case sw_spaces_before_uri
  then show ?thesis using inv step schema_step p m by (simp add: inv_method_def)
next
  case sw_schema
  then show ?thesis using inv step schema_step p m by (simp add: inv_method_def)
next
  case sw_schema_slash
  then show ?thesis using inv step schema_step p m by (simp add: inv_method_def)
qed (use inv step host_step [of d p r r', unfolded in_host_def] version_step [of d p r r'] in \<open>simp_all only: inv_uri_def [of d p r]
    rl_state.simps insert_iff simp_thms\<close>)

lemma path_stop:
  assumes "path_at d p r"
    "st_check_uri p r (d ! p) = Inr (rl_done r') \<or> st_after_slash_in_uri p r (d ! p) = Inr (rl_done r')"
  shows "uri_ok d p r'"
  using assms(2) path_end [OF assms(1), of r']
  by (auto simp: st_check_uri_def st_after_slash_in_uri_def same_uri_def split: if_splits)

lemma uri_stop:
  assumes "uri_at d p r u" "flags_ok d r u p" "st_uri p r (d ! p) = Inr (rl_done r')"
  shows "uri_ok d p r'"
  using assms(3) uri_end [OF assms(1,2), of r']
  by (auto simp: st_uri_def same_uri_def split: if_splits)

lemma no_stop:
  "in_host (rstate r) \<or> rstate r \<in> {sw_start, sw_method, sw_spaces_before_uri, sw_schema, sw_schema_slash}
   \<Longrightarrow> rl_step d p r c \<noteq> Inr (rl_done r')"
  by (auto simp: in_host_def rl_step_def st_start_def st_method_def st_spaces_before_uri_def st_schema_def
      st_schema_slash_def st_schema_slash_slash_def st_host_start_def st_host_def st_host_end_def
      st_host_ip_literal_def st_port_def slash_of_schema_def Let_def split: if_splits option.splits)

lemma version_stop:
  assumes "uri_ok d p r"
    and "rstate r \<in> {sw_host_http_09, sw_http_H, sw_http_HT, sw_http_HTT, sw_http_HTTP,
        sw_first_major_digit, sw_major_digit, sw_first_minor_digit, sw_minor_digit,
        sw_spaces_after_digit, sw_almost_done}"
    and "rl_step d p r (d ! p) = Inr (rl_done r')"
  shows "uri_ok d p r'"
proof -
  have "same_uri r r' \<Longrightarrow> uri_end r' = uri_end r \<Longrightarrow> uri_ok d p r'"
    using assms(1) by (rule uri_ok_same) simp_all
  with assms(2,3) show ?thesis
    by (auto simp: rl_step_def st_host_http_09_def st_expect_def st_first_major_digit_def
        st_major_digit_def st_first_minor_digit_def st_minor_digit_def st_spaces_after_digit_def
        st_almost_done_def same_uri_def split: if_splits)
qed

lemma inv_uri_stop:
  assumes inv: "inv_uri d p r" and step: "rl_step d p r (d ! p) = Inr (rl_done r')"
  shows "uri_ok d p r'"
proof (cases "rstate r")
  case sw_check_uri
  with inv step have "path_at d p r" "st_check_uri p r (d ! p) = Inr (rl_done r')"
    by (simp_all add: inv_uri_def rl_step_def)
  then show ?thesis using path_stop by blast
next
  case sw_after_slash_in_uri
  with inv step have "path_at d p r" "st_after_slash_in_uri p r (d ! p) = Inr (rl_done r')"
    by (simp_all add: inv_uri_def rl_step_def)
  then show ?thesis using path_stop by blast
next
  case sw_check_uri_http_09
  with inv step have *: "path_at d p r" "uri_ok d (p - 1) r" "d ! (p - 1) = SP"
      "st_check_uri_http_09 p r (d ! p) = Inr (rl_done r')"
    by (simp_all add: inv_uri_def rl_step_def)
  have **: "same_uri r r' \<Longrightarrow> uri_end r' = uri_end r \<Longrightarrow> uri_ok d p r'"
    using *(2) by (rule uri_ok_same) simp_all
  have "path_at d p (r\<lparr>space_in_uri := True, rstate := sw_check_uri\<rparr>)"
    using *(1) by (simp add: path_at_def uri_at_def)
  with * ** path_stop show ?thesis
    by (auto simp: st_check_uri_http_09_def same_uri_def split: if_splits)
next
  case sw_uri
  with inv step obtain u where "uri_at d p r u" "flags_ok d r u p" "st_uri p r (d ! p) = Inr (rl_done r')"
    by (auto simp: inv_uri_def rl_step_def)
  then show ?thesis using uri_stop by blast
next
  case sw_http_09
  with inv step obtain u where *: "uri_at d p r u" "uri_ok d (p - 1) r"
      "complex_uri r \<or> quoted_uri r \<or> args_start r \<noteq> None" "st_http_09 p r (d ! p) = Inr (rl_done r')"
    by (auto simp: inv_uri_def rl_step_def)
  have **: "same_uri r r' \<Longrightarrow> uri_end r' = uri_end r \<Longrightarrow> uri_ok d p r'"
    using *(2) by (rule uri_ok_same) simp_all
  have "uri_at d p (r\<lparr>space_in_uri := True, rstate := sw_uri\<rparr>) u"
    using *(1) by (simp add: uri_at_def)
  moreover have "flags_ok d (r\<lparr>space_in_uri := True, rstate := sw_uri\<rparr>) u p"
    using * by (auto simp: uri_ok_def flags_ok_def uri_at_def split: option.splits)
  ultimately show ?thesis using * ** uri_stop
    by (auto simp: st_http_09_def same_uri_def split: if_splits)
qed (use inv step no_stop [of r d p "d ! p" r', unfolded in_host_def] version_stop [of d p r r'] in
    \<open>simp_all only: inv_uri_def [of d p r] rl_state.simps insert_iff simp_thms\<close>)

subsection \<open>The accepted line\<close>

lemma inv_init: "inv_method d 0 rline_init \<and> inv_uri d 0 rline_init"
  by (simp add: inv_method_def inv_uri_def rline_init_def)

lemma no_undef:
  assumes "inv_method d p r" "inv_uri d p r"
  shows "rl_step d p r c \<noteq> Inr rl_undef"
  using assms
  by (cases "rstate r")
    (auto simp: rl_step_def st_defs inv_method_def inv_uri_def schema_at_def Let_def
      split: if_splits option.splits)

lemma feed_line:
  "case feed rl_step d 0 rline_init of
     Inl r \<Rightarrow> inv_method d (length d) r \<and> inv_uri d (length d) r
   | Inr (q, stop) \<Rightarrow> stop \<noteq> rl_undef \<and>
       (\<forall>r. stop = rl_done r \<longrightarrow> q < length d \<and> method_ok d q r \<and> uri_ok d q r)"
proof (rule feed_invariant [where I = "\<lambda>p r. inv_method d p r \<and> inv_uri d p r"])
  fix p r stop
  assume "p < length d" and inv: "inv_method d p r \<and> inv_uri d p r"
    and step: "rl_step d p r (d ! p) = Inr stop"
  with inv_method_stop [of d p r] inv_uri_stop [of d p r] no_undef [of d p r]
  show "stop \<noteq> rl_undef \<and>
      (\<forall>r. stop = rl_done r \<longrightarrow> p < length d \<and> method_ok d p r \<and> uri_ok d p r)"
    by auto
qed (use inv_init inv_method_step inv_uri_step in auto)

lemma accepted:
  assumes "ngx_http_parse_request_line d 0 rline_init = rl_return rc r q"
  shows "\<exists>p. q = Suc p \<and> p < length d \<and> method_ok d p r \<and> uri_ok d p r"
proof -
  from assms obtain p r0 where p: "feed rl_step d 0 rline_init = Inr (p, rl_done r0)" "q = Suc p"
      "r = fst (rl_finish p r0)"
    by (auto simp: ngx_http_parse_request_line_def split: sum.splits rl_stop.splits prod.splits)
  with feed_line [of d] have "p < length d \<and> method_ok d p r0 \<and> uri_ok d p r0" by simp
  moreover have "same_method r0 r" "same_uri r0 r" "uri_end r = uri_end r0"
    by (simp_all add: p(3) rl_finish_def Let_def same_method_def same_uri_def)
  ultimately show ?thesis using p(2) method_ok_same [of d p r0 r p] uri_ok_same [of d p r0 r p] by auto
qed

text \<open>
  The parser never reads through a pointer it has not set, on any bytes.
\<close>
theorem request_line_no_fault:
  "ngx_http_parse_request_line d 0 rline_init \<noteq> rl_fault"
  using feed_line [of d]
  by (auto simp: ngx_http_parse_request_line_def rl_finish_def Let_def split: sum.splits rl_stop.splits)

definition method_table :: "(byte list \<times> nat) list" where
  "method_table = [(bytes ''GET'', NGX_HTTP_GET), (bytes ''PUT'', NGX_HTTP_PUT),
     (bytes ''POST'', NGX_HTTP_POST), (bytes ''COPY'', NGX_HTTP_COPY), (bytes ''MOVE'', NGX_HTTP_MOVE),
     (bytes ''LOCK'', NGX_HTTP_LOCK), (bytes ''HEAD'', NGX_HTTP_HEAD), (bytes ''MKCOL'', NGX_HTTP_MKCOL),
     (bytes ''PATCH'', NGX_HTTP_PATCH), (bytes ''TRACE'', NGX_HTTP_TRACE),
     (bytes ''DELETE'', NGX_HTTP_DELETE), (bytes ''UNLOCK'', NGX_HTTP_UNLOCK),
     (bytes ''OPTIONS'', NGX_HTTP_OPTIONS), (bytes ''PROPFIND'', NGX_HTTP_PROPFIND),
     (bytes ''PROPPATCH'', NGX_HTTP_PROPPATCH)]"

lemma method_code_table: "method_code w = map_of method_table w"
proof (cases "w \<in> fst ` set method_table")
  case True
  have "list_all (\<lambda>w. method_code w = map_of method_table w) (map fst method_table)"
    by (simp add: method_table_def method_code_def)
  with True show ?thesis by (auto simp only: list_all_iff set_map)
next
  case False
  then have "method_code w = None"
    unfolding method_code_def method_table_def
    by (simp only: list.set image_insert image_empty fst_conv insert_iff de_Morgan_disj if_False if_cancel)
  with False show ?thesis by (metis map_of_eq_None_iff)
qed

lemma method_of_table:
  "method_of w = (case map_of method_table w of None \<Rightarrow> NGX_HTTP_UNKNOWN | Some m \<Rightarrow> m)"
  by (simp add: method_of_def method_code_table)

text \<open>
  Claim C2. In an accepted request line the method is a non-empty run of capital letters and
  underscores that ends at a space, its code is that of the table (\<open>NGX_HTTP_UNKNOWN\<close> for every
  other word), and behind it, inside the bytes read, lies a non-empty URI that starts with a
  slash and holds no null byte and no line end.
\<close>
theorem request_line_sound:
  assumes "ngx_http_parse_request_line d 0 rline_init = rl_return rc r q"
  shows "\<exists>a me u e. request_start r = Some a \<and> method_end r = Some me \<and> uri_start r = Some u \<and>
    uri_end r = Some e \<and> a \<le> me \<and> Suc me < u \<and> u < e \<and> e < q \<and> q \<le> length d \<and>
    list_all is_method_char (seg a (Suc me) d) \<and> d ! Suc me = SP \<and>
    rmethod r = (case map_of method_table (seg a (Suc me) d) of
                   None \<Rightarrow> NGX_HTTP_UNKNOWN | Some m \<Rightarrow> m) \<and>
    d ! u = asc CHR ''/'' \<and> (\<forall>c \<in> set (seg u e d). c \<notin> {NUL, CR, LF})"
proof -
  from accepted [OF assms] obtain p where p: "q = Suc p" "p < length d" "method_ok d p r" "uri_ok d p r"
    by blast
  from p(3) obtain a me where m: "request_start r = Some a" "method_end r = Some me" "a \<le> me" "Suc me < p"
      "\<forall>i. a \<le> i \<and> i \<le> me \<longrightarrow> is_method_char (d ! i)" "d ! Suc me = SP"
      "rmethod r = method_of (seg a (Suc me) d)"
    by (auto simp: method_ok_def)
  from p(4) m(2) obtain u e where u: "uri_start r = Some u" "uri_end r = Some e" "u < e" "e \<le> p"
      "d ! u = asc CHR ''/''" "no_ctl d u e" "Suc me < u"
    by (auto simp: uri_ok_def uri_at_def)
  have "list_all is_method_char (seg a (Suc me) d)"
    using m p by (auto simp: seg_def list_all_length)
  moreover have "\<forall>c \<in> set (seg u e d). c \<notin> {NUL, CR, LF}"
    using u p by (auto simp: seg_def in_set_conv_nth no_ctl_def)
  ultimately show ?thesis using m u p by (simp add: method_of_table)
qed

definition rl_simple :: "rl_result \<Rightarrow> bool" where
  "rl_simple res =
     (case res of rl_return rc r q \<Rightarrow> \<not> complex_uri r \<and> \<not> quoted_uri r | _ \<Rightarrow> False)"

lemma rl_simple_example: "rl_simple (ngx_http_parse_request_line (bytes ''GET /x?y'' @ [LF]) 0 rline_init)"
  by code_simp

theorem request_line_sound_witness:
  "\<exists>rc r q a me. ngx_http_parse_request_line (bytes ''GET /x?y'' @ [LF]) 0 rline_init = rl_return rc r q \<and>
     request_start r = Some a \<and> method_end r = Some me \<and> a \<le> me"
proof -
  from rl_simple_example obtain rc r q where
    "ngx_http_parse_request_line (bytes ''GET /x?y'' @ [LF]) 0 rline_init = rl_return rc r q"
    by (auto simp: rl_simple_def split: rl_result.splits)
  with request_line_sound [OF this] show ?thesis by blast
qed

text \<open>
  Claim C3. What the later phases rely on when they use the URI as it is: if neither
  \<open>complex_uri\<close> nor \<open>quoted_uri\<close> is set, the path (up to \<open>args_start\<close>) has no escape, no \<open>//\<close> and
  no \<open>/.\<close>, and \<open>args_start\<close>, if set, is behind a question mark.
\<close>
theorem request_line_flags:
  assumes "ngx_http_parse_request_line d 0 rline_init = rl_return rc r q"
    and "\<not> complex_uri r" and "\<not> quoted_uri r"
  shows "\<exists>u e. uri_start r = Some u \<and> uri_end r = Some e \<and>
    (case args_start r of
       None \<Rightarrow> clean d u e
     | Some s \<Rightarrow> u < s \<and> s \<le> e \<and> d ! (s - 1) = asc CHR ''?'' \<and> clean d u (s - 1))"
proof -
  from accepted [OF assms(1)] obtain p where "uri_ok d p r" by blast
  with assms(2,3) show ?thesis by (auto simp: uri_ok_def flags_ok_def uri_at_def split: option.splits)
qed

theorem request_line_flags_witness:
  "\<exists>rc r q u e. ngx_http_parse_request_line (bytes ''GET /x?y'' @ [LF]) 0 rline_init = rl_return rc r q \<and>
     \<not> complex_uri r \<and> uri_start r = Some u \<and> uri_end r = Some e"
proof -
  from rl_simple_example obtain rc r q where
    *: "ngx_http_parse_request_line (bytes ''GET /x?y'' @ [LF]) 0 rline_init = rl_return rc r q"
      "\<not> complex_uri r" "\<not> quoted_uri r"
    by (auto simp: rl_simple_def split: rl_result.splits)
  with request_line_flags [OF *] show ?thesis by blast
qed

section \<open>Every well-formed line is accepted\<close>

lemma start_run:
  assumes "is_method_char c" "rstate r = sw_start"
  shows "run rl_step pre (c # post) r =
    run rl_step (pre @ [c]) post (r\<lparr>request_start := Some (length pre), rstate := sw_method\<rparr>)"
proof -
  have "c \<noteq> CR" "c \<noteq> LF" using assms(1) by (auto simp: is_method_char_def)
  moreover have "((c < asc CHR ''A'' \<or> c > asc CHR ''Z'') \<and> c \<noteq> asc CHR ''_'') = False"
    using assms(1) by (simp only: is_method_char_def simp_thms)
  ultimately show ?thesis
    by (simp only: run_Cons rl_step_def assms(2) rl_state.simps st_start_def Let_def) simp
qed

lemma method_run:
  assumes "list_all is_method_char w" "rstate r = sw_method"
  shows "run rl_step pre (w @ post) r = run rl_step (pre @ w) post r"
proof (rule run_skip)
  fix c d p
  assume "c \<in> set w"
  with assms(1) have c: "is_method_char c" by (simp add: list_all_iff)
  then have "c \<noteq> SP" by (auto simp: is_method_char_def)
  moreover have "((c < asc CHR ''A'' \<or> c > asc CHR ''Z'') \<and> c \<noteq> asc CHR ''_'') = False"
    using c by (simp only: is_method_char_def simp_thms)
  ultimately show "rl_step d p r c = Inl r"
    by (simp only: rl_step_def assms(2) rl_state.simps st_method_def) simp
qed

lemma method_end_run:
  assumes "rstate r = sw_method" "request_start r = Some 0" "rmethod r = NGX_HTTP_UNKNOWN"
  shows "run rl_step w (SP # post) r = run rl_step (w @ [SP]) post
    (r\<lparr>method_end := Some (length w - 1), rmethod := method_of w, rstate := sw_spaces_before_uri\<rparr>)"
  using assms
  by (cases r)
    (simp add: run_Cons rl_step_def st_method_def seg_def set_method_def method_of_def split: option.split)

lemma spaces_run:
  assumes "rstate r \<in> {sw_spaces_before_uri, sw_check_uri_http_09, sw_spaces_after_digit}"
  shows "run rl_step pre (replicate n SP @ post) r = run rl_step (pre @ replicate n SP) post r"
  by (rule run_skip)
    (use assms in \<open>auto simp: rl_step_def st_spaces_before_uri_def st_check_uri_http_09_def
      st_spaces_after_digit_def is_alpha_def\<close>)

lemma usual_run:
  assumes "list_all (bitmap_test usual) w"
  shows "run rl_step pre (w @ SP # post) (r\<lparr>rstate := sw_after_slash_in_uri\<rparr>) =
    run rl_step (pre @ w @ [SP]) post
      (r\<lparr>uri_end := Some (length pre + length w), rstate := sw_check_uri_http_09\<rparr>)"
proof (cases w)
  case (Cons c w')
  with assms have c: "bitmap_test usual c" "list_all (bitmap_test usual) w'" by simp_all
  have "run rl_step (pre @ [c]) (w' @ SP # post) (r\<lparr>rstate := sw_check_uri\<rparr>) =
    run rl_step ((pre @ [c]) @ w') (SP # post) (r\<lparr>rstate := sw_check_uri\<rparr>)"
    by (rule run_skip) (use c in \<open>auto simp: list_all_iff rl_step_def st_check_uri_def\<close>)
  with Cons c show ?thesis
    by (simp add: run_Cons rl_step_def st_after_slash_in_uri_def st_check_uri_def)
qed (simp add: run_Cons rl_step_def st_after_slash_in_uri_def)

lemma http_run:
  assumes "rstate r = sw_check_uri_http_09"
  shows "run rl_step pre (bytes ''HTTP/'' @ post) r = run rl_step (pre @ bytes ''HTTP/'') post
    (r\<lparr>http_protocol := Some (length pre), rstate := sw_first_major_digit\<rparr>)"
  using assms by (simp add: run_Cons rl_step_def st_check_uri_http_09_def st_expect_def)

lemma digit16: "is_digit c \<Longrightarrow> (ucast (c - asc CHR ''0'') :: u16) = of_nat (dval c)"
  unfolding dval_def by (simp only: unsigned_of_nat of_nat_unat)

lemma digit_tests:
  assumes "is_digit c"
  shows "\<not> c < asc CHR ''0''" "\<not> c > asc CHR ''9''" "c \<noteq> asc CHR ''.''" "c \<noteq> CR" "c \<noteq> LF" "c \<noteq> SP"
  using assms by (auto simp: is_digit_def not_less)

lemma major_run:
  assumes "list_all is_digit w"
  shows "run rl_step pre (w @ post) (r\<lparr>rstate := sw_major_digit, http_major := of_nat n\<rparr>) =
    run rl_step (pre @ w) post
      (r\<lparr>rstate := sw_major_digit, http_major := of_nat (n * 10 ^ length w + dec_val w)\<rparr>)"
  using assms
proof (induction w arbitrary: pre n)
  case (Cons c w)
  then have c: "is_digit c" by simp
  have "run rl_step pre (c # w @ post) (r\<lparr>rstate := sw_major_digit, http_major := of_nat n\<rparr>) =
    run rl_step (pre @ [c]) (w @ post)
      (r\<lparr>rstate := sw_major_digit, http_major := of_nat (n * 10 + dval c)\<rparr>)"
    using digit_tests [OF c] digit16 [OF c]
    by (simp only: run_Cons rl_step_def st_major_digit_def) simp
  with Cons.IH [of "pre @ [c]" "n * 10 + dval c"] Cons.prems show ?case
    by (simp add: num_val_Cons algebra_simps)
qed simp

lemma minor_run:
  assumes "list_all is_digit w"
  shows "run rl_step pre (w @ post) (r\<lparr>rstate := sw_minor_digit, http_minor := of_nat n\<rparr>) =
    run rl_step (pre @ w) post
      (r\<lparr>rstate := sw_minor_digit, http_minor := of_nat (n * 10 ^ length w + dec_val w)\<rparr>)"
  using assms
proof (induction w arbitrary: pre n)
  case (Cons c w)
  then have c: "is_digit c" by simp
  have "run rl_step pre (c # w @ post) (r\<lparr>rstate := sw_minor_digit, http_minor := of_nat n\<rparr>) =
    run rl_step (pre @ [c]) (w @ post)
      (r\<lparr>rstate := sw_minor_digit, http_minor := of_nat (n * 10 + dval c)\<rparr>)"
    using digit_tests [OF c] digit16 [OF c]
    by (simp only: run_Cons rl_step_def st_minor_digit_def) simp
  with Cons.IH [of "pre @ [c]" "n * 10 + dval c"] Cons.prems show ?case
    by (simp add: num_val_Cons algebra_simps)
qed simp

text \<open>Record updates in one order: the state first.\<close>

lemma rline_swap [simp]:
  "r\<lparr>http_major := x, rstate := st\<rparr> = r\<lparr>rstate := st, http_major := x\<rparr>"
  "r\<lparr>http_minor := x, rstate := st\<rparr> = r\<lparr>rstate := st, http_minor := x\<rparr>"
  "r\<lparr>http_minor := x, http_major := y\<rparr> = r\<lparr>http_major := y, http_minor := x\<rparr>"
  by (cases r, simp)+

lemma version_run:
  assumes "is_digit c" "c \<noteq> asc CHR ''0''" "list_all is_digit w" "is_digit c'" "list_all is_digit w'"
  shows "run rl_step pre (c # w @ asc CHR ''.'' # c' # w' @ [CR, LF]) (r\<lparr>rstate := sw_first_major_digit\<rparr>) =
    Inr (length pre + length w + length w' + 4, rl_done (r\<lparr>rstate := sw_almost_done,
      http_major := of_nat (dec_val (c # w)), http_minor := of_nat (dec_val (c' # w')),
      request_end := Some (length pre + length w + length w' + 3)\<rparr>))"
proof -
  have 0: "\<not> c < asc CHR ''1''"
    using assms(1,2) by (auto simp: is_digit_unat word_less_nat_alt word_unat_eq_iff)
  have 1: "run rl_step pre (c # w @ asc CHR ''.'' # c' # w' @ [CR, LF]) (r\<lparr>rstate := sw_first_major_digit\<rparr>) =
    run rl_step (pre @ [c]) (w @ asc CHR ''.'' # c' # w' @ [CR, LF])
      (r\<lparr>rstate := sw_major_digit, http_major := of_nat (dval c)\<rparr>)"
    using digit_tests [OF assms(1)] digit16 [OF assms(1)] 0
    by (simp only: run_Cons rl_step_def st_first_major_digit_def) simp
  have 2: "run rl_step pre (asc CHR ''.'' # c' # w' @ [CR, LF]) (r\<lparr>rstate := sw_major_digit\<rparr>) =
    run rl_step (pre @ [asc CHR ''.'', c']) (w' @ [CR, LF])
      (r\<lparr>rstate := sw_minor_digit, http_minor := of_nat (dval c')\<rparr>)" for pre r
    using digit_tests [OF assms(4)] digit16 [OF assms(4)]
    by (simp only: run_Cons rl_step_def st_major_digit_def st_first_minor_digit_def) simp
  have 3: "run rl_step pre [CR, LF] (r\<lparr>rstate := sw_minor_digit\<rparr>) =
    Inr (Suc (length pre), rl_done (r\<lparr>rstate := sw_almost_done, request_end := Some (length pre)\<rparr>))" for pre r
    by (simp add: run_Cons rl_step_def st_minor_digit_def st_almost_done_def)
  show ?thesis
    using 1 major_run [OF assms(3), of "pre @ [c]" "asc CHR ''.'' # c' # w' @ [CR, LF]" "dval c" r]
      2 [of "pre @ c # w" "r\<lparr>http_major := of_nat (dec_val (c # w))\<rparr>"]
      minor_run [OF assms(5), of "pre @ c # w @ [asc CHR ''.'', c']" "[CR, LF]"
        "dval c'" "r\<lparr>http_major := of_nat (dec_val (c # w))\<rparr>"]
      3 [of "pre @ c # w @ asc CHR ''.'' # c' # w'"
        "r\<lparr>http_major := of_nat (dec_val (c # w)), http_minor := of_nat (dec_val (c' # w'))\<rparr>"]
    by (simp add: num_val_Cons mult.commute)
qed

text \<open>A request line: method, spaces, a path of usual bytes, spaces, version, CR LF.\<close>

definition http_line :: "byte list \<Rightarrow> nat \<Rightarrow> byte list \<Rightarrow> nat \<Rightarrow> byte list \<Rightarrow> byte list \<Rightarrow> byte list" where
  "http_line m n w k maj mn =
     m @ SP # replicate n SP @ (asc CHR ''/'' # w) @ SP # replicate k SP @ bytes ''HTTP/'' @
     maj @ asc CHR ''.'' # mn @ [CR, LF]"

lemma uri_slash_run:
  assumes "rstate r = sw_spaces_before_uri"
  shows "run rl_step pre (asc CHR ''/'' # post) r = run rl_step (pre @ [asc CHR ''/'']) post
    (r\<lparr>uri_start := Some (length pre), rstate := sw_after_slash_in_uri\<rparr>)"
  using assms by (simp add: run_Cons rl_step_def st_spaces_before_uri_def)

text \<open>The request when the parser reaches the end of such a line.\<close>

definition line_request :: "byte list \<Rightarrow> nat \<Rightarrow> byte list \<Rightarrow> nat \<Rightarrow> byte list \<Rightarrow> byte list \<Rightarrow> rline" where
  "line_request m n w k maj mn =
     (let u = length m + 1 + n; e = u + 1 + length w; h = e + 1 + k in
      rline_init\<lparr>rstate := sw_almost_done,
        request_start := Some 0, method_end := Some (length m - 1), rmethod := method_of m,
        uri_start := Some u, uri_end := Some e, http_protocol := Some h,
        http_major := of_nat (dec_val maj), http_minor := of_nat (dec_val mn),
        request_end := Some (h + length maj + length mn + 6)\<rparr>)"

lemma http_line_run:
  fixes n k :: nat
  assumes m: "m \<noteq> []" "list_all is_method_char m" and w: "list_all (bitmap_test usual) w"
    and maj: "maj \<noteq> []" "list_all is_digit maj" "hd maj \<noteq> asc CHR ''0''"
    and mn: "mn \<noteq> []" "list_all is_digit mn"
  shows "feed rl_step (http_line m n w k maj mn) 0 rline_init =
    Inr (length (http_line m n w k maj mn) - 1, rl_done (line_request m n w k maj mn))"
proof -
  obtain m0 ms where m': "m = m0 # ms" "is_method_char m0" "list_all is_method_char ms"
    using m by (cases m) auto
  obtain c cs where c: "maj = c # cs" "is_digit c" "list_all is_digit cs" "c \<noteq> asc CHR ''0''"
    using maj by (cases maj) auto
  obtain c' cs' where c': "mn = c' # cs'" "is_digit c'" "list_all is_digit cs'"
    using mn by (cases mn) auto
  define u where "u = length m + 1 + n"
  define e where "e = u + 1 + length w"
  define h where "h = e + 1 + k"
  let ?tail = "c # cs @ asc CHR ''.'' # c' # cs' @ [CR, LF]"
  let ?r1 = "rline_init\<lparr>request_start := Some 0, rstate := sw_method\<rparr>"
  let ?r2 = "?r1\<lparr>method_end := Some (length m - 1), rmethod := method_of m,
    rstate := sw_spaces_before_uri\<rparr>"
  let ?r3 = "?r2\<lparr>uri_start := Some u, rstate := sw_after_slash_in_uri\<rparr>"
  let ?r4 = "?r3\<lparr>uri_end := Some e, rstate := sw_check_uri_http_09\<rparr>"
  let ?r5 = "?r4\<lparr>http_protocol := Some h, rstate := sw_first_major_digit\<rparr>"
  let ?p2 = "m @ [SP]" and ?p3 = "(m @ [SP]) @ replicate n SP"
  let ?p4 = "(?p3 @ [asc CHR ''/'']) @ w @ [SP]"
  let ?p5 = "?p4 @ replicate k SP"
  have l: "length ?p3 = u" "length (?p3 @ [asc CHR ''/'']) + length w = e" "length ?p5 = h"
    by (simp_all add: u_def e_def h_def)
  have "feed rl_step (http_line m n w k maj mn) 0 rline_init = run rl_step [] (http_line m n w k maj mn) rline_init"
    by (simp add: run_def)
  also have "\<dots> = run rl_step [m0] (ms @ SP # replicate n SP @ asc CHR ''/'' # w @ SP # replicate k SP @
      bytes ''HTTP/'' @ ?tail) ?r1"
    using start_run [OF m'(2), of rline_init "[]"] by (simp add: http_line_def m' c c' rline_init_def)
  also have "\<dots> = run rl_step m (SP # replicate n SP @ asc CHR ''/'' # w @ SP # replicate k SP @
      bytes ''HTTP/'' @ ?tail) ?r1"
    using method_run [OF m'(3), of ?r1 "[m0]"] by (simp add: m')
  also have "\<dots> = run rl_step ?p2 (replicate n SP @ asc CHR ''/'' # w @ SP # replicate k SP @
      bytes ''HTTP/'' @ ?tail) ?r2"
    by (rule method_end_run) (simp_all add: rline_init_def)
  also have "\<dots> = run rl_step ?p3 (asc CHR ''/'' # w @ SP # replicate k SP @ bytes ''HTTP/'' @ ?tail) ?r2"
    by (rule spaces_run) simp
  also have "\<dots> = run rl_step (?p3 @ [asc CHR ''/'']) (w @ SP # replicate k SP @ bytes ''HTTP/'' @ ?tail) ?r3"
    by (subst uri_slash_run) (simp_all only: l, simp)
  also have "\<dots> = run rl_step ?p4 (replicate k SP @ bytes ''HTTP/'' @ ?tail) ?r4"
    using usual_run [OF w, of "?p3 @ [asc CHR ''/'']" "replicate k SP @ bytes ''HTTP/'' @ ?tail"
      "?r2\<lparr>uri_start := Some u\<rparr>"] l(2) by simp
  also have "\<dots> = run rl_step ?p5 (bytes ''HTTP/'' @ ?tail) ?r4"
    by (rule spaces_run) simp
  also have "\<dots> = run rl_step (?p5 @ bytes ''HTTP/'') ?tail ?r5"
    by (subst http_run) (simp_all only: l, simp)
  also have "\<dots> = Inr (length (?p5 @ bytes ''HTTP/'') + length cs + length cs' + 4, rl_done (?r5\<lparr>rstate := sw_almost_done,
      http_major := of_nat (dec_val maj), http_minor := of_nat (dec_val mn),
      request_end := Some (length (?p5 @ bytes ''HTTP/'') + length cs + length cs' + 3)\<rparr>))"
    using version_run [OF c(2,4,3) c'(2,3), of "?p5 @ bytes ''HTTP/''" ?r5] by (simp add: c c')
  also have "length (?p5 @ bytes ''HTTP/'') = h + 5" using l(3) by simp
  finally show ?thesis
    by (simp add: line_request_def Let_def rline_init_def c c' u_def e_def h_def http_line_def add.commute)
qed

lemma http_line_uri:
  "seg (length m + 1 + n) (length m + 1 + n + 1 + length w) (http_line m n w k maj mn) = asc CHR ''/'' # w"
  using seg_mid [of "m @ SP # replicate n SP" "asc CHR ''/'' # w"] by (simp add: http_line_def)



end
