(* ===== verification/HttpStatus.thy ===== *)
theory HttpStatus
  imports HttpLine
begin

text \<open>
  The status line of an upstream's response: \<open>ngx_http_parse_status_line\<close> of
  src/http/ngx_http_parse.c. The state is what the function keeps in the request (\<open>state\<close>,
  \<open>http_major\<close>, \<open>http_minor\<close>) and in \<open>ngx_http_status_t\<close>; positions are offsets into the buffer.
\<close>

datatype sl_state =
    sl_start | sl_H | sl_HT | sl_HTT | sl_HTTP | sl_first_major_digit | sl_major_digit
  | sl_first_minor_digit | sl_minor_digit | sl_status | sl_space_after_status | sl_status_text
  | sl_almost_done

record sline =
  sl_st :: sl_state
  sl_major :: u16
  sl_minor :: u16
  sl_version :: u64
  sl_code :: u64
  sl_count :: u64
  sl_begin :: "nat option"
  sl_end :: "nat option"

datatype sl_stop = sl_goto_done sline | sl_error

definition sl_expect :: "byte \<Rightarrow> sl_state \<Rightarrow> sline \<Rightarrow> byte \<Rightarrow> sline + sl_stop" where
  "sl_expect x st s ch = (if ch = x then Inl (s\<lparr>sl_st := st\<rparr>) else Inr sl_error)"

definition sl_first_major_step :: "sline \<Rightarrow> byte \<Rightarrow> sline + sl_stop" where
  "sl_first_major_step s ch =
     (if ch < asc CHR ''1'' \<or> ch > asc CHR ''9'' then Inr sl_error
      else Inl (s\<lparr>sl_major := ucast (ch - asc CHR ''0''), sl_st := sl_major_digit\<rparr>))"

definition sl_major_step :: "sline \<Rightarrow> byte \<Rightarrow> sline + sl_stop" where
  "sl_major_step s ch =
     (if ch = asc CHR ''.'' then Inl (s\<lparr>sl_st := sl_first_minor_digit\<rparr>)
      else if ch < asc CHR ''0'' \<or> ch > asc CHR ''9'' then Inr sl_error
      else Inl (s\<lparr>sl_major := sl_major s * 10 + ucast (ch - asc CHR ''0'')\<rparr>))"

definition sl_first_minor_step :: "sline \<Rightarrow> byte \<Rightarrow> sline + sl_stop" where
  "sl_first_minor_step s ch =
     (if ch < asc CHR ''0'' \<or> ch > asc CHR ''9'' then Inr sl_error
      else Inl (s\<lparr>sl_minor := ucast (ch - asc CHR ''0''), sl_st := sl_minor_digit\<rparr>))"

definition sl_minor_step :: "sline \<Rightarrow> byte \<Rightarrow> sline + sl_stop" where
  "sl_minor_step s ch =
     (if ch = SP then Inl (s\<lparr>sl_st := sl_status\<rparr>)
      else if ch < asc CHR ''0'' \<or> ch > asc CHR ''9'' then Inr sl_error
      else Inl (s\<lparr>sl_minor := sl_minor s * 10 + ucast (ch - asc CHR ''0'')\<rparr>))"

definition sl_status_step :: "nat \<Rightarrow> sline \<Rightarrow> byte \<Rightarrow> sline + sl_stop" where
  "sl_status_step p s ch =
     (if ch = SP then Inl s
      else if ch < asc CHR ''0'' \<or> ch > asc CHR ''9'' then Inr sl_error
      else let s = s\<lparr>sl_code := sl_code s * 10 + ucast (ch - asc CHR ''0''), sl_count := sl_count s + 1\<rparr> in
        if sl_count s = 3 then Inl (s\<lparr>sl_st := sl_space_after_status, sl_begin := Some (p - 2)\<rparr>)
        else Inl s)"

definition sl_space_step :: "sline \<Rightarrow> byte \<Rightarrow> sline + sl_stop" where
  "sl_space_step s ch =
     (if ch = SP then Inl (s\<lparr>sl_st := sl_status_text\<rparr>)
      else if ch = asc CHR ''.'' then Inl (s\<lparr>sl_st := sl_status_text\<rparr>)
      else if ch = CR then Inl (s\<lparr>sl_st := sl_almost_done\<rparr>)
      else if ch = LF then Inr (sl_goto_done s)
      else Inr sl_error)"

definition sl_text_step :: "sline \<Rightarrow> byte \<Rightarrow> sline + sl_stop" where
  "sl_text_step s ch =
     (if ch = CR then Inl (s\<lparr>sl_st := sl_almost_done\<rparr>)
      else if ch = LF then Inr (sl_goto_done s)
      else Inl s)"

definition sl_almost_done_step :: "nat \<Rightarrow> sline \<Rightarrow> byte \<Rightarrow> sline + sl_stop" where
  "sl_almost_done_step p s ch =
     (let s = s\<lparr>sl_end := Some (p - 1)\<rparr> in if ch = LF then Inr (sl_goto_done s) else Inr sl_error)"

definition sl_step :: "byte list \<Rightarrow> nat \<Rightarrow> sline \<Rightarrow> byte \<Rightarrow> sline + sl_stop" where
  "sl_step d p s ch = (case sl_st s of
     sl_start \<Rightarrow> sl_expect (asc CHR ''H'') sl_H s ch
   | sl_H \<Rightarrow> sl_expect (asc CHR ''T'') sl_HT s ch
   | sl_HT \<Rightarrow> sl_expect (asc CHR ''T'') sl_HTT s ch
   | sl_HTT \<Rightarrow> sl_expect (asc CHR ''P'') sl_HTTP s ch
   | sl_HTTP \<Rightarrow> sl_expect (asc CHR ''/'') sl_first_major_digit s ch
   | sl_first_major_digit \<Rightarrow> sl_first_major_step s ch
   | sl_major_digit \<Rightarrow> sl_major_step s ch
   | sl_first_minor_digit \<Rightarrow> sl_first_minor_step s ch
   | sl_minor_digit \<Rightarrow> sl_minor_step s ch
   | sl_status \<Rightarrow> sl_status_step p s ch
   | sl_space_after_status \<Rightarrow> sl_space_step s ch
   | sl_status_text \<Rightarrow> sl_text_step s ch
   | sl_almost_done \<Rightarrow> sl_almost_done_step p s ch)"

definition sl_done :: "nat \<Rightarrow> sline \<Rightarrow> sline" where
  "sl_done p s =
     s\<lparr>sl_end := (case sl_end s of None \<Rightarrow> Some p | Some e \<Rightarrow> Some e),
       sl_version := ucast (sl_major s) * 1000 + ucast (sl_minor s), sl_st := sl_start\<rparr>"

text \<open>Return code, state and new \<open>b->pos\<close>; after an error neither of the latter is set.\<close>

datatype sl_result = sl_again sline nat | sl_ok sline nat | sl_fail

definition ngx_http_parse_status_line :: "byte list \<Rightarrow> nat \<Rightarrow> sline \<Rightarrow> sl_result" where
  "ngx_http_parse_status_line d p s =
     (case feed sl_step d p s of
        Inl s' \<Rightarrow> sl_again s' (max p (length d))
      | Inr (q, sl_goto_done s') \<Rightarrow> sl_ok (sl_done q s') (q + 1)
      | Inr (q, sl_error) \<Rightarrow> sl_fail)"

interpretation sl: incremental sl_step
  by unfold_locales (simp add: sl_step_def)

text \<open>The state before the first call: \<open>code\<close>, \<open>count\<close>, \<open>start\<close> and \<open>end\<close> are cleared.\<close>

definition sline_init :: sline where
  "sline_init = \<lparr>sl_st = sl_start, sl_major = 0, sl_minor = 0, sl_version = 0, sl_code = 0, sl_count = 0,
     sl_begin = None, sl_end = None\<rparr>"

section \<open>A status line in pieces\<close>

theorem status_line_resumable:
  assumes "p \<le> length d"
  shows "case ngx_http_parse_status_line d p s of
      sl_again s' q \<Rightarrow> q = length d \<and>
        ngx_http_parse_status_line (d @ e) p s = ngx_http_parse_status_line (d @ e) q s'
    | res \<Rightarrow> ngx_http_parse_status_line (d @ e) p s = res"
proof (cases "feed sl_step d p s")
  case (Inl s')
  with assms show ?thesis
    by (simp add: ngx_http_parse_status_line_def sl.feed_again [OF assms Inl] max_absorb2 split: sum.split)
next
  case (Inr qr)
  with sl.feed_stop [OF assms Inr] show ?thesis
    by (cases qr; cases "snd qr") (simp_all add: ngx_http_parse_status_line_def)
qed

section \<open>Every status line is read right\<close>

lemma sl_digit:
  assumes "is_digit c"
  shows "c \<noteq> SP" "c \<noteq> asc CHR ''.''" "\<not> c < asc CHR ''0''" "\<not> c > asc CHR ''9''"
    "(ucast (c - asc CHR ''0'') :: u16) = of_nat (dval c)" "(ucast (c - asc CHR ''0'') :: u64) = of_nat (dval c)"
  using digit_tests [OF assms] digit16 [OF assms] digit_facts(1) [OF assms] by simp_all

abbreviation sline_at :: "sl_state \<Rightarrow> nat \<Rightarrow> nat \<Rightarrow> nat \<Rightarrow> nat \<Rightarrow> nat option \<Rightarrow> nat option \<Rightarrow> sline" where
  "sline_at st mj mn code count b e \<equiv>
     \<lparr>sl_st = st, sl_major = of_nat mj, sl_minor = of_nat mn, sl_version = 0, sl_code = of_nat code,
      sl_count = of_nat count, sl_begin = b, sl_end = e\<rparr>"

lemma sl_major_run:
  "list_all is_digit w \<Longrightarrow>
   run sl_step pre (w @ post) (sline_at sl_major_digit n mn cd ct b e) =
     run sl_step (pre @ w) post (sline_at sl_major_digit (n * 10 ^ length w + dec_val w) mn cd ct b e)"
proof (induction w arbitrary: pre n)
  case (Cons c w)
  then have "run sl_step pre (c # w @ post) (sline_at sl_major_digit n mn cd ct b e) =
    run sl_step (pre @ [c]) (w @ post) (sline_at sl_major_digit (n * 10 + dval c) mn cd ct b e)"
    using sl_digit [of c] by (simp only: run_Cons sl_step_def sl_major_step_def) simp
  with Cons.IH [of "pre @ [c]" "n * 10 + dval c"] Cons.prems show ?case
    by (simp add: num_val_Cons algebra_simps)
qed simp

lemma sl_minor_run:
  "list_all is_digit w \<Longrightarrow>
   run sl_step pre (w @ post) (sline_at sl_minor_digit mj n cd ct b e) =
     run sl_step (pre @ w) post (sline_at sl_minor_digit mj (n * 10 ^ length w + dec_val w) cd ct b e)"
proof (induction w arbitrary: pre n)
  case (Cons c w)
  then have "run sl_step pre (c # w @ post) (sline_at sl_minor_digit mj n cd ct b e) =
    run sl_step (pre @ [c]) (w @ post) (sline_at sl_minor_digit mj (n * 10 + dval c) cd ct b e)"
    using sl_digit [of c] by (simp only: run_Cons sl_step_def sl_minor_step_def) simp
  with Cons.IH [of "pre @ [c]" "n * 10 + dval c"] Cons.prems show ?case
    by (simp add: num_val_Cons algebra_simps)
qed simp

lemma sl_version_run:
  assumes "is_digit c" "c \<noteq> asc CHR ''0''" "list_all is_digit w" "is_digit c'" "list_all is_digit w'"
  shows "run sl_step pre (bytes ''HTTP/'' @ c # w @ asc CHR ''.'' # c' # w' @ SP # post) (sline_at sl_start mj mn cd ct b e) =
    run sl_step (pre @ bytes ''HTTP/'' @ c # w @ asc CHR ''.'' # c' # w' @ [SP]) post
      (sline_at sl_status (dec_val (c # w)) (dec_val (c' # w')) cd ct b e)"
proof -
  have 0: "\<not> c < asc CHR ''1''"
    using assms(1,2) by (auto simp: is_digit_unat word_less_nat_alt word_unat_eq_iff)
  have 1: "run sl_step pre (bytes ''HTTP/'' @ c # post') (sline_at sl_start mj mn cd ct b e) =
    run sl_step (pre @ bytes ''HTTP/'' @ [c]) post' (sline_at sl_major_digit (dval c) mn cd ct b e)" for post'
    using sl_digit [OF assms(1)] 0 by (simp add: run_Cons sl_step_def sl_expect_def sl_first_major_step_def)
  have 2: "run sl_step pre' (asc CHR ''.'' # c' # post') (sline_at sl_major_digit mj' mn cd ct b e) =
    run sl_step (pre' @ [asc CHR ''.'', c']) post' (sline_at sl_minor_digit mj' (dval c') cd ct b e)" for pre' post' mj'
    using sl_digit [OF assms(4)] by (simp add: run_Cons sl_step_def sl_major_step_def sl_first_minor_step_def)
  have 3: "run sl_step pre' (SP # post) (sline_at sl_minor_digit mj' mn' cd ct b e) =
    run sl_step (pre' @ [SP]) post (sline_at sl_status mj' mn' cd ct b e)" for pre' mj' mn'
    by (simp add: run_Cons sl_step_def sl_minor_step_def)
  show ?thesis
    by (simp only: 1 2 3 sl_major_run [OF assms(3)] sl_minor_run [OF assms(5)])
      (simp add: num_val_Cons mult.commute)
qed

lemma sl_code_run:
  assumes "is_digit a" "is_digit b" "is_digit c"
  shows "run sl_step pre (replicate k SP @ a # b # c # post) (sline_at sl_status mj mn 0 0 None None) =
    run sl_step (pre @ replicate k SP @ [a, b, c]) post
      (sline_at sl_space_after_status mj mn (dec_val [a, b, c]) 3 (Some (length pre + k)) None)"
proof -
  have sp: "run sl_step pre (replicate k SP @ a # b # c # post) (sline_at sl_status mj mn 0 0 None None) =
    run sl_step (pre @ replicate k SP) (a # b # c # post) (sline_at sl_status mj mn 0 0 None None)"
    by (rule run_skip) (auto simp: sl_step_def sl_status_step_def)
  show ?thesis
    unfolding sp using sl_digit [OF assms(1)] sl_digit [OF assms(2)] sl_digit [OF assms(3)]
    by (simp add: run_Cons sl_step_def sl_status_step_def Let_def num_val_def algebra_simps)
qed

lemma sl_text_run:
  assumes "CR \<notin> set t" "LF \<notin> set t" "hd (t @ [SP]) = SP \<or> hd (t @ [SP]) = asc CHR ''.''"
  shows "run sl_step pre (t @ [CR, LF]) (sline_at sl_space_after_status mj mn cd ct b None) =
    Inr (length pre + length t + 1, sl_goto_done (sline_at sl_almost_done mj mn cd ct b (Some (length pre + length t))))"
proof (cases t)
  case Nil
  then show ?thesis by (simp add: run_Cons sl_step_def sl_space_step_def sl_almost_done_step_def)
next
  case (Cons x t')
  have x: "x = SP \<or> x = asc CHR ''.''" using assms(3) Cons by simp
  have sk: "run sl_step (pre @ [x]) (t' @ [CR, LF]) (sline_at sl_status_text mj mn cd ct b None) =
    run sl_step ((pre @ [x]) @ t') [CR, LF] (sline_at sl_status_text mj mn cd ct b None)"
    by (rule run_skip) (use assms(1,2) Cons in \<open>auto simp: sl_step_def sl_text_step_def\<close>)
  have "run sl_step pre (t @ [CR, LF]) (sline_at sl_space_after_status mj mn cd ct b None) =
    run sl_step (pre @ [x]) (t' @ [CR, LF]) (sline_at sl_status_text mj mn cd ct b None)"
    using x by (auto simp: Cons run_Cons sl_step_def sl_space_step_def)
  also have "\<dots> = Inr (length pre + length t + 1, sl_goto_done (sline_at sl_almost_done mj mn cd ct b (Some (length pre + length t))))"
    unfolding sk by (simp add: Cons run_Cons sl_step_def sl_text_step_def sl_almost_done_step_def)
  finally show ?thesis .
qed

text \<open>
  Claim C35. A status line is taken apart exactly: version (each number modulo \<open>2 ^ 16\<close>), the three
  digits of the code, where code and line end are, and the position behind the line.
\<close>
theorem status_line_complete:
  assumes "is_digit c" "c \<noteq> asc CHR ''0''" "list_all is_digit w" "is_digit c'" "list_all is_digit w'"
    and "is_digit x" "is_digit y" "is_digit z"
    and "CR \<notin> set t" "LF \<notin> set t" "hd (t @ [SP]) = SP \<or> hd (t @ [SP]) = asc CHR ''.''"
  shows "let version = bytes ''HTTP/'' @ c # w @ asc CHR ''.'' # c' # w' @ SP # replicate k SP;
      mj = take_bit 16 (dec_val (c # w)); mn = take_bit 16 (dec_val (c' # w'));
      n = length version
    in ngx_http_parse_status_line (version @ x # y # z # t @ [CR, LF]) 0 sline_init =
      sl_ok (sline_at sl_start (dec_val (c # w)) (dec_val (c' # w')) (dec_val [x, y, z]) 3 (Some n) (Some (n + 3 + length t))
        \<lparr>sl_version := of_nat (1000 * mj + mn)\<rparr>) (n + 5 + length t)"
proof -
  let ?v = "bytes ''HTTP/'' @ c # w @ asc CHR ''.'' # c' # w' @ [SP]"
  have "run sl_step [] (bytes ''HTTP/'' @ c # w @ asc CHR ''.'' # c' # w' @ SP # replicate k SP @ x # y # z # t @ [CR, LF])
      (sline_at sl_start 0 0 0 0 None None) =
    Inr (length (?v @ replicate k SP) + 3 + length t + 1, sl_goto_done (sline_at sl_almost_done (dec_val (c # w))
      (dec_val (c' # w')) (dec_val [x, y, z]) 3 (Some (length ?v + k)) (Some (length (?v @ replicate k SP) + 3 + length t))))"
    by (simp only: sl_version_run [OF assms(1-5)] sl_code_run [OF assms(6-8)] sl_text_run [OF assms(9-11)]) simp
  moreover have "ucast (of_nat n :: u16) = (of_nat (take_bit 16 n) :: u64)" for n
    by (simp add: unsigned_of_nat)
  ultimately show ?thesis
    by (simp add: ngx_http_parse_status_line_def run_def sline_init_def sl_done_def Let_def)
qed

theorem status_line_complete_witness:
  "\<exists>s. ngx_http_parse_status_line (bytes ''HTTP/1.1  404 No'' @ [CR, LF]) 0 sline_init = sl_ok s 18 \<and>
     sl_code s = 404 \<and> sl_version s = 1001 \<and> sl_begin s = Some 10 \<and> sl_end s = Some 16"
  using status_line_complete [of "asc CHR ''1''" "[]" "asc CHR ''1''" "[]" "asc CHR ''4''" "asc CHR ''0''" "asc CHR ''4''"
      "bytes '' No''" 1]
  by (simp add: is_digit_def num_val_def dval_def Let_def)

text \<open>
  The code may be cut by spaces, and its start is then not where its first digit is; the counter
  and the code are only ever cleared by the caller.
\<close>
theorem status_line_code_spaces:
  "case ngx_http_parse_status_line (bytes ''HTTP/1.1 4 04'' @ [LF]) 0 sline_init of
     sl_ok s q \<Rightarrow> sl_code s = 404 \<and> sl_begin s = Some 10 | _ \<Rightarrow> False"
  by code_simp

end
