(* ===== verification/NgxStr.thy ===== *)
theory NgxStr
  imports Prelude "HOL-Library.Multiset" "HOL-Library.List_Lexorder"
begin

unbundle bit_operations_syntax

text \<open>
  Comparison and search of strings in src/core/ngx_string.c, and \<open>ngx_sort\<close> with the comparisons
  of src/http/ngx_http.c that are passed to it. A pointer is the list of the bytes from its
  address to the end of the object; a read behind that is \<open>None\<close>. The functions subtract bytes,
  so that a result is an \<open>int\<close> between -255 and 255.
\<close>

section \<open>Comparison\<close>

definition lower :: "byte \<Rightarrow> byte" where
  "lower c = (if asc CHR ''A'' \<le> c \<and> c \<le> asc CHR ''Z'' then c OR 0x20 else c)"

fun ngx_strcasecmp :: "byte list \<Rightarrow> byte list \<Rightarrow> int option" where
  "ngx_strcasecmp (a # s1) (b # s2) =
     (let c1 = lower a; c2 = lower b in
      if c1 = c2 then (if c1 \<noteq> 0 then ngx_strcasecmp s1 s2 else Some 0) else Some (uint c1 - uint c2))"
| "ngx_strcasecmp _ _ = None"

fun ngx_strncasecmp :: "byte list \<Rightarrow> byte list \<Rightarrow> nat \<Rightarrow> int option" where
  "ngx_strncasecmp s1 s2 0 = Some 0"
| "ngx_strncasecmp (a # s1) (b # s2) (Suc n) =
     (let c1 = lower a; c2 = lower b in
      if c1 = c2 then (if c1 \<noteq> 0 then ngx_strncasecmp s1 s2 n else Some 0) else Some (uint c1 - uint c2))"
| "ngx_strncasecmp _ _ (Suc n) = None"

fun ngx_dns_strcmp :: "byte list \<Rightarrow> byte list \<Rightarrow> int option" where
  "ngx_dns_strcmp (a # s1) (b # s2) =
     (let c1 = lower a; c2 = lower b in
      if c1 = c2 then (if c1 \<noteq> 0 then ngx_dns_strcmp s1 s2 else Some 0)
      else let c1 = (if c1 = asc CHR ''.'' then SP else c1); c2 = (if c2 = asc CHR ''.'' then SP else c2)
        in Some (uint c1 - uint c2))"
| "ngx_dns_strcmp _ _ = None"

fun ngx_filename_cmp :: "byte list \<Rightarrow> byte list \<Rightarrow> nat \<Rightarrow> int option" where
  "ngx_filename_cmp s1 s2 0 = Some 0"
| "ngx_filename_cmp (c1 # s1) (c2 # s2) (Suc n) =
     (if c1 = c2 then (if c1 \<noteq> 0 then ngx_filename_cmp s1 s2 n else Some 0)
      else if c1 = 0 \<or> c2 = 0 then Some (uint c1 - uint c2)
      else let c1 = (if c1 = asc CHR ''/'' then 0 else c1); c2 = (if c2 = asc CHR ''/'' then 0 else c2)
        in Some (uint c1 - uint c2))"
| "ngx_filename_cmp _ _ (Suc n) = None"

text \<open>\<open>strncmp\<close> and \<open>memcmp\<close> of the C library, with the difference of the first two bytes that differ.\<close>

fun strncmp :: "byte list \<Rightarrow> byte list \<Rightarrow> nat \<Rightarrow> int option" where
  "strncmp s1 s2 0 = Some 0"
| "strncmp (a # s1) (b # s2) (Suc n) =
     (if a \<noteq> b then Some (uint a - uint b) else if a = 0 then Some 0 else strncmp s1 s2 n)"
| "strncmp _ _ (Suc n) = None"

fun memcmp :: "byte list \<Rightarrow> byte list \<Rightarrow> nat \<Rightarrow> int option" where
  "memcmp s1 s2 0 = Some 0"
| "memcmp (a # s1) (b # s2) (Suc n) = (if a \<noteq> b then Some (uint a - uint b) else memcmp s1 s2 n)"
| "memcmp _ _ (Suc n) = None"

definition ngx_memn2cmp :: "byte list \<Rightarrow> byte list \<Rightarrow> nat \<Rightarrow> nat \<Rightarrow> int option" where
  "ngx_memn2cmp s1 s2 n1 n2 =
     (let (n, z) = (if n1 \<le> n2 then (n1, -1) else (n2, 1)) in
      case memcmp s1 s2 n of
        None \<Rightarrow> None
      | Some m \<Rightarrow> if m \<noteq> 0 \<or> n1 = n2 then Some m else Some z)"

text \<open>The comparisons from the end.\<close>

fun ngx_rstrncmp :: "byte list \<Rightarrow> byte list \<Rightarrow> nat \<Rightarrow> int option" where
  "ngx_rstrncmp s1 s2 0 = Some 0"
| "ngx_rstrncmp s1 s2 (Suc n) =
     (case (rd s1 n, rd s2 n) of
        (Some c1, Some c2) \<Rightarrow> if c1 \<noteq> c2 then Some (uint c1 - uint c2) else ngx_rstrncmp s1 s2 n
      | _ \<Rightarrow> None)"

definition upper :: "byte \<Rightarrow> byte" where
  "upper c = (if asc CHR ''a'' \<le> c \<and> c \<le> asc CHR ''z'' then c - (asc CHR ''a'' - asc CHR ''A'') else c)"

fun ngx_rstrncasecmp :: "byte list \<Rightarrow> byte list \<Rightarrow> nat \<Rightarrow> int option" where
  "ngx_rstrncasecmp s1 s2 0 = Some 0"
| "ngx_rstrncasecmp s1 s2 (Suc n) =
     (case (rd s1 n, rd s2 n) of
        (Some c1, Some c2) \<Rightarrow>
          if upper c1 \<noteq> upper c2 then Some (uint (upper c1) - uint (upper c2)) else ngx_rstrncasecmp s1 s2 n
      | _ \<Rightarrow> None)"

section \<open>Search\<close>

text \<open>
  The nested loops as one: \<open>i\<close> is how far \<open>s1\<close> has moved. The first byte \<open>c2\<close> of the searched
  string is looked for, then the rest \<open>s2\<close> is compared behind it. The result is the offset.
\<close>

fun strnstr_loop :: "byte \<Rightarrow> byte list \<Rightarrow> nat \<Rightarrow> nat \<Rightarrow> byte list \<Rightarrow> nat \<Rightarrow> nat option option" where
  "strnstr_loop c2 s2 n i s1 0 = Some None"
| "strnstr_loop c2 s2 n i [] (Suc len) = None"
| "strnstr_loop c2 s2 n i (c1 # s1) (Suc len) =
     (if c1 = 0 then Some None
      else if c1 \<noteq> c2 then strnstr_loop c2 s2 n (Suc i) s1 len
      else if n > len then Some None
      else case strncmp s1 s2 n of
          None \<Rightarrow> None
        | Some r \<Rightarrow> if r \<noteq> 0 then strnstr_loop c2 s2 n (Suc i) s1 len else Some (Some i))"

definition ngx_strnstr :: "byte list \<Rightarrow> byte list \<Rightarrow> nat \<Rightarrow> nat option option" where
  "ngx_strnstr s1 s2 len = (case s2 of
     [] \<Rightarrow> None
   | c2 # s2 \<Rightarrow> if NUL \<in> set s2 then strnstr_loop c2 s2 (length (takeWhile (\<lambda>c. c \<noteq> NUL) s2)) 0 s1 len else None)"

fun strstrn_loop :: "byte \<Rightarrow> byte list \<Rightarrow> nat \<Rightarrow> nat \<Rightarrow> byte list \<Rightarrow> nat option option" where
  "strstrn_loop c2 s2 n i [] = None"
| "strstrn_loop c2 s2 n i (c1 # s1) =
     (if c1 = 0 then Some None
      else if c1 \<noteq> c2 then strstrn_loop c2 s2 n (Suc i) s1
      else case strncmp s1 s2 n of
          None \<Rightarrow> None
        | Some r \<Rightarrow> if r \<noteq> 0 then strstrn_loop c2 s2 n (Suc i) s1 else Some (Some i))"

definition ngx_strstrn :: "byte list \<Rightarrow> byte list \<Rightarrow> nat \<Rightarrow> nat option option" where
  "ngx_strstrn s1 s2 n = (case s2 of [] \<Rightarrow> None | c2 # s2 \<Rightarrow> strstrn_loop c2 s2 n 0 s1)"

fun strcasestrn_loop :: "byte \<Rightarrow> byte list \<Rightarrow> nat \<Rightarrow> nat \<Rightarrow> byte list \<Rightarrow> nat option option" where
  "strcasestrn_loop c2 s2 n i [] = None"
| "strcasestrn_loop c2 s2 n i (c1 # s1) =
     (if c1 = 0 then Some None
      else if lower c1 \<noteq> c2 then strcasestrn_loop c2 s2 n (Suc i) s1
      else case ngx_strncasecmp s1 s2 n of
          None \<Rightarrow> None
        | Some r \<Rightarrow> if r \<noteq> 0 then strcasestrn_loop c2 s2 n (Suc i) s1 else Some (Some i))"

definition ngx_strcasestrn :: "byte list \<Rightarrow> byte list \<Rightarrow> nat \<Rightarrow> nat option option" where
  "ngx_strcasestrn s1 s2 n = (case s2 of [] \<Rightarrow> None | c2 # s2 \<Rightarrow> strcasestrn_loop (lower c2) s2 n 0 s1)"

text \<open>\<open>lst\<close> (\<open>last\<close>) counts from \<open>s1\<close>; \<open>last -= n\<close> may pass it.\<close>

fun strlcasestrn_loop :: "byte \<Rightarrow> byte list \<Rightarrow> nat \<Rightarrow> nat \<Rightarrow> byte list \<Rightarrow> nat \<Rightarrow> nat option option" where
  "strlcasestrn_loop c2 s2 n i s1 0 = Some None"
| "strlcasestrn_loop c2 s2 n i [] (Suc len) = None"
| "strlcasestrn_loop c2 s2 n i (c1 # s1) (Suc len) =
     (if lower c1 \<noteq> c2 then strlcasestrn_loop c2 s2 n (Suc i) s1 len
      else case ngx_strncasecmp s1 s2 n of
          None \<Rightarrow> None
        | Some r \<Rightarrow> if r \<noteq> 0 then strlcasestrn_loop c2 s2 n (Suc i) s1 len else Some (Some i))"

definition ngx_strlcasestrn :: "byte list \<Rightarrow> nat \<Rightarrow> byte list \<Rightarrow> nat \<Rightarrow> nat option option" where
  "ngx_strlcasestrn s1 lst s2 n =
     (case s2 of [] \<Rightarrow> None | c2 # s2 \<Rightarrow> strlcasestrn_loop (lower c2) s2 n 0 s1 (lst - n))"

section \<open>ngx_sort\<close>

text \<open>
  The array is a list; \<open>p\<close> is the copy of the element that is inserted. The inner loop moves the
  elements in front of it up as long as they compare greater.
\<close>

fun sort_shift :: "('a \<Rightarrow> 'a \<Rightarrow> int) \<Rightarrow> 'a \<Rightarrow> 'a list \<Rightarrow> nat \<Rightarrow> 'a list" where
  "sort_shift cmp p xs 0 = xs[0 := p]"
| "sort_shift cmp p xs (Suc p2) =
     (if cmp (xs ! p2) p > 0 then sort_shift cmp p (xs[Suc p2 := xs ! p2]) p2 else xs[Suc p2 := p])"

lemma length_sort_shift [simp]: "length (sort_shift cmp p xs p2) = length xs"
  by (induction p2 arbitrary: xs) simp_all

function sort_loop :: "('a \<Rightarrow> 'a \<Rightarrow> int) \<Rightarrow> 'a list \<Rightarrow> nat \<Rightarrow> 'a list" where
  "sort_loop cmp xs p1 =
     (if p1 < length xs then sort_loop cmp (sort_shift cmp (xs ! p1) xs p1) (Suc p1) else xs)"
  by pat_completeness auto
termination
  by (relation "measure (\<lambda>(cmp, xs, p1). length xs - p1)") auto

declare sort_loop.simps [simp del]

definition ngx_sort :: "('a \<Rightarrow> 'a \<Rightarrow> int) \<Rightarrow> 'a list \<Rightarrow> 'a list" where
  "ngx_sort cmp xs = sort_loop cmp xs 1"

text \<open>The two bits of a listening address that \<open>ngx_http_cmp_conf_addrs\<close> looks at, and its name.\<close>

record conf_addr =
  ca_wildcard :: bool
  ca_bind :: bool
  ca_name :: nat

definition ngx_http_cmp_conf_addrs :: "conf_addr \<Rightarrow> conf_addr \<Rightarrow> int" where
  "ngx_http_cmp_conf_addrs first second =
     (if ca_wildcard first then 1
      else if ca_wildcard second then -1
      else if ca_bind first \<and> \<not> ca_bind second then -1
      else if \<not> ca_bind first \<and> ca_bind second then 1
      else 0)"

text \<open>\<open>ngx_http_cmp_dns_wildcards\<close> on two null-terminated names.\<close>

definition ngx_http_cmp_dns_wildcards :: "byte list \<Rightarrow> byte list \<Rightarrow> int option" where
  "ngx_http_cmp_dns_wildcards first second = ngx_dns_strcmp first second"

subsection \<open>Insertion\<close>

text \<open>Insert from the right: behind the last element that is not greater.\<close>

definition insert_right :: "('a \<Rightarrow> 'a \<Rightarrow> int) \<Rightarrow> 'a \<Rightarrow> 'a list \<Rightarrow> 'a list" where
  "insert_right cmp p xs =
     rev (takeWhile (\<lambda>x. cmp x p > 0) (rev xs) @ p # dropWhile (\<lambda>x. cmp x p > 0) (rev xs))"

lemma insert_right_snoc:
  "insert_right cmp p [] = [p]"
  "insert_right cmp p (xs @ [x]) = (if cmp x p > 0 then insert_right cmp p xs @ [x] else xs @ [x, p])"
  by (simp_all add: insert_right_def)

lemma length_insert_right [simp]: "length (insert_right cmp p xs) = Suc (length xs)"
  by (induction xs rule: rev_induct) (simp_all add: insert_right_snoc)

lemma sort_shift_insert:
  "sort_shift cmp p (as @ q # bs) (length as) = insert_right cmp p as @ bs"
proof (induction as arbitrary: q bs rule: rev_induct)
  case (snoc a as)
  show ?case
  proof (cases "cmp a p > 0")
    case True
    then have "sort_shift cmp p ((as @ [a]) @ q # bs) (length (as @ [a])) =
        sort_shift cmp p (as @ a # a # bs) (length as)"
      by (simp add: nth_append list_update_append)
    with True show ?thesis by (simp only: snoc.IH) (simp add: insert_right_snoc)
  qed (simp add: insert_right_snoc nth_append list_update_append)
qed (simp add: insert_right_snoc)

lemma sort_loop_insert: "sort_loop cmp (as @ bs) (length as) = fold (insert_right cmp) bs as"
proof (induction bs arbitrary: as)
  case (Cons b bs)
  have "sort_loop cmp (as @ b # bs) (length as) =
      sort_loop cmp (insert_right cmp b as @ bs) (length (insert_right cmp b as))"
  proof -
    have "(as @ b # bs) ! length as = b" by simp
    then show ?thesis
      by (subst sort_loop.simps) (simp only: sort_shift_insert, simp)
  qed
  with Cons.IH [of "insert_right cmp b as"] show ?case by simp
qed (simp add: sort_loop.simps)

text \<open>
  If the comparison of an element with a later one tells whether its rank is greater, the
  result is the stable sort by rank.
\<close>

lemma insert_right_rank:
  assumes "\<forall>x \<in> set as. cmp x p > 0 \<longleftrightarrow> rank p < rank x" "sorted (map rank as)"
  shows "mset (insert_right cmp p as) = add_mset p (mset as) \<and> sorted (map rank (insert_right cmp p as)) \<and>
    filter (\<lambda>x. rank x = k) (insert_right cmp p as) = filter (\<lambda>x. rank x = k) (as @ [p])"
  using assms
proof (induction as rule: rev_induct)
  case (snoc a as)
  then have IH: "mset (insert_right cmp p as) = add_mset p (mset as)" "sorted (map rank (insert_right cmp p as))"
    "filter (\<lambda>x. rank x = k) (insert_right cmp p as) = filter (\<lambda>x. rank x = k) (as @ [p])"
    by (auto simp: sorted_append)
  show ?case
  proof (cases "cmp a p > 0")
    case True
    then have "rank p < rank a" using snoc.prems by simp
    moreover have "set (insert_right cmp p as) = insert p (set as)" by (metis IH(1) set_mset_add_mset_insert set_mset_mset)
    ultimately show ?thesis
      using True IH snoc.prems by (auto simp: insert_right_snoc sorted_append)
  next
    case False
    with snoc.prems show ?thesis by (auto simp: insert_right_snoc sorted_append)
  qed
qed (simp add: insert_right_snoc)

lemma fold_insert_rank:
  assumes "sorted_wrt (\<lambda>x y. cmp x y > 0 \<longleftrightarrow> rank y < rank x) bs" "\<forall>x \<in> set as. \<forall>y \<in> set bs. cmp x y > 0 \<longleftrightarrow> rank y < rank x"
    and "sorted (map rank as)"
  shows "mset (fold (insert_right cmp) bs as) = mset as + mset bs \<and> sorted (map rank (fold (insert_right cmp) bs as)) \<and>
    filter (\<lambda>x. rank x = k) (fold (insert_right cmp) bs as) = filter (\<lambda>x. rank x = k) (as @ bs)"
  using assms
proof (induction bs arbitrary: as)
  case (Cons b bs)
  have ins: "mset (insert_right cmp b as) = add_mset b (mset as)" "sorted (map rank (insert_right cmp b as))"
    "filter (\<lambda>x. rank x = k) (insert_right cmp b as) = filter (\<lambda>x. rank x = k) (as @ [b])"
    using insert_right_rank [of as cmp b rank k] Cons.prems by simp_all
  have set: "set (insert_right cmp b as) = insert b (set as)" by (metis ins(1) set_mset_add_mset_insert set_mset_mset)
  have "sorted_wrt (\<lambda>x y. cmp x y > 0 \<longleftrightarrow> rank y < rank x) bs"
    "\<forall>x \<in> set (insert_right cmp b as). \<forall>y \<in> set bs. cmp x y > 0 \<longleftrightarrow> rank y < rank x"
    using Cons.prems(1,2) set by auto
  from Cons.IH [OF this ins(2)] ins show ?case by simp
qed simp

lemma ngx_sort_rank:
  assumes "sorted_wrt (\<lambda>x y. cmp x y > 0 \<longleftrightarrow> rank y < rank x) xs"
  shows "ngx_sort cmp xs = sort_key rank xs"
proof (cases xs)
  case Nil
  then show ?thesis by (simp add: ngx_sort_def sort_loop.simps)
next
  case (Cons x xs')
  then have eq: "ngx_sort cmp xs = fold (insert_right cmp) xs' [x]"
    using sort_loop_insert [of cmp "[x]" xs'] by (simp add: ngx_sort_def)
  have f: "mset (fold (insert_right cmp) xs' [x]) = mset xs \<and> sorted (map rank (fold (insert_right cmp) xs' [x])) \<and>
      filter (\<lambda>y. rank y = k) (fold (insert_right cmp) xs' [x]) = filter (\<lambda>y. rank y = k) xs" for k
    using fold_insert_rank [of cmp rank xs' "[x]" k] assms Cons by simp
  show ?thesis
    unfolding eq
    by (rule sym, rule properties_for_sort_key) (use f in \<open>auto simp: eq_commute\<close>)
qed

section \<open>What is proved\<close>

subsection \<open>Sorting the addresses of a port\<close>

definition addr_rank :: "conf_addr \<Rightarrow> nat" where
  "addr_rank a = (if ca_wildcard a then 2 else if ca_bind a then 0 else 1)"

text \<open>
  Claim C36. The addresses of a port: those bound explicitly come first, the wildcard last, and
  addresses of the same kind stay in the order of the configuration. This needs that there is
  one wildcard at most, as the comparison of two of them is not antisymmetric.
\<close>
theorem ngx_sort_conf_addrs:
  assumes "length (filter ca_wildcard xs) \<le> 1"
  shows "ngx_sort ngx_http_cmp_conf_addrs xs = sort_key addr_rank xs"
proof (rule ngx_sort_rank)
  show "sorted_wrt (\<lambda>x y. ngx_http_cmp_conf_addrs x y > 0 \<longleftrightarrow> addr_rank y < addr_rank x) xs"
    using assms
  proof (induction xs)
    case (Cons x xs)
    have "\<forall>y \<in> set xs. ngx_http_cmp_conf_addrs x y > 0 \<longleftrightarrow> addr_rank y < addr_rank x"
    proof
      fix y assume "y \<in> set xs"
      with Cons.prems have "\<not> (ca_wildcard x \<and> ca_wildcard y)" by (auto simp: filter_empty_conv)
      then show "ngx_http_cmp_conf_addrs x y > 0 \<longleftrightarrow> addr_rank y < addr_rank x"
        by (auto simp: ngx_http_cmp_conf_addrs_def addr_rank_def)
    qed
    moreover have "length (filter ca_wildcard xs) \<le> 1" using Cons.prems by (simp split: if_splits)
    ultimately show ?case using Cons.IH by simp
  qed simp
qed

theorem ngx_sort_conf_addrs_witness:
  "ngx_sort ngx_http_cmp_conf_addrs
     [\<lparr>ca_wildcard = True, ca_bind = True, ca_name = 1\<rparr>, \<lparr>ca_wildcard = False, ca_bind = False, ca_name = 2\<rparr>,
      \<lparr>ca_wildcard = False, ca_bind = True, ca_name = 3\<rparr>, \<lparr>ca_wildcard = False, ca_bind = False, ca_name = 4\<rparr>] =
     [\<lparr>ca_wildcard = False, ca_bind = True, ca_name = 3\<rparr>, \<lparr>ca_wildcard = False, ca_bind = False, ca_name = 2\<rparr>,
      \<lparr>ca_wildcard = False, ca_bind = False, ca_name = 4\<rparr>, \<lparr>ca_wildcard = True, ca_bind = True, ca_name = 1\<rparr>]"
  by (subst ngx_sort_conf_addrs) (simp_all add: addr_rank_def)

subsection \<open>Orders on strings\<close>

text \<open>
  What a comparison promises: its sign is that of the keys in a linear order. Then sorting with
  it is the stable sort by key, and two strings compare equal exactly if their keys are equal.
\<close>

locale three_way =
  fixes cmp :: "'a \<Rightarrow> 'a \<Rightarrow> int" and key :: "'a \<Rightarrow> 'k :: linorder"
  assumes neg: "cmp x y < 0 \<longleftrightarrow> key x < key y"
    and zero: "cmp x y = 0 \<longleftrightarrow> key x = key y"
begin

lemma pos: "cmp x y > 0 \<longleftrightarrow> key y < key x"
  using neg [of x y] zero [of x y] by (metis linorder_cases not_less_iff_gr_or_eq)

lemma antisym_sign: "cmp x y > 0 \<longleftrightarrow> cmp y x < 0"
  by (simp add: pos neg)

lemma sorts: "ngx_sort cmp xs = sort_key key xs"
  by (rule ngx_sort_rank) (simp add: pos sorted_wrt_true)

lemma sort_idem: "ngx_sort cmp (ngx_sort cmp xs) = ngx_sort cmp xs"
  by (simp add: sorts sorted_sort_id sort_key_id_if_sorted)

end

lemma uint_diff: "uint (a :: byte) - uint b < 0 \<longleftrightarrow> a < b" "uint a - uint b = 0 \<longleftrightarrow> a = b"
  by (simp_all add: word_less_def word_uint_eq_iff)

lemma lower_0 [simp]: "lower c = 0 \<longleftrightarrow> c = 0"
proof -
  have "list_all (\<lambda>c. lower c = 0 \<longleftrightarrow> c = 0) (map of_nat [0..<256])" by code_simp
  from all_bytesI [OF this] show ?thesis .
qed

lemma lower_NUL [simp]: "lower 0 = 0"
  by simp

lemma byte_pos: "(0 :: byte) < c \<longleftrightarrow> c \<noteq> 0"
  by (simp add: word_gt_0)

text \<open>The C string at the start of the memory, its bytes in lower case, and as \<open>ngx_filename_cmp\<close> sorts them.\<close>

definition c_str :: "byte list \<Rightarrow> byte list" where
  "c_str s = takeWhile (\<lambda>c. c \<noteq> NUL) s"

definition path_key :: "byte \<Rightarrow> byte" where
  "path_key c = (if c = asc CHR ''/'' then 0 else c)"

lemma c_str_simps [simp]: "c_str [] = []" "c_str (c # s) = (if c = NUL then [] else c # c_str s)"
  by (simp_all add: c_str_def)

lemma strcasecmp_order:
  "\<exists>d. ngx_strcasecmp (s @ [NUL]) (t @ [NUL]) = Some d \<and>
     (d < 0 \<longleftrightarrow> map lower (c_str s) < map lower (c_str t)) \<and> (d = 0 \<longleftrightarrow> map lower (c_str s) = map lower (c_str t))"
proof (induction s arbitrary: t)
  case Nil
  then show ?case using uint_diff [of 0 "lower (hd t)"]
    by (cases t) (auto simp: Let_def byte_pos)
next
  case (Cons a s)
  show ?case
  proof (cases t)
    case Nil
    then show ?thesis using uint_diff [of "lower a" 0] by (auto simp: Let_def)
  next
    case t: (Cons b t')
    show ?thesis
    proof (cases "lower a = lower b")
      case True
      then have "a = 0 \<longleftrightarrow> b = 0" using lower_0 by metis
      with True Cons.IH [of t'] show ?thesis by (auto simp: t Let_def)
    next
      case False
      then show ?thesis using uint_diff [of "lower a" "lower b"] lower_0 [of a] lower_0 [of b]
        by (auto simp: t Let_def byte_pos)
    qed
  qed
qed

lemma filename_cmp_order:
  "length s < n \<Longrightarrow> length t < n \<Longrightarrow> \<exists>d. ngx_filename_cmp (s @ [NUL]) (t @ [NUL]) n = Some d \<and>
     (d < 0 \<longleftrightarrow> map path_key (c_str s) < map path_key (c_str t)) \<and> (d = 0 \<longleftrightarrow> c_str s = c_str t)"
proof (induction s arbitrary: t n)
  case Nil
  then obtain m where "n = Suc m" by (cases n) auto
  then show ?case using uint_diff [of 0 "hd t"] by (cases t) (auto simp: byte_pos)
next
  case (Cons a s)
  then obtain m where m: "n = Suc m" by (cases n) auto
  show ?case
  proof (cases t)
    case Nil
    then show ?thesis using m uint_diff [of a 0] by auto
  next
    case t: (Cons b t')
    show ?thesis
    proof (cases "a = b")
      case True
      with Cons.IH [of m t'] Cons.prems show ?thesis by (auto simp: t m)
    next
      case False
      then show ?thesis
        using uint_diff [of a b] uint_diff [of "path_key a" "path_key b"] uint_ge_0 [of a] uint_ge_0 [of b]
        by (auto simp: t m Let_def byte_pos path_key_def word_uint_eq_iff split: if_splits)
          (metis less_le uint_ge_0)
    qed
  qed
qed

lemma memcmp_order:
  "length s = n \<Longrightarrow> length t = n \<Longrightarrow> \<exists>d. memcmp (s @ x) (t @ y) n = Some d \<and> (d < 0 \<longleftrightarrow> s < t) \<and> (d = 0 \<longleftrightarrow> s = t)"
proof (induction n arbitrary: s t)
  case (Suc n)
  then obtain a s' b t' where "s = a # s'" "t = b # t'" "length s' = n" "length t' = n"
    by (metis length_Suc_conv)
  with Suc.IH [of s' t'] uint_diff [of a b] show ?case by auto
qed simp

definition strcasecmp_sign :: "byte list \<Rightarrow> byte list \<Rightarrow> int" where
  "strcasecmp_sign s t = the (ngx_strcasecmp (s @ [NUL]) (t @ [NUL]))"

definition filename_cmp_sign :: "byte list \<Rightarrow> byte list \<Rightarrow> int" where
  "filename_cmp_sign s t = the (ngx_filename_cmp (s @ [NUL]) (t @ [NUL]) (Suc (length s + length t)))"

definition memn2cmp_sign :: "byte list \<Rightarrow> byte list \<Rightarrow> int" where
  "memn2cmp_sign s t = the (ngx_memn2cmp s t (length s) (length t))"

lemma path_key_inj: "NUL \<notin> set s \<Longrightarrow> NUL \<notin> set t \<Longrightarrow> map path_key s = map path_key t \<longleftrightarrow> s = t"
proof (induction s arbitrary: t)
  case (Cons a s)
  then show ?case by (cases t) (auto simp: path_key_def split: if_splits)
qed auto

lemma c_str_NUL [simp]: "NUL \<notin> set (c_str s)"
  unfolding c_str_def by (metis (mono_tags, lifting) set_takeWhileD)

interpretation caseless: three_way strcasecmp_sign "\<lambda>s. map lower (c_str s)"
proof
  fix s t
  show "strcasecmp_sign s t < 0 \<longleftrightarrow> map lower (c_str s) < map lower (c_str t)"
    and "strcasecmp_sign s t = 0 \<longleftrightarrow> map lower (c_str s) = map lower (c_str t)"
    using strcasecmp_order [of s t] by (auto simp: strcasecmp_sign_def)
qed

interpretation filename: three_way filename_cmp_sign "\<lambda>s. map path_key (c_str s)"
proof
  fix s t
  show "filename_cmp_sign s t < 0 \<longleftrightarrow> map path_key (c_str s) < map path_key (c_str t)"
    and "filename_cmp_sign s t = 0 \<longleftrightarrow> map path_key (c_str s) = map path_key (c_str t)"
    using filename_cmp_order [of s "Suc (length s + length t)" t] path_key_inj [of "c_str s" "c_str t"]
    by (auto simp: filename_cmp_sign_def)
qed

lemma lex_take:
  assumes "length t = n" "n < length (s :: byte list)"
  shows "s < t \<longleftrightarrow> take n s < t" and "t < s \<longleftrightarrow> t \<le> take n s"
  using assms
proof (induction t arbitrary: s n)
  case (Cons b t)
  { case 1 with Cons show ?case by (cases s; cases n) auto }
  { case 2 with Cons show ?case by (cases s; cases n) auto }
next
  case Nil
  { case 1 then show ?case by simp }
  { case 2 then show ?case by (cases s) simp_all }
qed

lemma memn2cmp_order:
  "\<exists>d. ngx_memn2cmp s t (length s) (length t) = Some d \<and> (d < 0 \<longleftrightarrow> s < t) \<and> (d = 0 \<longleftrightarrow> s = t)"
proof -
  let ?n = "min (length s) (length t)"
  obtain d where d: "memcmp s t ?n = Some d" "d < 0 \<longleftrightarrow> take ?n s < take ?n t" "d = 0 \<longleftrightarrow> take ?n s = take ?n t"
    using memcmp_order [of "take ?n s" ?n "take ?n t" "drop ?n s" "drop ?n t"] by auto
  consider "length s = length t" | "length s < length t" | "length t < length s" by linarith
  then show ?thesis
  proof cases
    case 1
    with d show ?thesis by (auto simp: ngx_memn2cmp_def Let_def)
  next
    case 2
    with d lex_take [of s "length s" t] show ?thesis
      by (auto simp: ngx_memn2cmp_def Let_def min_absorb1 order.order_iff_strict)
  next
    case 3
    with d lex_take [of t "length t" s] show ?thesis
      by (auto simp: ngx_memn2cmp_def Let_def min_absorb2)
  qed
qed

interpretation memn2: three_way memn2cmp_sign "\<lambda>s. s"
proof
  fix s t
  show "memn2cmp_sign s t < 0 \<longleftrightarrow> s < t" and "memn2cmp_sign s t = 0 \<longleftrightarrow> s = t"
    using memn2cmp_order [of s t] by (auto simp: memn2cmp_sign_def)
qed

end
