(* ===== verification/HttpArgs.thy ===== *)
theory HttpArgs
  imports NgxStr
begin

unbundle bit_operations_syntax

text \<open>
  The functions of src/http/ngx_http_parse.c that look something up: \<open>ngx_http_arg\<close>,
  \<open>ngx_http_split_args\<close> and \<open>ngx_http_parse_multi_header_lines\<close>. Results that are pointers into a
  string are given as the bytes they delimit.
\<close>

section \<open>Arguments\<close>

text \<open>\<open>ngx_strlchr\<close> of src/core/ngx_string.h, from \<open>p\<close> to the end; \<open>i\<close> is the offset of \<open>p\<close>.\<close>

fun ngx_strlchr :: "byte list \<Rightarrow> byte \<Rightarrow> nat \<Rightarrow> nat option" where
  "ngx_strlchr [] c i = None"
| "ngx_strlchr (x # p) c i = (if x = c then Some i else ngx_strlchr p c (Suc i))"

definition ngx_http_split_args :: "byte list \<Rightarrow> byte list \<times> byte list" where
  "ngx_http_split_args uri =
     (case ngx_strlchr uri (asc CHR ''?'') 0 of
        Some p \<Rightarrow> (take p uri, drop (p + 1) uri)
      | None \<Rightarrow> (uri, []))"

text \<open>
  \<open>ngx_http_arg\<close>: \<open>Some None\<close> is \<open>NGX_DECLINED\<close>, \<open>Some (Some v)\<close> the value. \<open>None\<close> is a read outside
  the arguments or a value of negative length. An empty name, for which \<open>len - 1\<close> wraps, is
  outside the model.
\<close>

function arg_loop :: "byte list \<Rightarrow> byte list \<Rightarrow> nat \<Rightarrow> byte list option option" where
  "arg_loop args name p =
     (if p < length args then
        (case ngx_strlcasestrn (drop p args) (length args - 1 - p) name (length name - 1) of
           None \<Rightarrow> None
         | Some None \<Rightarrow> Some None
         | Some (Some i) \<Rightarrow>
             (let p = p + i in
              case rd args (p + length name) of
                None \<Rightarrow> None
              | Some c \<Rightarrow>
                  if (p = 0 \<or> args ! (p - 1) = asc CHR ''&'') \<and> c = asc CHR ''='' then
                    (let v = p + length name + 1;
                         e = (case ngx_strlchr (drop p args) (asc CHR ''&'') p of None \<Rightarrow> length args | Some e \<Rightarrow> e)
                     in if e < v then None else Some (Some (seg v e args)))
                  else arg_loop args name (Suc p)))
      else Some None)"
  by pat_completeness auto
termination
  by (relation "measure (\<lambda>(args, name, p). length args - p)") (auto simp: rd_def split: if_splits)

declare arg_loop.simps [simp del]

definition ngx_http_arg :: "byte list \<Rightarrow> byte list \<Rightarrow> byte list option option" where
  "ngx_http_arg args name =
     (if args = [] then Some None else if name = [] then None else arg_loop args name 0)"

subsection \<open>Search\<close>

definition folded_at :: "byte list \<Rightarrow> byte list \<Rightarrow> nat \<Rightarrow> bool" where
  "folded_at s name p \<longleftrightarrow> map lower (take (length name) (drop p s)) = map lower name"

lemma strncasecmp_zero:
  "n \<le> length s1 \<Longrightarrow> length s2 = n \<Longrightarrow> NUL \<notin> set s2 \<Longrightarrow>
     \<exists>d. ngx_strncasecmp s1 s2 n = Some d \<and> (d = 0 \<longleftrightarrow> map lower (take n s1) = map lower s2)"
proof (induction s1 s2 n rule: ngx_strncasecmp.induct)
  case (2 a s1 b s2 n)
  have "lower a = lower b \<Longrightarrow> a \<noteq> NUL" using lower_0 [of a] lower_0 [of b] 2 by auto
  with 2 show ?case using uint_diff [of "lower a" "lower b"] by (auto simp: Let_def)
qed auto

lemma find_upt_Suc: "find P [0..<Suc k] = (if P 0 then Some 0 else map_option Suc (find (\<lambda>p. P (Suc p)) [0..<k]))"
proof -
  have "find P (map Suc xs) = map_option Suc (find (\<lambda>p. P (Suc p)) xs)" for xs
    by (induction xs) simp_all
  then show ?thesis by (simp add: upt_conv_Cons map_Suc_upt [symmetric] del: upt_Suc)
qed

lemma find_upt_skip:
  "\<forall>p < m. \<not> P p \<Longrightarrow> m \<le> n \<Longrightarrow> find P [0..<n] = map_option ((+) m) (find (\<lambda>p. P (m + p)) [0..<n - m])"
proof (induction m arbitrary: n P)
  case (Suc m)
  then obtain k where "n = Suc k" "m \<le> k" by (cases n) auto
  with Suc.IH [of "\<lambda>p. P (Suc p)" k] Suc.prems(1) show ?case
    by (simp add: find_upt_Suc option.map_comp o_def del: upt_Suc)
qed (simp add: option.map_ident_strong)

lemma strlcasestrn_first:
  "length s2 = n \<Longrightarrow> NUL \<notin> set s2 \<Longrightarrow> k + n \<le> length s1 \<Longrightarrow>
   strlcasestrn_loop (lower c2) s2 n i s1 k = Some (map_option ((+) i) (find (folded_at s1 (c2 # s2)) [0..<k]))"
proof (induction "lower c2" s2 n i s1 k rule: strlcasestrn_loop.induct)
  case (3 s2 n i c1 s1 k)
  have zero: "\<exists>d. ngx_strncasecmp s1 s2 n = Some d \<and> (d = 0 \<longleftrightarrow> map lower (take n s1) = map lower s2)"
    by (rule strncasecmp_zero) (use 3 in simp_all)
  have at: "folded_at (c1 # s1) (c2 # s2) (Suc p) = folded_at s1 (c2 # s2) p"
    "folded_at (c1 # s1) (c2 # s2) 0 \<longleftrightarrow> lower c1 = lower c2 \<and> map lower (take n s1) = map lower s2" for p
    using 3 by (simp_all add: folded_at_def)
  have shift: "map_option ((+) (Suc i)) x = map_option ((+) i) (map_option Suc x)" for x
    by (cases x) simp_all
  show ?case
    using 3 zero by (auto simp: find_upt_Suc at shift simp del: upt_Suc)
qed (simp_all add: find_upt_Suc)

lemma ngx_strlcasestrn_first:
  assumes "name \<noteq> []" "NUL \<notin> set name" "lst \<le> length s1"
  shows "ngx_strlcasestrn s1 lst name (length name - 1) =
    Some (find (folded_at s1 name) [0..<Suc lst - length name])"
proof -
  obtain c2 s2 where "name = c2 # s2" using assms(1) by (cases name) auto
  with assms strlcasestrn_first [of s2 "length s2" "lst - length s2" s1 c2 0] show ?thesis
    by (cases "length s2 \<le> lst") (simp_all add: ngx_strlcasestrn_def option.map_ident_strong)
qed

subsection \<open>The lookup by segments\<close>

text \<open>The arguments cut at each ampersand, and when one of them has the name.\<close>

fun split_amp :: "byte list \<Rightarrow> byte list list" where
  "split_amp [] = [[]]"
| "split_amp (c # w) =
     (if c = asc CHR ''&'' then [] # split_amp w
      else case split_amp w of s # ss \<Rightarrow> (c # s) # ss | [] \<Rightarrow> [[c]])"

definition arg_named :: "byte list \<Rightarrow> byte list \<Rightarrow> bool" where
  "arg_named name s \<longleftrightarrow> length name < length s \<and> folded_at s name 0 \<and> s ! length name = asc CHR ''=''"

definition arg_ok :: "byte list \<Rightarrow> byte list \<Rightarrow> nat \<Rightarrow> bool" where
  "arg_ok args name p \<longleftrightarrow> (p = 0 \<or> args ! (p - 1) = asc CHR ''&'') \<and> p + length name < length args \<and>
     folded_at args name p \<and> args ! (p + length name) = asc CHR ''=''"

definition arg_value :: "byte list \<Rightarrow> byte list \<Rightarrow> nat \<Rightarrow> byte list" where
  "arg_value args name p = takeWhile (\<lambda>c. c \<noteq> asc CHR ''&'') (drop (p + length name + 1) args)"

lemma split_amp_ne [simp]: "split_amp w \<noteq> []"
  by (cases w) (auto split: list.splits)

lemma split_amp_append: "asc CHR ''&'' \<notin> set s \<Longrightarrow> split_amp (s @ asc CHR ''&'' # w) = s # split_amp w"
  by (induction s) auto

lemma split_amp_single: "asc CHR ''&'' \<notin> set s \<Longrightarrow> split_amp s = [s]"
  by (induction s) auto

lemma takeWhile_stop:
  "c \<notin> set a \<Longrightarrow> takeWhile (\<lambda>x. x \<noteq> c) a = a" "c \<notin> set a \<Longrightarrow> takeWhile (\<lambda>x. x \<noteq> c) (a @ c # b) = a"
  by (induction a) auto

lemma lower_amp: "lower c = lower (asc CHR ''&'') \<longleftrightarrow> c = asc CHR ''&''"
proof -
  have "list_all (\<lambda>c. lower c = lower (asc CHR ''&'') \<longleftrightarrow> c = asc CHR ''&'') (map of_nat [0..<256])" by code_simp
  from all_bytesI [OF this] show ?thesis .
qed

lemma folded_no_amp:
  assumes "folded_at s name p" "asc CHR ''&'' \<notin> set name"
  shows "asc CHR ''&'' \<notin> set (take (length name) (drop p s))"
proof
  assume "asc CHR ''&'' \<in> set (take (length name) (drop p s))"
  then have "lower (asc CHR ''&'') \<in> lower ` set name"
    using assms(1) unfolding folded_at_def by (metis image_eqI set_map)
  then obtain x where "x \<in> set name" "lower x = lower (asc CHR ''&'')" by (metis imageE)
  with assms(2) lower_amp [of x] show False by metis
qed

lemma arg_ok_first:
  assumes "asc CHR ''&'' \<notin> set s" "asc CHR ''&'' \<notin> set name" "rest = [] \<or> hd rest = asc CHR ''&''"
  shows "arg_ok (s @ rest) name 0 \<longleftrightarrow> arg_named name s"
proof
  assume ok: "arg_ok (s @ rest) name 0"
  have "length name < length s"
  proof (rule ccontr)
    assume "\<not> length name < length s"
    then have le: "length s \<le> length name" by simp
    from ok have r: "rest \<noteq> []" "folded_at (s @ rest) name 0" "(s @ rest) ! length name = asc CHR ''=''"
      "length name < length (s @ rest)" using le by (auto simp: arg_ok_def)
    have "(s @ rest) ! length s = asc CHR ''&''" using r(1) assms(3) by (auto simp: hd_conv_nth nth_append)
    moreover have "length s \<noteq> length name" using r(3) calculation by auto
    ultimately have i: "length s < length (take (length name) (s @ rest))"
        "take (length name) (s @ rest) ! length s = asc CHR ''&''"
      using le r(4) by (auto simp del: take_append)
    then have "asc CHR ''&'' \<in> set (take (length name) (drop 0 (s @ rest)))"
      using nth_mem [OF i(1)] by (simp del: take_append)
    with folded_no_amp [OF r(2) assms(2)] show False by simp
  qed
  with ok show "arg_named name s" by (auto simp: arg_ok_def arg_named_def folded_at_def nth_append)
qed (auto simp: arg_ok_def arg_named_def folded_at_def nth_append)

lemma find_arg_segments:
  "asc CHR ''&'' \<notin> set name \<Longrightarrow>
     map_option (arg_value args name) (find (arg_ok args name) [0..<length args]) =
     map_option (drop (length name + 1)) (find (arg_named name) (split_amp args))"
proof (induction args rule: length_induct)
  case (1 args)
  define s where "s = takeWhile (\<lambda>c. c \<noteq> asc CHR ''&'') args"
  define rest where "rest = dropWhile (\<lambda>c. c \<noteq> asc CHR ''&'') args"
  have args: "args = s @ rest" by (simp add: s_def rest_def)
  have ns: "asc CHR ''&'' \<notin> set s" unfolding s_def by (auto dest: set_takeWhileD)
  have rest: "rest = [] \<or> hd rest = asc CHR ''&''" 
    using hd_dropWhile [of "\<lambda>c. c \<noteq> asc CHR ''&''" args] unfolding rest_def by blast
  note first = arg_ok_first [OF ns "1.prems" rest, folded args]
  have val: "arg_value args name 0 = drop (length name + 1) s" if "arg_named name s"
  proof -
    have "drop (length name + 1) args = drop (length name + 1) s @ rest" using that by (simp add: args arg_named_def)
    moreover have "asc CHR ''&'' \<notin> set (drop (length name + 1) s)" using ns by (meson in_set_dropD)
    ultimately show ?thesis using rest takeWhile_stop
      by (cases rest) (auto simp: arg_value_def)
  qed
  show ?case
  proof (cases "arg_named name s")
    case True
    then have "args \<noteq> []" by (auto simp: args arg_named_def)
    then obtain k where "length args = Suc k" by (cases args) auto
    moreover have "find (arg_named name) (split_amp args) = Some s"
      using True rest split_amp_single [OF ns] split_amp_append [OF ns] by (cases rest) (auto simp: args)
    ultimately show ?thesis using True first val by (simp add: find_upt_Suc del: upt_Suc)
  next
    case False
    have skip: "\<not> arg_ok args name p" if "p \<le> length s" for p
    proof (cases p)
      case 0
      with False first show ?thesis by simp
    next
      case (Suc q)
      with that have "args ! (p - 1) \<in> set s" by (simp add: args nth_append)
      with ns Suc show ?thesis by (auto simp: arg_ok_def)
    qed
    show ?thesis
    proof (cases rest)
      case Nil
      then have "find (arg_ok args name) [0..<length args] = None"
        using skip by (auto simp: find_None_iff args)
      with Nil False split_amp_single [OF ns] show ?thesis by (simp add: args)
    next
      case (Cons c w)
      with rest have a: "args = s @ asc CHR ''&'' # w" by (simp add: args)
      let ?m = "Suc (length s)"
      have sh: "arg_ok args name (?m + p) = arg_ok w name p" "arg_value args name (?m + p) = arg_value w name p" for p
      proof -
        have d: "drop (?m + k) args = drop k w" "args ! (?m + k) = w ! k" for k
          by (simp_all add: a nth_append)
        have z: "args ! length s = asc CHR ''&''" by (simp add: a nth_append)
        have prev: "?m + p = 0 \<or> args ! (?m + p - 1) = asc CHR ''&'' \<longleftrightarrow> p = 0 \<or> w ! (p - 1) = asc CHR ''&''"
        proof (cases p)
          case (Suc q)
          with d(2) [of q] show ?thesis by simp
        qed (use z in simp)
        have "?m + p + length name < length args \<longleftrightarrow> p + length name < length w" by (simp add: a)
        then show "arg_ok args name (?m + p) = arg_ok w name p"
          unfolding arg_ok_def folded_at_def prev d(1) using d(2) [of "p + length name"] by (simp only: add.assoc)
        show "arg_value args name (?m + p) = arg_value w name p"
          using d(1) [of "p + length name + 1"] by (simp only: arg_value_def add.assoc)
      qed
      have "find (arg_ok args name) [0..<length args] = map_option ((+) ?m) (find (arg_ok w name) [0..<length w])"
        using find_upt_skip [of ?m "arg_ok args name" "length args"] skip sh by (simp add: a less_Suc_eq_le)
      then have "map_option (arg_value args name) (find (arg_ok args name) [0..<length args]) =
          map_option (arg_value w name) (find (arg_ok w name) [0..<length w])"
        using sh(2) by (simp add: option.map_comp o_def)
      also have "\<dots> = map_option (drop (length name + 1)) (find (arg_named name) (split_amp w))"
        using "1.IH" "1.prems" a by simp
      finally show ?thesis using False split_amp_append [OF ns, of w] by (simp only: a find.simps if_False)
    qed
  qed
qed

lemma ngx_strlchr_eq:
  "ngx_strlchr w c i = (if c \<in> set w then Some (i + length (takeWhile (\<lambda>x. x \<noteq> c) w)) else None)"
  by (induction w arbitrary: i) auto

lemma arg_value_seg:
  assumes "asc CHR ''&'' \<notin> set name" "arg_ok args name p"
  defines "e \<equiv> (case ngx_strlchr (drop p args) (asc CHR ''&'') p of None \<Rightarrow> length args | Some e \<Rightarrow> e)"
  shows "p + length name + 1 \<le> e \<and> seg (p + length name + 1) e args = arg_value args name p"
proof -
  let ?m = "length name + 1"
  let ?v = "drop (p + ?m) args"
  have ok: "folded_at args name p" "p + length name < length args" "args ! (p + length name) = asc CHR ''=''"
    using assms(2) by (auto simp: arg_ok_def)
  have "take ?m (drop p args) = take (length name) (drop p args) @ [asc CHR ''='']"
    using ok(2,3) by (simp add: take_Suc_conv_app_nth)
  then have d: "drop p args = (take (length name) (drop p args) @ [asc CHR ''='']) @ ?v"
    using append_take_drop_id [of ?m "drop p args"] by (simp only: drop_drop) (simp only: add.commute)
  have na: "asc CHR ''&'' \<notin> set (take (length name) (drop p args) @ [asc CHR ''=''])"
    using folded_no_amp [OF ok(1) assms(1)] by simp
  have len: "length (take (length name) (drop p args) @ [asc CHR ''='']) = ?m" using ok(2) by simp
  have tw: "takeWhile (\<lambda>x. x \<noteq> asc CHR ''&'') (drop p args) =
      (take (length name) (drop p args) @ [asc CHR ''='']) @ takeWhile (\<lambda>x. x \<noteq> asc CHR ''&'') ?v"
    by (subst d, rule takeWhile_append2) (use na in blast)
  have amp: "asc CHR ''&'' \<in> set (drop p args) \<longleftrightarrow> asc CHR ''&'' \<in> set ?v"
    using na by (subst d) (simp only: set_append Un_iff simp_thms)
  show ?thesis
  proof (cases "asc CHR ''&'' \<in> set ?v")
    case True
    then have "e = p + length (takeWhile (\<lambda>x. x \<noteq> asc CHR ''&'') (drop p args))"
      using amp by (simp only: e_def ngx_strlchr_eq if_True option.case)
    also have "\<dots> = p + ?m + length (takeWhile (\<lambda>x. x \<noteq> asc CHR ''&'') ?v)"
      unfolding tw length_append [of "_ @ _"] len by simp
    finally show ?thesis by (simp add: seg_def arg_value_def takeWhile_eq_take [symmetric])
  next
    case False
    then have "e = length args" using amp by (simp only: e_def ngx_strlchr_eq if_False option.case)
    have "takeWhile (\<lambda>x. x \<noteq> asc CHR ''&'') ?v = ?v"
      by (rule takeWhile_stop(1) [OF False])
    then have "arg_value args name p = ?v" by (simp only: arg_value_def add.assoc)
    with \<open>e = length args\<close> ok(2) show ?thesis by (simp add: seg_def)
  qed
qed

lemma arg_loop_find:
  assumes "name \<noteq> []" "NUL \<notin> set name" "asc CHR ''&'' \<notin> set name"
  shows "\<forall>q < p. \<not> arg_ok args name q \<Longrightarrow>
    arg_loop args name p = Some (map_option (arg_value args name) (find (arg_ok args name) [0..<length args]))"
proof (induction "length args - p" arbitrary: p rule: less_induct)
  case less
  show ?case
  proof (cases "p < length args")
    case False
    with less.prems have "find (arg_ok args name) [0..<length args] = None"
      by (simp add: find_None_iff)
    with False show ?thesis by (simp add: arg_loop.simps [of args name p])
  next
    case True
    have look: "ngx_strlcasestrn (drop p args) (length args - 1 - p) name (length name - 1) =
        Some (find (folded_at (drop p args) name) [0..<length args - p - length name])"
      using ngx_strlcasestrn_first [OF assms(1,2), of "length args - 1 - p" "drop p args"] True by simp
    have at: "folded_at (drop p args) name i = folded_at args name (p + i)" for i
      by (simp add: folded_at_def add.commute)
    show ?thesis
    proof (cases "find (folded_at (drop p args) name) [0..<length args - p - length name]")
      case None
      have "\<not> arg_ok args name q" for q
      proof (cases "q < p")
        case False
        show ?thesis
        proof
          assume ok: "arg_ok args name q"
          then have "q - p < length args - p - length name" using False by (simp add: arg_ok_def) linarith
          with None have "\<not> folded_at args name (p + (q - p))"
            unfolding at [symmetric] by (auto simp: find_None_iff)
          with False ok show False by (simp add: arg_ok_def)
        qed
      qed (use less.prems in simp)
      then have "find (arg_ok args name) [0..<length args] = None" by (simp add: find_None_iff)
      with True look None show ?thesis by (simp add: arg_loop.simps [of args name p])
    next
      case (Some i)
      then have i: "i < length args - p - length name" "folded_at args name (p + i)"
        "\<forall>j < i. \<not> folded_at args name (p + j)"
        unfolding at [symmetric] by (auto simp: find_Some_iff)
      have skip: "\<forall>q < p + i. \<not> arg_ok args name q"
      proof (intro allI impI)
        fix q assume "q < p + i"
        then consider "q < p" | "p \<le> q" "q - p < i" by linarith
        then show "\<not> arg_ok args name q"
        proof cases
          case 2
          with i(3) have "\<not> folded_at args name (p + (q - p))" by blast
          with 2 show ?thesis by (simp add: arg_ok_def)
        qed (use less.prems in simp)
      qed
      have rd: "rd args (p + i + length name) = Some (args ! (p + i + length name))"
        using i(1) by (simp add: rd_def)
      show ?thesis
      proof (cases "arg_ok args name (p + i)")
        case True
        have "find (arg_ok args name) [0..<length args] = Some (p + i)"
          using True skip i(1) by (auto simp: find_Some_iff intro!: exI [of _ "p + i"])
        with True arg_value_seg [OF assms(3) True] look Some rd \<open>p < length args\<close> show ?thesis
          by (simp add: arg_loop.simps [of args name p] Let_def arg_ok_def not_less)
      next
        case False
        then have "arg_loop args name p = arg_loop args name (Suc (p + i))"
          using look Some rd i \<open>p < length args\<close>
          by (auto simp: arg_loop.simps [of args name p] Let_def arg_ok_def)
        moreover have "\<forall>q < Suc (p + i). \<not> arg_ok args name q" using skip False by (simp add: less_Suc_eq)
        ultimately show ?thesis using less.hyps [of "Suc (p + i)"] i(1) by simp
      qed
    qed
  qed
qed

text \<open>
  Claim C34. The search for a name in the arguments, which compares at every place where it occurs,
  is the lookup in the list of the arguments cut at the ampersands: the first that has the name,
  in any case of its letters, gives the value; there is no read outside the arguments.
\<close>
theorem ngx_http_arg_correct:
  assumes "name \<noteq> []" "NUL \<notin> set name" "asc CHR ''&'' \<notin> set name"
  shows "ngx_http_arg args name =
    Some (map_option (drop (length name + 1)) (find (arg_named name) (split_amp args)))"
proof (cases "args = []")
  case False
  with assms arg_loop_find [OF assms, of 0 args] find_arg_segments [OF assms(3), of args] show ?thesis
    by (simp add: ngx_http_arg_def)
qed (simp add: ngx_http_arg_def arg_named_def)

theorem ngx_http_arg_correct_witness:
  "ngx_http_arg (bytes ''bid=1&ID=23&id=4'') (bytes ''id'') = Some (Some (bytes ''23''))"
proof -
  have p: "bytes ''id'' \<noteq> []" "NUL \<notin> set (bytes ''id'')" "asc CHR ''&'' \<notin> set (bytes ''id'')" by simp_all
  have "map_option (drop (length (bytes ''id'') + 1))
      (find (arg_named (bytes ''id'')) (split_amp (bytes ''bid=1&ID=23&id=4''))) = Some (bytes ''23'')"
    by code_simp
  then show ?thesis by (simp only: ngx_http_arg_correct [OF p])
qed

section \<open>Headers of several lines\<close>

text \<open>
  \<open>ngx_http_parse_multi_header_lines\<close>. A header value is followed by the null byte that the header
  parser has put there, which stops \<open>ngx_strncasecmp\<close>. \<open>start\<close> is what is left of the value. Found
  is the index of the header and the value, if one is asked for.
\<close>

definition mh_skip :: "byte list \<Rightarrow> byte list" where
  "mh_skip start =
     dropWhile (\<lambda>c. c = SP) (drop 1 (dropWhile (\<lambda>c. c \<noteq> asc CHR '';'' \<and> c \<noteq> asc CHR '','') start))"

lemma length_dropWhile_le: "length (dropWhile P xs) \<le> length xs"
  by (induction xs) auto

lemma mh_skip_le: "length (mh_skip start) \<le> length start - 1"
proof -
  let ?d = "dropWhile (\<lambda>c. c \<noteq> asc CHR '';'' \<and> c \<noteq> asc CHR '','') start"
  have "length (mh_skip start) \<le> length (drop 1 ?d)" unfolding mh_skip_def by (rule length_dropWhile_le)
  also have "\<dots> = length ?d - 1" by (rule length_drop)
  also have "\<dots> \<le> length start - 1" by (rule diff_le_mono, rule length_dropWhile_le)
  finally show ?thesis .
qed

lemma mh_skip_shorter: "start \<noteq> [] \<Longrightarrow> length (mh_skip start) < length start"
  using mh_skip_le [of start] by (cases start) (simp_all add: less_Suc_eq_le)

function mh_scan :: "byte list \<Rightarrow> bool \<Rightarrow> byte list \<Rightarrow> byte list option option" where
  "mh_scan name want_value start =
     (if start = [] then Some None
      else case ngx_strncasecmp (start @ [NUL]) name (length name) of
          None \<Rightarrow> None
        | Some r \<Rightarrow>
            if r \<noteq> 0 then mh_scan name want_value (mh_skip start)
            else let s1 = dropWhile (\<lambda>c. c = SP) (drop (length name) start) in
              if \<not> want_value then
                (if s1 = [] \<or> hd s1 = asc CHR '','' then Some (Some []) else mh_scan name want_value (mh_skip s1))
              else if s1 = [] then Some None
              else if hd s1 \<noteq> asc CHR ''='' then mh_scan name want_value (mh_skip (tl s1))
              else Some (Some (takeWhile (\<lambda>c. c \<noteq> asc CHR '';'') (dropWhile (\<lambda>c. c = SP) (tl s1)))))"
  by pat_completeness auto
termination
proof (relation "measure (\<lambda>(name, w, start). length start)", goal_cases)
  case (3 name w start r s1)
  have "length s1 \<le> length start"
    unfolding 3 using length_dropWhile_le [of "\<lambda>c. c = SP" "drop (length name) start"] by simp
  moreover have "length (mh_skip s1) \<le> length s1 - 1" by (rule mh_skip_le)
  moreover have "s1 \<noteq> []" using 3 by blast
  ultimately show ?case by (cases s1) simp_all
next
  case (4 name w start r s1)
  have "length s1 \<le> length start"
    unfolding 4 using length_dropWhile_le [of "\<lambda>c. c = SP" "drop (length name) start"] by simp
  moreover have "length (mh_skip (tl s1)) \<le> length (tl s1) - 1" by (rule mh_skip_le)
  moreover have "s1 \<noteq> []" using 4 by blast
  ultimately show ?case by (cases s1) simp_all
qed (simp_all add: mh_skip_shorter)

declare mh_scan.simps [simp del]

fun mh_headers :: "nat \<Rightarrow> byte list list \<Rightarrow> byte list \<Rightarrow> bool \<Rightarrow> (nat \<times> byte list) option option" where
  "mh_headers i [] name want_value = Some None"
| "mh_headers i (h # hs) name want_value =
     (if length name > length h then mh_headers (Suc i) hs name want_value
      else case mh_scan name want_value h of
          None \<Rightarrow> None
        | Some (Some v) \<Rightarrow> Some (Some (i, v))
        | Some None \<Rightarrow> mh_headers (Suc i) hs name want_value)"

definition ngx_http_parse_multi_header_lines ::
  "byte list list \<Rightarrow> byte list \<Rightarrow> bool \<Rightarrow> (nat \<times> byte list) option option" where
  "ngx_http_parse_multi_header_lines headers name want_value = mh_headers 0 headers name want_value"

subsection \<open>Looking up a cookie\<close>

text \<open>A header of pairs, and what names and values may contain.\<close>

fun cookies :: "(byte list \<times> byte list) list \<Rightarrow> byte list" where
  "cookies [] = []"
| "cookies ((n, v) # kvs) = n @ asc CHR ''='' # v @ (if kvs = [] then [] else bytes ''; '' @ cookies kvs)"

definition cookie_name :: "byte list \<Rightarrow> bool" where
  "cookie_name n \<longleftrightarrow> n \<noteq> [] \<and> set n \<inter> {NUL, SP, asc CHR '';'', asc CHR '','', asc CHR ''=''} = {}"

definition cookie_value :: "byte list \<Rightarrow> bool" where
  "cookie_value v \<longleftrightarrow> set v \<inter> {SP, asc CHR '';'', asc CHR '',''} = {}"

lemma lower_special:
  assumes "s \<in> {SP, asc CHR '';'', asc CHR '','', asc CHR ''='', NUL}"
  shows "lower c = s \<longleftrightarrow> c = s"
proof -
  have "list_all (\<lambda>c. \<forall>s \<in> set [SP, asc CHR '';'', asc CHR '','', asc CHR ''='', NUL]. lower c = s \<longleftrightarrow> c = s) (map of_nat [0..<256])"
    by code_simp
  from all_bytesI [OF this, of c] assms show ?thesis by auto
qed

lemma lower_map_special:
  assumes "map lower a = map lower b" "s \<in> {SP, asc CHR '';'', asc CHR '','', asc CHR ''='', NUL}"
  shows "s \<in> set a \<longleftrightarrow> s \<in> set b"
proof -
  have "s \<in> set x \<longleftrightarrow> s \<in> set (map lower x)" for x
    using lower_special [OF assms(2)] unfolding set_map image_iff by metis
  with assms(1) show ?thesis by metis
qed

lemma strncasecmp_term:
  assumes "NUL \<notin> set name"
  shows "\<exists>d. ngx_strncasecmp (start @ [NUL]) name (length name) = Some d \<and>
    (d = 0 \<longleftrightarrow> map lower (take (length name) start) = map lower name)"
  using assms
proof (induction name arbitrary: start)
  case (Cons b name)
  show ?case
  proof (cases start)
    case Nil
    then show ?thesis using Cons.prems uint_diff [of 0 "lower b"] by (auto simp: Let_def)
  next
    case (Cons a start')
    have "lower a = lower b \<Longrightarrow> a \<noteq> NUL" using lower_0 [of a] lower_0 [of b] Cons.prems by auto
    with Cons.IH [of start'] Cons.prems uint_diff [of "lower a" "lower b"] Cons show ?thesis by (auto simp: Let_def)
  qed
qed simp

lemma mh_skip_end: "\<forall>c \<in> set w. c \<noteq> asc CHR '';'' \<and> c \<noteq> asc CHR '','' \<Longrightarrow> mh_skip w = []"
proof -
  assume "\<forall>c \<in> set w. c \<noteq> asc CHR '';'' \<and> c \<noteq> asc CHR '',''"
  then have "dropWhile (\<lambda>c. c \<noteq> asc CHR '';'' \<and> c \<noteq> asc CHR '','') w = []" by (simp only: dropWhile_eq_Nil_conv)
  then show ?thesis unfolding mh_skip_def by (simp only: drop_Nil dropWhile.simps)
qed

lemma mh_skip_next: "\<forall>c \<in> set w. c \<noteq> asc CHR '';'' \<and> c \<noteq> asc CHR '','' \<Longrightarrow> kvs \<noteq> [] \<Longrightarrow> cookie_name (fst (hd kvs)) \<Longrightarrow>
    mh_skip (w @ bytes ''; '' @ cookies kvs) = cookies kvs"
proof -
  assume w: "\<forall>c \<in> set w. c \<noteq> asc CHR '';'' \<and> c \<noteq> asc CHR '',''" and "kvs \<noteq> []" and "cookie_name (fst (hd kvs))"
  then have "\<exists>x y. cookies kvs = x # y \<and> x \<noteq> SP"
    by (cases kvs rule: cookies.cases) (auto simp: cookie_name_def neq_Nil_conv)
  moreover have "dropWhile (\<lambda>c. c \<noteq> asc CHR '';'' \<and> c \<noteq> asc CHR '','') (w @ bytes ''; '' @ cookies kvs) = bytes ''; '' @ cookies kvs"
    using w by (induction w) auto
  ultimately show ?thesis unfolding mh_skip_def by auto
qed

definition same_name :: "byte list \<Rightarrow> byte list \<times> byte list \<Rightarrow> bool" where
  "same_name name kv \<longleftrightarrow> map lower (fst kv) = map lower name"

lemma mh_scan_cookies:
  assumes "cookie_name name"
  shows "\<forall>(n, v) \<in> set kvs. cookie_name n \<and> cookie_value v \<Longrightarrow>
    mh_scan name True (cookies kvs) = Some (map_option snd (find (same_name name) kvs))"
proof (induction kvs)
  case (Cons kv kvs)
  obtain n v where kv: "kv = (n, v)" by (cases kv)
  define tl where "tl = (if kvs = [] then [] else bytes ''; '' @ cookies kvs)"
  have start: "cookies (kv # kvs) = n @ asc CHR ''='' # v @ tl" by (simp add: kv tl_def)
  have n: "cookie_name n" and v: "cookie_value v" using Cons.prems kv by auto
  have ne: "cookies (kv # kvs) \<noteq> []" by (simp add: start)
  have rest: "mh_scan name True (mh_skip (w @ tl)) = Some (map_option snd (find (same_name name) kvs))"
    if "\<forall>c \<in> set w. c \<noteq> asc CHR '';'' \<and> c \<noteq> asc CHR '',''" for w
  proof (cases "kvs = []")
    case True
    then show ?thesis using mh_skip_end [OF that] by (simp add: tl_def mh_scan.simps [of name True "[]"])
  next
    case False
    then have "cookie_name (fst (hd kvs))" using Cons.prems by (cases kvs) auto
    from mh_skip_next [OF that False this] False have "mh_skip (w @ tl) = cookies kvs" by (simp only: tl_def if_False)
    with Cons.IH Cons.prems show ?thesis by simp
  qed
  obtain d where d: "ngx_strncasecmp (cookies (kv # kvs) @ [NUL]) name (length name) = Some d"
      "d = 0 \<longleftrightarrow> map lower (take (length name) (cookies (kv # kvs))) = map lower name"
    using strncasecmp_term [of name "cookies (kv # kvs)"] assms by (auto simp: cookie_name_def)
  have eq: "asc CHR ''='' \<notin> set name" using assms by (simp add: cookie_name_def)
  have plain: "\<forall>c \<in> set (n @ asc CHR ''='' # v). c \<noteq> asc CHR '';'' \<and> c \<noteq> asc CHR '',''"
    using n v by (auto simp: cookie_name_def cookie_value_def)
  show ?case
  proof (cases "d = 0")
    case False
    have "\<not> same_name name kv"
    proof
      assume "same_name name kv"
      then have "map lower n = map lower name" "length n = length name"
        by (auto simp: same_name_def kv dest: map_eq_imp_length_eq)
      with d(2) False show False by (simp add: start)
    qed
    moreover have "mh_scan name True (cookies (kv # kvs)) = mh_scan name True (mh_skip ((n @ asc CHR ''='' # v) @ tl))"
      using ne d(1) False start by (subst mh_scan.simps) simp
    ultimately show ?thesis using rest [OF plain] by simp
  next
    case True
    with d(2) have m: "map lower (take (length name) (n @ asc CHR ''='' # v @ tl)) = map lower name" by (simp add: start)
    have le: "length name \<le> length n"
    proof (rule ccontr)
      assume "\<not> length name \<le> length n"
      then have "asc CHR ''='' \<in> set (take (length name) (n @ asc CHR ''='' # v @ tl))"
        by (cases "length name - length n") simp_all
      with lower_map_special [OF m, of "asc CHR ''=''"] eq show False by simp
    qed
    then have m: "map lower (take (length name) n) = map lower name" using m by simp
    define n2 where "n2 = drop (length name) n"
    have dr: "drop (length name) (cookies (kv # kvs)) = n2 @ asc CHR ''='' # v @ tl" using le by (simp add: start n2_def)
    have n2: "\<forall>c \<in> set n2. c \<noteq> asc CHR '';'' \<and> c \<noteq> asc CHR '','' \<and> c \<noteq> SP \<and> c \<noteq> asc CHR ''=''"
      using n unfolding cookie_name_def n2_def by (auto dest: in_set_dropD)
    have sp: "dropWhile (\<lambda>c. c = SP) (n2 @ asc CHR ''='' # v @ tl) = n2 @ asc CHR ''='' # v @ tl"
      using n2 by (cases n2) auto
    show ?thesis
    proof (cases n2)
      case Nil
      then have "n = take (length name) n" by (simp add: n2_def)
      with m have same: "same_name name kv" by (simp add: same_name_def kv)
      have "takeWhile (\<lambda>c. c \<noteq> asc CHR '';'') (dropWhile (\<lambda>c. c = SP) (v @ tl)) = v"
      proof -
        have "dropWhile (\<lambda>c. c = SP) (v @ tl) = v @ tl"
          using v by (cases v) (auto simp: tl_def cookie_value_def)
        moreover have "asc CHR '';'' \<notin> set v" using v by (auto simp: cookie_value_def)
        ultimately show ?thesis using takeWhile_stop [of "asc CHR '';''" v] by (auto simp: tl_def)
      qed
      then have "mh_scan name True (cookies (kv # kvs)) = Some (Some v)"
        using ne d(1) True dr sp Nil by (subst mh_scan.simps) simp
      with same show ?thesis by (simp add: kv)
    next
      case (Cons x n3)
      then have "\<not> same_name name kv"
        using le by (auto simp: same_name_def kv n2_def dest!: map_eq_imp_length_eq)
      moreover have "mh_scan name True (cookies (kv # kvs)) = mh_scan name True (mh_skip ((n3 @ asc CHR ''='' # v) @ tl))"
        using ne d(1) True dr sp Cons n2 by (subst mh_scan.simps) simp
      moreover have "\<forall>c \<in> set (n3 @ asc CHR ''='' # v). c \<noteq> asc CHR '';'' \<and> c \<noteq> asc CHR '',''"
        using n2 Cons plain by auto
      note rest [OF this]
      ultimately show ?thesis by simp
    qed
  qed
qed (simp add: mh_scan.simps [of name True "[]"])

text \<open>
  A cookie is looked up by its whole name, in any case of its letters, and not by a prefix
  of it: in a header of pairs the first with that name gives the value, and no read goes behind
  the terminating null byte.
\<close>
theorem multi_header_cookie:
  assumes "cookie_name name" "\<forall>(n, v) \<in> set kvs. cookie_name n \<and> cookie_value v"
  shows "ngx_http_parse_multi_header_lines [cookies kvs] name True =
    Some (map_option (\<lambda>kv. (0, snd kv)) (find (same_name name) kvs))"
proof (cases "length name > length (cookies kvs)")
  case True
  have "find (same_name name) kvs = None"
  proof -
    have "length (fst kv) \<le> length (cookies kvs)" if "kv \<in> set kvs" for kv
      using that by (induction kvs rule: cookies.induct) (auto split: if_splits)
    then have "length (fst kv) \<noteq> length name" if "kv \<in> set kvs" for kv using that True by fastforce
    then show ?thesis
      unfolding find_None_iff same_name_def by (metis map_eq_imp_length_eq)
  qed
  with True show ?thesis by (simp add: ngx_http_parse_multi_header_lines_def)
next
  case False
  with mh_scan_cookies [OF assms] show ?thesis
    by (cases "find (same_name name) kvs") (simp_all add: ngx_http_parse_multi_header_lines_def)
qed

theorem multi_header_cookie_witness:
  "ngx_http_parse_multi_header_lines [bytes ''ab=1; A=2''] (bytes ''a'') True = Some (Some (0, bytes ''2''))"
proof -
  have p: "cookie_name (bytes ''a'')"
    "\<forall>(n, v) \<in> set [(bytes ''ab'', bytes ''1''), (bytes ''A'', bytes ''2'')]. cookie_name n \<and> cookie_value v"
    by (simp_all add: cookie_name_def cookie_value_def)
  have "find (same_name (bytes ''a'')) [(bytes ''ab'', bytes ''1''), (bytes ''A'', bytes ''2'')] = Some (bytes ''A'', bytes ''2'')"
    by code_simp
  moreover have "cookies [(bytes ''ab'', bytes ''1''), (bytes ''A'', bytes ''2'')] = bytes ''ab=1; A=2''" by code_simp
  ultimately show ?thesis using multi_header_cookie [OF p] by simp
qed

end
