(* ===== verification/UpstreamRR.thy ===== *)
theory UpstreamRR
  imports Prelude
begin

unbundle bit_operations_syntax

text \<open>
  The load balancer of src/http/ngx_http_upstream_round_robin.c: how the peers of an upstream are
  set up, how a peer is chosen for a request, and what is noted when the request is done with it.
  Weights and times are signed 64-bit numbers in the code; here they are \<open>int\<close>, and the lemmas
  bound the weights by the configured ones, so that nothing overflows. Addresses are numbers.
\<close>

section \<open>The state\<close>

record peer =
  p_addr :: nat
  p_current :: int
  p_effective :: int
  p_weight :: int
  p_fails :: nat
  p_accessed :: int
  p_checked :: int
  p_max_fails :: nat
  p_fail_timeout :: int
  p_down :: bool

text \<open>\<open>ngx_http_upstream_rr_peers_t\<close>; \<open>number\<close> is the length of the list.\<close>

record peers =
  ps_total_weight :: int
  ps_single :: bool
  ps_weighted :: bool
  ps_peer :: "peer list"

text \<open>
  What a request has of them: the groups \<open>peers\<close> points to (the first one, then \<open>next\<close>), the
  current peer, the bitmap of the peers it has tried, and the tries left in the connection.
\<close>

record rrp =
  rr_peers :: "peers list"
  rr_current :: nat
  rr_tried :: "u64 list"
  rr_tries :: nat

text \<open>A \<open>server\<close> directive.\<close>

record server =
  sv_addrs :: "nat list"
  sv_weight :: int
  sv_max_fails :: nat
  sv_fail_timeout :: int
  sv_down :: bool
  sv_backup :: bool

section \<open>Setting up\<close>

definition server_peers :: "server \<Rightarrow> peer list" where
  "server_peers s = map (\<lambda>a. \<lparr>p_addr = a, p_current = 0, p_effective = sv_weight s, p_weight = sv_weight s,
     p_fails = 0, p_accessed = 0, p_checked = 0, p_max_fails = sv_max_fails s,
     p_fail_timeout = sv_fail_timeout s, p_down = sv_down s\<rparr>) (sv_addrs s)"

definition server_group :: "server list \<Rightarrow> bool \<Rightarrow> peers" where
  "server_group ss single =
     (let n = sum_list (map (\<lambda>s. length (sv_addrs s)) ss);
          w = sum_list (map (\<lambda>s. int (length (sv_addrs s)) * sv_weight s) ss)
      in \<lparr>ps_total_weight = w, ps_single = single, ps_weighted = (w \<noteq> int n), ps_peer = concat (map server_peers ss)\<rparr>)"

text \<open>\<open>None\<close> is \<open>NGX_ERROR\<close>: no servers. The second group are the backup servers.\<close>

definition ngx_http_upstream_init_round_robin :: "server list \<Rightarrow> peers list option" where
  "ngx_http_upstream_init_round_robin servers =
     (let main = filter (\<lambda>s. \<not> sv_backup s) servers;
          n = sum_list (map (\<lambda>s. length (sv_addrs s)) main);
          back = filter sv_backup servers;
          nb = sum_list (map (\<lambda>s. length (sv_addrs s)) back)
      in if n = 0 then None
         else if nb = 0 then Some [server_group main (n = 1)]
         else Some [server_group main False, server_group back False])"

text \<open>An upstream that is only named, with the addresses its name resolves to.\<close>

definition init_implicit :: "nat list \<Rightarrow> peers list" where
  "init_implicit addrs =
     [\<lparr>ps_total_weight = int (length addrs), ps_single = (length addrs = 1), ps_weighted = False,
       ps_peer = map (\<lambda>a. \<lparr>p_addr = a, p_current = 0, p_effective = 1, p_weight = 1, p_fails = 0, p_accessed = 0,
         p_checked = 0, p_max_fails = 1, p_fail_timeout = 10, p_down = False\<rparr>) addrs\<rparr>]"

definition tried_words :: "nat \<Rightarrow> nat" where
  "tried_words n = (n + 63) div 64"

definition ngx_http_upstream_init_round_robin_peer :: "peers list \<Rightarrow> rrp" where
  "ngx_http_upstream_init_round_robin_peer gs =
     (let n = length (ps_peer (hd gs));
          n = (if tl gs \<noteq> [] \<and> length (ps_peer (hd (tl gs))) > n then length (ps_peer (hd (tl gs))) else n);
          tried = (if n \<le> 64 then [0] else replicate (tried_words n) 0)
      in \<lparr>rr_peers = gs, rr_current = 0, rr_tried = tried, rr_tries = length (ps_peer (hd gs))\<rparr>)"

section \<open>Choosing a peer\<close>

definition tried_bit :: "u64 list \<Rightarrow> nat \<Rightarrow> bool" where
  "tried_bit tried i \<longleftrightarrow> tried ! (i div 64) AND push_bit (i mod 64) 1 \<noteq> 0"

text \<open>The three tests of the loop: tried, down, or failed too often within the timeout.\<close>

definition peer_skip :: "int \<Rightarrow> u64 list \<Rightarrow> nat \<Rightarrow> peer \<Rightarrow> bool" where
  "peer_skip now tried i p \<longleftrightarrow>
     tried_bit tried i \<or> p_down p \<or>
     p_max_fails p \<noteq> 0 \<and> p_fails p \<ge> p_max_fails p \<and> now - p_checked p \<le> p_fail_timeout p"

definition peer_weigh :: "peer \<Rightarrow> peer" where
  "peer_weigh p = p\<lparr>p_current := p_current p + p_effective p,
     p_effective := (if p_effective p < p_weight p then p_effective p + 1 else p_effective p)\<rparr>"

text \<open>
  The loop from index \<open>i\<close>: the peers with their new weights, the total, and the best peer so far,
  by its index and its current weight.
\<close>

fun gp_loop ::
  "int \<Rightarrow> u64 list \<Rightarrow> nat \<Rightarrow> peer list \<Rightarrow> int \<Rightarrow> (nat \<times> int) option \<Rightarrow> peer list \<times> int \<times> (nat \<times> int) option" where
  "gp_loop now tried i [] total0 best = ([], total0, best)"
| "gp_loop now tried i (p # ps) total0 best =
     (if peer_skip now tried i p then
        (case gp_loop now tried (Suc i) ps total0 best of (ps', t, b) \<Rightarrow> (p # ps', t, b))
      else let p' = peer_weigh p;
               best' = (case best of
                   None \<Rightarrow> Some (i, p_current p')
                 | Some (j, cw) \<Rightarrow> if p_current p' > cw then Some (i, p_current p') else Some (j, cw))
           in case gp_loop now tried (Suc i) ps (total0 + p_effective p) best' of (ps', t, b) \<Rightarrow> (p' # ps', t, b))"

definition peer_chosen :: "int \<Rightarrow> int \<Rightarrow> peer \<Rightarrow> peer" where
  "peer_chosen now total0 p = p\<lparr>p_current := p_current p - total0,
     p_checked := (if now - p_checked p > p_fail_timeout p then now else p_checked p)\<rparr>"

definition tried_set :: "u64 list \<Rightarrow> nat \<Rightarrow> u64 list" where
  "tried_set tried i = tried[i div 64 := tried ! (i div 64) OR push_bit (i mod 64) 1]"

definition ngx_http_upstream_get_peer ::
  "int \<Rightarrow> u64 list \<Rightarrow> peer list \<Rightarrow> peer list \<times> (nat \<times> u64 list) option" where
  "ngx_http_upstream_get_peer now tried ps =
     (case gp_loop now tried 0 ps 0 None of
        (ps', total0, None) \<Rightarrow> (ps', None)
      | (ps', total0, Some (i, cw)) \<Rightarrow>
          (ps'[i := peer_chosen now total0 (ps' ! i)], Some (i, tried_set tried i)))"

text \<open>
  \<open>ngx_http_upstream_get_round_robin_peer\<close>: return code, the state, and the address if there is
  one. The groups that \<open>rrp->peers\<close> no longer points to are given back too, as the peers in them
  are shared.
\<close>

definition NGX_BUSY :: i64 where "NGX_BUSY = -3"

declare NGX_BUSY_def [res_simps]

definition clear_fails :: "peers \<Rightarrow> peers" where
  "clear_fails g = g\<lparr>ps_peer := map (\<lambda>p. p\<lparr>p_fails := 0\<rparr>) (ps_peer g)\<rparr>"

fun get_rr_peer ::
  "int \<Rightarrow> nat \<Rightarrow> nat \<Rightarrow> u64 list \<Rightarrow> peers list \<Rightarrow> i64 \<times> peers list \<times> rrp \<times> nat option" where
  "get_rr_peer now tries current tried [] =
     (NGX_BUSY, [], \<lparr>rr_peers = [], rr_current = current, rr_tried = tried, rr_tries = tries\<rparr>, None)"
| "get_rr_peer now tries current tried (g # gs) =
     (let (ps, chosen) =
        (if ps_single g then
           (ps_peer g, if p_down (ps_peer g ! 0) then None else Some (0, current, tried))
         else case ngx_http_upstream_get_peer now tried (ps_peer g) of
             (ps, None) \<Rightarrow> (ps, None)
           | (ps, Some (i, tried')) \<Rightarrow> (ps, Some (i, i, tried')));
        g = g\<lparr>ps_peer := ps\<rparr>
      in case chosen of
          Some (i, current', tried') \<Rightarrow>
            (NGX_OK, [],
             \<lparr>rr_peers = g # gs, rr_current = current', rr_tried = tried',
              rr_tries = (if tries = 1 \<and> gs \<noteq> [] then tries + length (ps_peer (hd gs)) else tries)\<rparr>,
             Some (p_addr (ps ! i)))
        | None \<Rightarrow>
            if gs \<noteq> [] then
              (let number = length (ps_peer (hd gs));
                   cleared = replicate (tried_words number) 0 @ drop (tried_words number) tried
               in case get_rr_peer now number current cleared gs of (rc, left, r, a) \<Rightarrow>
                    if rc \<noteq> NGX_BUSY then (rc, g # left, r, a)
                    else (NGX_BUSY, clear_fails g # left, r, None))
            else
              (NGX_BUSY, [],
               \<lparr>rr_peers = [clear_fails g], rr_current = current, rr_tried = tried, rr_tries = tries\<rparr>, None))"

definition ngx_http_upstream_get_round_robin_peer ::
  "int \<Rightarrow> rrp \<Rightarrow> i64 \<times> peers list \<times> rrp \<times> nat option" where
  "ngx_http_upstream_get_round_robin_peer now r = get_rr_peer now (rr_tries r) (rr_current r) (rr_tried r) (rr_peers r)"

section \<open>Done with a peer\<close>

definition NGX_PEER_FAILED :: u64 where "NGX_PEER_FAILED = 4"

definition peer_freed :: "int \<Rightarrow> u64 \<Rightarrow> peer \<Rightarrow> peer" where
  "peer_freed now state p =
     (if state AND NGX_PEER_FAILED \<noteq> 0 then
        (let p = p\<lparr>p_fails := p_fails p + 1, p_accessed := now, p_checked := now\<rparr>;
             p = (if p_max_fails p \<noteq> 0 then p\<lparr>p_effective := p_effective p - p_weight p div int (p_max_fails p)\<rparr> else p)
         in if p_effective p < 0 then p\<lparr>p_effective := 0\<rparr> else p)
      else if p_accessed p < p_checked p then p\<lparr>p_fails := 0\<rparr> else p)"

definition ngx_http_upstream_free_round_robin_peer :: "int \<Rightarrow> u64 \<Rightarrow> rrp \<Rightarrow> rrp" where
  "ngx_http_upstream_free_round_robin_peer now state r =
     (let g = hd (rr_peers r) in
      if ps_single g then r\<lparr>rr_tries := 0\<rparr>
      else let ps = ps_peer g; i = rr_current r
        in r\<lparr>rr_peers := g\<lparr>ps_peer := ps[i := peer_freed now state (ps ! i)]\<rparr> # tl (rr_peers r),
             rr_tries := rr_tries r - 1\<rparr>)"

section \<open>The loop\<close>

text \<open>The peers after the loop, the total, and the best: the first with the greatest current weight.\<close>

lemma gp_loop_eq:
  "gp_loop now tried k ps t0 best = (ps', t, b) \<Longrightarrow>
   length ps' = length ps \<and>
   (\<forall>j < length ps. ps' ! j = (if peer_skip now tried (k + j) (ps ! j) then ps ! j else peer_weigh (ps ! j))) \<and>
   t = t0 + (\<Sum>j<length ps. if peer_skip now tried (k + j) (ps ! j) then 0 else p_effective (ps ! j)) \<and>
   (b = None \<longleftrightarrow> best = None \<and> (\<forall>j < length ps. peer_skip now tried (k + j) (ps ! j)))"
proof (induction now tried k ps t0 best arbitrary: ps' t b rule: gp_loop.induct)
  case (2 now tried i p ps t0 best)
  have nth: "(\<forall>j < length (p # ps). P j) \<longleftrightarrow> P 0 \<and> (\<forall>j < length ps. P (Suc j))" for P
    by (auto simp: less_Suc_eq_0_disj)
  have shift: "(\<Sum>j<length (p # ps). f j) = f 0 + (\<Sum>j<length ps. f (Suc j))" for f :: "nat \<Rightarrow> int"
    by (simp only: length_Cons sum.lessThan_Suc_shift)
  show ?case
  proof (cases "peer_skip now tried i p")
    case True
    then obtain ps1 where l: "gp_loop now tried (Suc i) ps t0 best = (ps1, t, b)" "ps' = p # ps1"
      using "2.prems" by (auto split: prod.splits)
    with "2.IH"(1) [OF True l(1)] True show ?thesis unfolding nth shift by (simp cong: if_cong)
  next
    case False
    let ?p' = "peer_weigh p"
    define best' where "best' = (case best of None \<Rightarrow> Some (i, p_current ?p')
      | Some (j, cw) \<Rightarrow> if p_current ?p' > cw then Some (i, p_current ?p') else Some (j, cw))"
    obtain ps1 t1 b1 where l1: "gp_loop now tried (Suc i) ps (t0 + p_effective p) best' = (ps1, t1, b1)"
      by (metis surj_pair)
    with "2.prems" False have l: "gp_loop now tried (Suc i) ps (t0 + p_effective p) best' = (ps1, t, b)" "ps' = ?p' # ps1"
      by (simp_all add: Let_def best'_def)
    note IH = "2.IH"(2) [OF False refl refl, folded best'_def, OF l(1)]
    have "best' \<noteq> None" by (auto simp: best'_def split: option.splits)
    with IH False show ?thesis unfolding nth shift l(2) by (simp add: add.assoc cong: if_cong)
  qed
qed auto

lemma gp_loop_best:
  "gp_loop now tried k ps t0 best = (ps', t, Some (i, cw)) \<Longrightarrow>
   (best = Some (i, cw) \<or>
     (\<exists>j < length ps. i = k + j \<and> \<not> peer_skip now tried i (ps ! j) \<and> cw = p_current (ps' ! j))) \<and>
   (\<forall>j < length ps. \<not> peer_skip now tried (k + j) (ps ! j) \<longrightarrow> p_current (ps' ! j) \<le> cw) \<and>
   (\<forall>i' cw'. best = Some (i', cw') \<longrightarrow> cw' \<le> cw)"
proof (induction now tried k ps t0 best arbitrary: ps' t i cw rule: gp_loop.induct)
  case (2 now tried k p ps t0 best)
  have nth: "(\<forall>j < length (p # ps). P j) \<longleftrightarrow> P 0 \<and> (\<forall>j < length ps. P (Suc j))"
    "(\<exists>j < length (p # ps). P j) \<longleftrightarrow> P 0 \<or> (\<exists>j < length ps. P (Suc j))" for P
    by (auto simp: less_Suc_eq_0_disj)
  show ?case
  proof (cases "peer_skip now tried k p")
    case True
    then obtain ps1 where "gp_loop now tried (Suc k) ps t0 best = (ps1, t, Some (i, cw))" "ps' = p # ps1"
      using "2.prems" by (auto split: prod.splits)
    with "2.IH"(1) [OF True] True show ?thesis unfolding nth by auto
  next
    case False
    let ?p' = "peer_weigh p"
    define best' where "best' = (case best of None \<Rightarrow> Some (k, p_current ?p')
      | Some (j, cw) \<Rightarrow> if p_current ?p' > cw then Some (k, p_current ?p') else Some (j, cw))"
    obtain ps1 t1 b1 where l1: "gp_loop now tried (Suc k) ps (t0 + p_effective p) best' = (ps1, t1, b1)"
      by (metis surj_pair)
    with "2.prems" False have l: "gp_loop now tried (Suc k) ps (t0 + p_effective p) best' = (ps1, t, Some (i, cw))" "ps' = ?p' # ps1"
      by (simp_all add: Let_def best'_def)
    note IH = "2.IH"(2) [OF False refl refl, folded best'_def, OF l(1)]
    have b: "\<exists>i1 c1. best' = Some (i1, c1) \<and> p_current ?p' \<le> c1 \<and> (\<forall>i' cw'. best = Some (i', cw') \<longrightarrow> cw' \<le> c1)"
      "best' = Some (i, cw) \<Longrightarrow> best = Some (i, cw) \<or> i = k \<and> cw = p_current ?p'"
      by (auto simp: best'_def split: option.splits if_splits)
    then obtain i1 c1 where "best' = Some (i1, c1)" "p_current ?p' \<le> c1" "\<forall>i' cw'. best = Some (i', cw') \<longrightarrow> cw' \<le> c1"
      by blast
    with IH have "p_current ?p' \<le> cw" "\<forall>i' cw'. best = Some (i', cw') \<longrightarrow> cw' \<le> cw" by force+
    with IH b(2) False show ?thesis unfolding nth l(2) by auto
  qed
qed auto


section \<open>Requests that interleave\<close>

text \<open>
  The requests share the peers, and their calls interleave. A request: how many groups
  \<open>rrp->peers\<close> has moved on, its part of \<open>rrp\<close>, \<open>pc->sockaddr\<close>, and, for the statements, the peers
  it was given so far. \<open>ngx_http_upstream_connect\<close> asks for a peer while none is held
  and tries are left; \<open>ngx_http_upstream_next\<close> and \<open>ngx_http_upstream_finalize_request\<close> give back a
  peer that is held.
\<close>

record req =
  rq_off :: nat
  rq_current :: nat
  rq_tried :: "u64 list"
  rq_tries :: nat
  rq_sock :: "nat option"
  rq_given :: "(nat \<times> nat) list"

definition req_start :: "peers list \<Rightarrow> req" where
  "req_start gs =
     (let r = ngx_http_upstream_init_round_robin_peer gs
      in \<lparr>rq_off = 0, rq_current = rr_current r, rq_tried = rr_tried r, rq_tries = rr_tries r,
          rq_sock = None, rq_given = []\<rparr>)"

definition req_rrp :: "peers list \<Rightarrow> req \<Rightarrow> rrp" where
  "req_rrp gs q = \<lparr>rr_peers = drop (rq_off q) gs, rr_current = rq_current q, rr_tried = rq_tried q, rr_tries = rq_tries q\<rparr>"

definition req_connect :: "int \<Rightarrow> peers list \<Rightarrow> req \<Rightarrow> peers list \<times> req" where
  "req_connect now gs q =
     (case ngx_http_upstream_get_round_robin_peer now (req_rrp gs q) of (rc, left, r, a) \<Rightarrow>
        let k = rq_off q + length left
        in (take (rq_off q) gs @ left @ rr_peers r,
            \<lparr>rq_off = k, rq_current = rr_current r, rq_tried = rr_tried r, rq_tries = rr_tries r, rq_sock = a,
             rq_given = (if a = None then [] else [(k, rr_current r)]) @ rq_given q\<rparr>))"

definition req_free :: "int \<Rightarrow> u64 \<Rightarrow> peers list \<Rightarrow> req \<Rightarrow> peers list \<times> req" where
  "req_free now state gs q =
     (let r = ngx_http_upstream_free_round_robin_peer now state (req_rrp gs q)
      in (take (rq_off q) gs @ rr_peers r, q\<lparr>rq_tries := rr_tries r, rq_sock := None\<rparr>))"

text \<open>The clock may show anything at every step.\<close>

inductive rr_step :: "peers list \<times> req list \<Rightarrow> peers list \<times> req list \<Rightarrow> bool" where
  start: "rr_step (gs, qs) (gs, req_start gs # qs)"
| connect: "i < length qs \<Longrightarrow> rq_sock (qs ! i) = None \<Longrightarrow> rq_tries (qs ! i) > 0 \<Longrightarrow>
    req_connect now gs (qs ! i) = (gs', q') \<Longrightarrow> rr_step (gs, qs) (gs', qs[i := q'])"
| free: "i < length qs \<Longrightarrow> rq_sock (qs ! i) \<noteq> None \<Longrightarrow>
    req_free now state gs (qs ! i) = (gs', q') \<Longrightarrow> rr_step (gs, qs) (gs', qs[i := q'])"

inductive rr_reach :: "peers list \<Rightarrow> peers list \<times> req list \<Rightarrow> bool" for gs0 where
  init: "rr_reach gs0 (gs0, [])"
| step: "rr_reach gs0 s \<Longrightarrow> rr_step s s' \<Longrightarrow> rr_reach gs0 s'"

text \<open>What stays of a peer, and where its effective weight may go.\<close>

definition peer_same :: "peer \<Rightarrow> peer \<Rightarrow> bool" where
  "peer_same p q \<longleftrightarrow> p_addr q = p_addr p \<and> p_weight q = p_weight p \<and> p_max_fails q = p_max_fails p \<and>
     p_fail_timeout q = p_fail_timeout p \<and> p_down q = p_down p \<and>
     (0 \<le> p_effective p \<and> p_effective p \<le> p_weight p \<longrightarrow> 0 \<le> p_effective q \<and> p_effective q \<le> p_weight q)"

definition group_same :: "peers \<Rightarrow> peers \<Rightarrow> bool" where
  "group_same g h \<longleftrightarrow> ps_single h = ps_single g \<and> list_all2 peer_same (ps_peer g) (ps_peer h)"

abbreviation groups_same :: "peers list \<Rightarrow> peers list \<Rightarrow> bool" where
  "groups_same \<equiv> list_all2 group_same"

lemma peer_same_refl [simp]: "peer_same p p" by (simp add: peer_same_def)

lemma peer_same_trans: "peer_same p q \<Longrightarrow> peer_same q r \<Longrightarrow> peer_same p r" by (auto simp: peer_same_def)

lemma group_same_refl [simp]: "group_same g g"
  by (simp add: group_same_def list.rel_refl)

lemma group_same_trans: "group_same g h \<Longrightarrow> group_same h k \<Longrightarrow> group_same g k"
  by (auto simp: group_same_def intro: list_all2_trans [OF peer_same_trans])

lemma groups_same_refl [simp]: "groups_same gs gs" by (simp add: list.rel_refl)

lemma groups_same_trans: "groups_same gs hs \<Longrightarrow> groups_same hs ks \<Longrightarrow> groups_same gs ks"
  by (auto intro: list_all2_trans [OF group_same_trans])

lemma peer_weigh_same [simp]: "peer_same p (peer_weigh p)" by (simp add: peer_same_def peer_weigh_def)

lemma peer_chosen_same [simp]: "peer_same p (peer_chosen now t p)" by (simp add: peer_same_def peer_chosen_def)

lemma peer_freed_same [simp]:
  "p_weight p \<ge> 0 \<Longrightarrow> peer_same p (peer_freed now state p)"
proof -
  assume "p_weight p \<ge> 0"
  then have "0 \<le> p_weight p div int (p_max_fails p)" by (cases "p_max_fails p = 0") (auto simp: pos_imp_zdiv_nonneg_iff)
  then show ?thesis by (auto simp: peer_same_def peer_freed_def Let_def)
qed

lemma peers_update_same:
  assumes "peer_same (ps ! i) p"
  shows "list_all2 peer_same ps (ps[i := p])"
proof (rule list_all2_all_nthI)
  fix j assume "j < length ps"
  with assms show "peer_same (ps ! j) (ps[i := p] ! j)" by (cases "j = i") simp_all
qed simp

lemma clear_fails_same [simp]: "group_same g (clear_fails g)"
  by (simp add: group_same_def clear_fails_def list_all2_conv_all_nth peer_same_def)

lemma tried_bit_iff: "tried_bit tried i \<longleftrightarrow> bit (tried ! (i div 64)) (i mod 64)"
  by (simp add: tried_bit_def push_bit_of_1 and_exp_eq_0_iff_not_bit)

lemma tried_set_bit:
  "i div 64 < length tried \<Longrightarrow> tried_bit (tried_set tried i) j \<longleftrightarrow> tried_bit tried j \<or> j = i"
proof -
  assume i: "i div 64 < length tried"
  have m: "i mod 64 < 64" "j mod 64 < 64" by simp_all
  have e: "j = i" if "j div 64 = i div 64" "j mod 64 = i mod 64" using that by (metis div_mult_mod_eq)
  show ?thesis using i m e
    by (cases "j div 64 = i div 64")
      (auto simp: tried_bit_iff tried_set_def nth_list_update bit_or_iff push_bit_of_1 bit_exp_iff)
qed

lemma get_peer_facts:
  assumes "ngx_http_upstream_get_peer now tried ps = (ps', c)"
  shows "list_all2 peer_same ps ps'"
    and "c = Some (i, tried') \<Longrightarrow> i < length ps \<and> \<not> peer_skip now tried i (ps ! i) \<and> tried' = tried_set tried i"
proof -
  obtain ps1 t b where l: "gp_loop now tried 0 ps 0 None = (ps1, t, b)" by (metis surj_pair)
  from gp_loop_eq [OF l] have ps1: "length ps1 = length ps" "\<forall>j < length ps. peer_same (ps ! j) (ps1 ! j)" by auto
  show "list_all2 peer_same ps ps'"
  proof (cases b)
    case None
    with assms l ps1 show ?thesis by (auto simp: ngx_http_upstream_get_peer_def list_all2_conv_all_nth)
  next
    case (Some b')
    then obtain i cw where "b = Some (i, cw)" by (cases b') auto
    with assms l have u: "ps' = ps1[i := peer_chosen now t (ps1 ! i)]" by (auto simp: ngx_http_upstream_get_peer_def)
    show ?thesis
    proof (rule list_all2_all_nthI)
      fix j assume "j < length ps"
      with ps1 show "peer_same (ps ! j) (ps' ! j)"
        by (cases "j = i") (auto simp: u intro: peer_same_trans [OF _ peer_chosen_same])
    qed (simp add: u ps1)
  qed
  show "c = Some (i, tried') \<Longrightarrow> i < length ps \<and> \<not> peer_skip now tried i (ps ! i) \<and> tried' = tried_set tried i"
    using assms l gp_loop_best [of now tried 0 ps 0 None ps1 t i]
    by (auto simp: ngx_http_upstream_get_peer_def split: option.splits)
qed

lemma get_rr_peer_facts:
  "get_rr_peer now tries cur tried gs = (rc, left, r, a) \<Longrightarrow> gs \<noteq> [] \<Longrightarrow>
   \<forall>g \<in> set gs. ps_peer g \<noteq> [] \<and> length (ps_peer g) \<le> 64 * length tried \<Longrightarrow>
   length gs = 1 \<or> (\<forall>g \<in> set gs. \<not> ps_single g) \<Longrightarrow> ps_single (hd gs) \<longrightarrow> cur = 0 \<Longrightarrow>
   groups_same gs (left @ rr_peers r) \<and> rr_peers r \<noteq> [] \<and> length (rr_tried r) = length tried \<and>
   (left = [] \<longrightarrow> (\<forall>i. tried_bit tried i \<longrightarrow> tried_bit (rr_tried r) i)) \<and>
   (ps_single (hd gs) \<longrightarrow> left = [] \<and> rr_tries r = tries \<and> rr_current r = cur) \<and>
   (\<forall>x. a = Some x \<longrightarrow> rr_current r < length (ps_peer (gs ! length left)) \<and>
      \<not> p_down (ps_peer (gs ! length left) ! rr_current r) \<and>
      x = p_addr (ps_peer (gs ! length left) ! rr_current r) \<and>
      (\<not> ps_single (hd gs) \<longrightarrow> tried_bit (rr_tried r) (rr_current r) \<and>
         (left = [] \<longrightarrow> \<not> tried_bit tried (rr_current r))))"
proof (induction gs arbitrary: tries tried rc left r a)
  case (Cons g gs)
  show ?case
  proof (cases "ps_single g")
    case True
    with Cons.prems show ?thesis by (auto split: if_splits)
  next
    case ns: False
    obtain ps c where gp: "ngx_http_upstream_get_peer now tried (ps_peer g) = (ps, c)" by (metis surj_pair)
    note f = get_peer_facts [OF gp]
    have same: "group_same g (g\<lparr>ps_peer := ps\<rparr>)" using f(1) by (simp add: group_same_def)
    show ?thesis
    proof (cases c)
      case (Some c')
      then obtain i tried' where c: "c = Some (i, tried')" by (cases c') auto
      from f(2) [OF this] have i: "i < length (ps_peer g)" "\<not> peer_skip now tried i (ps_peer g ! i)" "tried' = tried_set tried i"
        by auto
      from i(1) Cons.prems(3) have w: "i div 64 < length tried" by auto
      have "peer_same (ps_peer g ! i) (ps ! i)" using f(1) i(1) by (simp add: list_all2_conv_all_nth)
      with Cons.prems(1) ns gp c i w same tried_set_bit [OF w] show ?thesis
        by (auto simp: tried_set_def [of tried i] peer_skip_def peer_same_def)
    next
      case None
      note lst = Cons.prems(1) [simplified, unfolded gp None, simplified, simplified ns, simplified]
      show ?thesis
      proof (cases "gs = []")
        case True
        with lst same ns show ?thesis
          by (auto simp: Let_def gp None intro: group_same_trans [OF _ clear_fails_same])
      next
        case False
        let ?cleared = "replicate (tried_words (length (ps_peer (hd gs)))) 0 @ drop (tried_words (length (ps_peer (hd gs)))) tried"
        obtain rc1 left1 r1 a1 where rec: "get_rr_peer now (length (ps_peer (hd gs))) cur ?cleared gs = (rc1, left1, r1, a1)"
          by (metis surj_pair)
        have "length (ps_peer (hd gs)) \<le> 64 * length tried" using Cons.prems(3) False by simp
        then have len: "length ?cleared = length tried" by (simp add: tried_words_def)
        have nsg: "\<forall>g \<in> set gs. \<not> ps_single g" using Cons.prems(4) False by auto
        have IH: "groups_same gs (left1 @ rr_peers r1) \<and> rr_peers r1 \<noteq> [] \<and> length (rr_tried r1) = length tried \<and>
           (\<forall>x. a1 = Some x \<longrightarrow> rr_current r1 < length (ps_peer (gs ! length left1)) \<and>
              \<not> p_down (ps_peer (gs ! length left1) ! rr_current r1) \<and>
              x = p_addr (ps_peer (gs ! length left1) ! rr_current r1) \<and>
              tried_bit (rr_tried r1) (rr_current r1))"
          using Cons.IH [OF rec False, unfolded len] Cons.prems(3) nsg hd_in_set [OF False] by simp
        have e: "left = (if rc1 \<noteq> NGX_BUSY then g\<lparr>ps_peer := ps\<rparr> else clear_fails (g\<lparr>ps_peer := ps\<rparr>)) # left1"
          "r = r1" "a = None \<or> a = a1"
          using Cons.prems(1) ns gp None rec False by (auto simp: Let_def split: if_splits)
        have "group_same g (hd left)" using same group_same_trans [OF same clear_fails_same] by (simp add: e(1))
        with IH e ns show ?thesis by auto
      qed
    qed
  qed
qed simp

text \<open>The groups that the configuration makes.\<close>

definition groups_wf :: "peers list \<Rightarrow> bool" where
  "groups_wf gs \<longleftrightarrow> gs \<noteq> [] \<and> length gs \<le> 2 \<and> (\<forall>g \<in> set gs. ps_peer g \<noteq> []) \<and>
     (length gs = 1 \<or> (\<forall>g \<in> set gs. \<not> ps_single g)) \<and>
     (\<forall>g \<in> set gs. \<forall>p \<in> set (ps_peer g). 0 \<le> p_effective p \<and> p_effective p \<le> p_weight p)"

lemma length_group: "length (ps_peer (server_group ss b)) = sum_list (map (\<lambda>s. length (sv_addrs s)) ss)"
  by (induction ss) (simp_all add: server_group_def server_peers_def Let_def)

lemma init_wf:
  assumes "ngx_http_upstream_init_round_robin servers = Some gs" "\<forall>s \<in> set servers. sv_weight s > 0"
  shows "groups_wf gs"
proof -
  have ne: "ps_peer (server_group ss b) \<noteq> []" if "sum_list (map (\<lambda>s. length (sv_addrs s)) ss) \<noteq> 0" for ss b
    using that unfolding length_group [symmetric, of ss b] by auto
  have w: "0 \<le> p_effective p \<and> p_effective p \<le> p_weight p"
    if "p \<in> set (ps_peer (server_group (filter P servers) b))" for p P b
    using that assms(2) by (force simp: server_group_def server_peers_def Let_def less_imp_le)
  have s: "ps_single (server_group ss b) = b" for ss b by (simp add: server_group_def Let_def)
  from assms(1) show ?thesis
    by (auto simp: ngx_http_upstream_init_round_robin_def groups_wf_def Let_def s ne
        simp del: sum_list_eq_0_iff split: if_splits dest: w)
qed

text \<open>A request, against the configuration.\<close>

definition req_ok :: "peers list \<Rightarrow> req \<Rightarrow> bool" where
  "req_ok gs q \<longleftrightarrow> rq_off q < length gs \<and> (\<forall>g \<in> set gs. length (ps_peer g) \<le> 64 * length (rq_tried q)) \<and>
     (\<forall>x. rq_sock q = Some x \<longrightarrow> rq_given q \<noteq> [] \<and> hd (rq_given q) = (rq_off q, rq_current q) \<and>
        x = p_addr (ps_peer (gs ! rq_off q) ! rq_current q)) \<and>
     (\<forall>(k, i) \<in> set (rq_given q). k \<le> rq_off q \<and> i < length (ps_peer (gs ! k)) \<and>
        \<not> p_down (ps_peer (gs ! k) ! i) \<and> (k = rq_off q \<and> \<not> ps_single (hd gs) \<longrightarrow> tried_bit (rq_tried q) i)) \<and>
     distinct (rq_given q) \<and>
     (ps_single (hd gs) \<longrightarrow> rq_current q = 0 \<and> (rq_given q = [] \<or> rq_sock q \<noteq> None \<or> rq_tries q = 0))"

lemma tried_words_ge: "n \<le> 64 * tried_words n"
  unfolding tried_words_def by linarith

lemma groups_same_nth:
  assumes "groups_same gs hs" "k < length gs"
  shows "ps_single (hs ! k) = ps_single (gs ! k)" "length (ps_peer (hs ! k)) = length (ps_peer (gs ! k))"
    "i < length (ps_peer (gs ! k)) \<Longrightarrow> peer_same (ps_peer (gs ! k) ! i) (ps_peer (hs ! k) ! i)"
  using assms by (auto simp: list_all2_conv_all_nth group_same_def)

lemma groups_same_hd: "groups_same gs hs \<Longrightarrow> gs \<noteq> [] \<Longrightarrow> ps_single (hd hs) = ps_single (hd gs)"
  using groups_same_nth(1) [of gs hs 0] by (cases gs; cases hs) auto

lemma init_tried:
  assumes "gs \<noteq> []" "length gs \<le> 2" "k < length gs"
  shows "length (ps_peer (gs ! k)) \<le> 64 * length (rr_tried (ngx_http_upstream_init_round_robin_peer gs))"
proof -
  consider h where "gs = [h]" "k = 0" | h h' where "gs = [h, h']" "k = 0" | h h' where "gs = [h, h']" "k = 1"
    using assms by (cases gs; cases "tl gs"; cases k) auto
  then show ?thesis
  proof cases
    case (1 h)
    with tried_words_ge [of "length (ps_peer h)"] show ?thesis
      by (simp add: ngx_http_upstream_init_round_robin_peer_def Let_def)
  next
    case (2 h h')
    with tried_words_ge [of "length (ps_peer h)"] tried_words_ge [of "length (ps_peer h')"] show ?thesis
      by (simp add: ngx_http_upstream_init_round_robin_peer_def Let_def)
  next
    case (3 h h')
    with tried_words_ge [of "length (ps_peer h)"] tried_words_ge [of "length (ps_peer h')"] show ?thesis
      by (simp add: ngx_http_upstream_init_round_robin_peer_def Let_def)
  qed
qed

lemma req_start_ok:
  assumes "groups_wf gs0" "groups_same gs0 gs"
  shows "req_ok gs0 (req_start gs)"
proof -
  have len: "length gs = length gs0" using assms(2) by (simp add: list_all2_lengthD)
  have wf: "gs0 \<noteq> []" "length gs0 \<le> 2" using assms(1) by (auto simp: groups_wf_def)
  have t: "length (ps_peer g) \<le> 64 * length (rr_tried (ngx_http_upstream_init_round_robin_peer gs))" if g: "g \<in> set gs0" for g
  proof -
    from g obtain k where k: "k < length gs0" "g = gs0 ! k" by (metis in_set_conv_nth)
    have "length (ps_peer (gs ! k)) \<le> 64 * length (rr_tried (ngx_http_upstream_init_round_robin_peer gs))"
      using wf len k(1) by (intro init_tried) auto
    with groups_same_nth(2) [OF assms(2) k(1)] k(2) show ?thesis by simp
  qed
  have "rr_current (ngx_http_upstream_init_round_robin_peer gs) = 0"
    by (simp add: ngx_http_upstream_init_round_robin_peer_def Let_def)
  with t wf show ?thesis by (simp add: req_ok_def req_start_def Let_def)
qed

text \<open>Both invariants at once: the groups against the configured ones, and every request.\<close>

definition rr_inv :: "peers list \<Rightarrow> peers list \<times> req list \<Rightarrow> bool" where
  "rr_inv gs0 s \<longleftrightarrow> groups_same gs0 (fst s) \<and> (\<forall>q \<in> set (snd s). req_ok gs0 q)"

lemma req_connect_ok:
  assumes wf: "groups_wf gs0" and same: "groups_same gs0 gs" and q: "req_ok gs0 q" "rq_sock q = None" "rq_tries q > 0"
    and c: "req_connect now gs q = (gs', q')"
  shows "groups_same gs gs' \<and> req_ok gs0 q'"
proof -
  let ?k = "rq_off q"
  obtain rc left r a where g: "get_rr_peer now (rq_tries q) (rq_current q) (rq_tried q) (drop ?k gs) = (rc, left, r, a)"
    by (metis surj_pair)
  have len: "length gs = length gs0" using same by (simp add: list_all2_lengthD)
  have k: "?k < length gs" using q(1) by (simp add: req_ok_def len)
  have ne: "gs0 \<noteq> []" using wf by (simp add: groups_wf_def)
  have peers: "ps_peer g \<noteq> [] \<and> length (ps_peer g) \<le> 64 * length (rq_tried q)" if "g \<in> set (drop ?k gs)" for g
  proof -
    from in_set_dropD [OF that] obtain j where j: "j < length gs" "g = gs ! j" by (metis in_set_conv_nth)
    have "ps_peer (gs0 ! j) \<noteq> []" "length (ps_peer (gs0 ! j)) \<le> 64 * length (rq_tried q)"
      using wf q(1) j(1) by (simp_all add: groups_wf_def req_ok_def len)
    with groups_same_nth(2) [OF same, of j] j len show ?thesis by (metis length_0_conv)
  qed
  have single: "length (drop ?k gs) = 1 \<or> (\<forall>g \<in> set (drop ?k gs). \<not> ps_single g)"
  proof (cases "length gs0 = 1")
    case False
    then have "\<not> ps_single (gs ! j)" if "j < length gs" for j
      using wf groups_same_nth(1) [OF same, of j] that by (simp add: groups_wf_def len)
    then show ?thesis by (metis in_set_conv_nth in_set_dropD)
  qed (use k len in simp)
  have sing1: "ps_single (hd gs0) \<Longrightarrow> length gs0 = 1" using wf ne by (auto simp: groups_wf_def)
  have hd: "ps_single (hd (drop ?k gs)) = ps_single (hd gs0)"
  proof (cases "length gs0 = 1")
    case True
    with k len groups_same_hd [OF same ne] show ?thesis by simp
  next
    case False
    with wf ne k len groups_same_nth(1) [OF same, of ?k] show ?thesis
      by (auto simp: groups_wf_def hd_drop_conv_nth)
  qed
  have cur: "ps_single (hd (drop ?k gs)) \<longrightarrow> rq_current q = 0" using q(1) by (simp add: hd req_ok_def)
  have dne: "drop ?k gs \<noteq> []" using k by simp
  have f: "groups_same (drop ?k gs) (left @ rr_peers r)" "rr_peers r \<noteq> []" "length (rr_tried r) = length (rq_tried q)"
    "left = [] \<Longrightarrow> \<forall>i. tried_bit (rq_tried q) i \<longrightarrow> tried_bit (rr_tried r) i"
    "ps_single (hd gs0) \<Longrightarrow> left = [] \<and> rr_tries r = rq_tries q \<and> rr_current r = rq_current q"
    "\<And>x. a = Some x \<Longrightarrow> rr_current r < length (ps_peer (drop ?k gs ! length left)) \<and>
       \<not> p_down (ps_peer (drop ?k gs ! length left) ! rr_current r) \<and>
       x = p_addr (ps_peer (drop ?k gs ! length left) ! rr_current r) \<and>
       (\<not> ps_single (hd gs0) \<longrightarrow> tried_bit (rr_tried r) (rr_current r) \<and>
          (left = [] \<longrightarrow> \<not> tried_bit (rq_tried q) (rr_current r)))"
    using get_rr_peer_facts [OF g dne _ single cur, unfolded hd] peers by auto
  from c g have e: "gs' = take ?k gs @ left @ rr_peers r"
    "q' = \<lparr>rq_off = ?k + length left, rq_current = rr_current r, rq_tried = rr_tried r, rq_tries = rr_tries r,
      rq_sock = a, rq_given = (if a = None then [] else [(?k + length left, rr_current r)]) @ rq_given q\<rparr>"
    by (auto simp: req_connect_def req_rrp_def ngx_http_upstream_get_round_robin_peer_def Let_def)
  have "groups_same (take ?k gs @ drop ?k gs) gs'" unfolding e(1) using f(1) by (intro list_all2_appendI) simp_all
  then have same': "groups_same gs gs'" by simp
  have "length (drop ?k gs) = length left + length (rr_peers r)" using list_all2_lengthD [OF f(1)] by simp
  moreover have "length (rr_peers r) > 0" using f(2) by simp
  ultimately have kl: "?k + length left < length gs0" using k len unfolding length_drop by linarith
  have chosen: "rr_current r < length (ps_peer (gs0 ! (?k + length left))) \<and>
     \<not> p_down (ps_peer (gs0 ! (?k + length left)) ! rr_current r) \<and>
     x = p_addr (ps_peer (gs0 ! (?k + length left)) ! rr_current r)" if "a = Some x" for x
    using f(6) [OF that] groups_same_nth [OF same kl] kl len by (auto simp: peer_same_def)
  have notin: "(?k + length left, rr_current r) \<notin> set (rq_given q)" if "a = Some x" for x
  proof
    assume "(?k + length left, rr_current r) \<in> set (rq_given q)"
    with q have "\<not> ps_single (hd gs0)" "left = []" "tried_bit (rq_tried q) (rr_current r)"
      by (auto simp: req_ok_def)
    with f(6) [OF that] show False by simp
  qed
  have old: "k \<le> ?k + length left \<and> i < length (ps_peer (gs0 ! k)) \<and> \<not> p_down (ps_peer (gs0 ! k) ! i) \<and>
     (k = ?k + length left \<and> \<not> ps_single (hd gs0) \<longrightarrow> tried_bit (rr_tried r) i)" if "(k, i) \<in> set (rq_given q)" for k i
    using q(1) that f(4) by (fastforce simp: req_ok_def)
  have "req_ok gs0 q'"
  proof (cases a)
    case None
    with q f(3,5) kl old show ?thesis by (auto simp: req_ok_def e(2))
  next
    case (Some x)
    with q(1) f(3,5) f(6) [OF Some] kl old chosen [OF Some] notin [OF Some] show ?thesis by (auto simp: req_ok_def e(2))
  qed
  with same' show ?thesis by simp
qed

lemma req_free_ok:
  assumes wf: "groups_wf gs0" and same: "groups_same gs0 gs" and q: "req_ok gs0 q" "rq_sock q \<noteq> None"
    and c: "req_free now state gs q = (gs', q')"
  shows "groups_same gs gs' \<and> req_ok gs0 q'"
proof -
  let ?k = "rq_off q" and ?i = "rq_current q"
  have len: "length gs = length gs0" using same by (simp add: list_all2_lengthD)
  have k: "?k < length gs0" using q(1) by (simp add: req_ok_def)
  obtain g hs where d: "drop ?k gs = g # hs" "g = gs ! ?k" using k len by (metis Cons_nth_drop_Suc)
  have ne: "gs0 \<noteq> []" using k by auto
  have s: "ps_single g = ps_single (hd gs0)"
    using wf ne k groups_same_nth(1) [OF same k] by (auto simp: d(2) groups_wf_def hd_conv_nth length_Suc_conv)
  have i: "?i < length (ps_peer (gs0 ! ?k))" using q by (auto simp: req_ok_def neq_Nil_conv)
  define g' where "g' = (if ps_single g then g else g\<lparr>ps_peer := (ps_peer g)[?i := peer_freed now state (ps_peer g ! ?i)]\<rparr>)"
  have "0 \<le> p_effective (ps_peer (gs0 ! ?k) ! ?i) \<and> p_effective (ps_peer (gs0 ! ?k) ! ?i) \<le> p_weight (ps_peer (gs0 ! ?k) ! ?i)"
    using wf nth_mem [OF k] nth_mem [OF i] unfolding groups_wf_def by blast
  then have "p_weight (ps_peer (gs0 ! ?k) ! ?i) \<ge> 0" by linarith
  then have "p_weight (ps_peer g ! ?i) \<ge> 0"
    using groups_same_nth(3) [OF same k i] by (simp add: d(2) peer_same_def)
  then have "group_same g g'"
    by (simp add: g'_def group_same_def peers_update_same list.rel_refl)
  moreover have e: "gs' = take ?k gs @ g' # hs" "q' = q\<lparr>rq_tries := (if ps_single g then 0 else rq_tries q - 1), rq_sock := None\<rparr>"
    using c by (auto simp: req_free_def req_rrp_def ngx_http_upstream_free_round_robin_peer_def Let_def d(1) g'_def)
  ultimately have "groups_same (take ?k gs @ drop ?k gs) gs'"
    unfolding e(1) d(1) by (intro list_all2_appendI) simp_all
  then have "groups_same gs gs'" by simp
  moreover have "req_ok gs0 q'" using q s by (auto simp: req_ok_def e(2))
  ultimately show ?thesis by simp
qed

lemma rr_reach_inv:
  assumes wf: "groups_wf gs0" and r: "rr_reach gs0 s"
  shows "rr_inv gs0 s"
  using r
proof (induction rule: rr_reach.induct)
  case init
  then show ?case by (simp add: rr_inv_def)
next
  case (step s s')
  from step.hyps(2) step.IH show ?case
  proof (induction rule: rr_step.induct)
    case (start gs qs)
    then show ?case using req_start_ok [OF wf] by (simp add: rr_inv_def)
  next
    case (connect i qs now gs gs' q')
    then show ?case
      using req_connect_ok [OF wf, of gs "qs ! i" now gs' q'] groups_same_trans [of gs0 gs gs'] set_update_subset_insert [of qs i q']
      by (auto simp: rr_inv_def)
  next
    case (free i qs now state gs gs' q')
    then show ?case
      using req_free_ok [OF wf, of gs "qs ! i" now state gs' q'] groups_same_trans [of gs0 gs gs'] set_update_subset_insert [of qs i q']
      by (auto simp: rr_inv_def)
  qed
qed

text \<open>
  Claim C11. However the requests interleave, whatever fails and whatever the clock says: no
  peer is lost or changes its address or configured weight, and the effective weight of every
  peer stays between 0 and the configured weight.
\<close>
theorem rr_weights_bounded:
  assumes "ngx_http_upstream_init_round_robin servers = Some gs0" "\<forall>s \<in> set servers. sv_weight s > 0"
    and "rr_reach gs0 (gs, qs)"
  shows "length gs = length gs0 \<and> (\<forall>k < length gs0. length (ps_peer (gs ! k)) = length (ps_peer (gs0 ! k)) \<and>
    (\<forall>i < length (ps_peer (gs0 ! k)).
       p_addr (ps_peer (gs ! k) ! i) = p_addr (ps_peer (gs0 ! k) ! i) \<and>
       p_weight (ps_peer (gs ! k) ! i) = p_weight (ps_peer (gs0 ! k) ! i) \<and>
       0 \<le> p_effective (ps_peer (gs ! k) ! i) \<and> p_effective (ps_peer (gs ! k) ! i) \<le> p_weight (ps_peer (gs0 ! k) ! i)))"
proof -
  have wf: "groups_wf gs0" by (rule init_wf) (fact assms)+
  have same: "groups_same gs0 gs" using rr_reach_inv [OF wf assms(3)] by (simp add: rr_inv_def)
  have "p_addr (ps_peer (gs ! k) ! i) = p_addr (ps_peer (gs0 ! k) ! i) \<and>
      p_weight (ps_peer (gs ! k) ! i) = p_weight (ps_peer (gs0 ! k) ! i) \<and>
      0 \<le> p_effective (ps_peer (gs ! k) ! i) \<and> p_effective (ps_peer (gs ! k) ! i) \<le> p_weight (ps_peer (gs0 ! k) ! i)"
    if "k < length gs0" "i < length (ps_peer (gs0 ! k))" for k i
  proof -
    have "0 \<le> p_effective (ps_peer (gs0 ! k) ! i) \<and> p_effective (ps_peer (gs0 ! k) ! i) \<le> p_weight (ps_peer (gs0 ! k) ! i)"
      using wf that unfolding groups_wf_def by (meson nth_mem)
    with groups_same_nth(3) [OF same that] show ?thesis by (auto simp: peer_same_def)
  qed
  with same groups_same_nth(2) [OF same] show ?thesis by (simp add: list_all2_lengthD)
qed

text \<open>
  Claim C10. However the requests interleave: a request is given only peers of the configuration
  that are not marked down, none of them twice, so it connects at most as often as there are
  peers, backup ones included, and the address it connects to is that of the peer
  it was given last.
\<close>
theorem rr_request_peers:
  assumes "ngx_http_upstream_init_round_robin servers = Some gs0" "\<forall>s \<in> set servers. sv_weight s > 0"
    and "rr_reach gs0 (gs, qs)" "q \<in> set qs"
  shows "distinct (rq_given q) \<and>
    (\<forall>(k, i) \<in> set (rq_given q). k < length gs0 \<and> i < length (ps_peer (gs0 ! k)) \<and> \<not> p_down (ps_peer (gs0 ! k) ! i)) \<and>
    length (rq_given q) \<le> (\<Sum>k<length gs0. length (ps_peer (gs0 ! k))) \<and>
    (\<forall>x. rq_sock q = Some x \<longrightarrow> rq_given q \<noteq> [] \<and>
       x = p_addr (ps_peer (gs0 ! fst (hd (rq_given q))) ! snd (hd (rq_given q))))"
proof -
  have wf: "groups_wf gs0" by (rule init_wf) (fact assms)+
  have ok: "req_ok gs0 q" using rr_reach_inv [OF wf assms(3)] assms(4) by (simp add: rr_inv_def)
  then have r: "\<forall>(k, i) \<in> set (rq_given q). k < length gs0 \<and> i < length (ps_peer (gs0 ! k)) \<and> \<not> p_down (ps_peer (gs0 ! k) ! i)"
    by (fastforce simp: req_ok_def)
  then have "set (rq_given q) \<subseteq> (SIGMA k : {..<length gs0}. {..<length (ps_peer (gs0 ! k))})" by auto
  then have "card (set (rq_given q)) \<le> (\<Sum>k<length gs0. length (ps_peer (gs0 ! k)))"
    using card_mono [of "SIGMA k : {..<length gs0}. {..<length (ps_peer (gs0 ! k))}" "set (rq_given q)"] by simp
  with ok r show ?thesis by (auto simp: req_ok_def distinct_card)
qed

text \<open>Two servers and a backup; the first fails, the request is given the second, heavier one first.\<close>

definition three_servers :: "server list" where
  "three_servers =
     [\<lparr>sv_addrs = [11], sv_weight = 1, sv_max_fails = 1, sv_fail_timeout = 10, sv_down = False, sv_backup = False\<rparr>,
      \<lparr>sv_addrs = [12], sv_weight = 3, sv_max_fails = 1, sv_fail_timeout = 10, sv_down = False, sv_backup = False\<rparr>,
      \<lparr>sv_addrs = [13], sv_weight = 1, sv_max_fails = 1, sv_fail_timeout = 10, sv_down = False, sv_backup = True\<rparr>]"

definition three_groups :: "peers list" where
  "three_groups = the (ngx_http_upstream_init_round_robin three_servers)"

definition three_step1 :: "peers list \<times> req" where
  "three_step1 = req_connect 100 three_groups (req_start three_groups)"

definition three_step2 :: "peers list \<times> req" where
  "three_step2 = req_free 100 4 (fst three_step1) (snd three_step1)"

definition three_step3 :: "peers list \<times> req" where
  "three_step3 = req_connect 101 (fst three_step2) (snd three_step2)"

lemma three_reach: "rr_reach three_groups (fst three_step3, [snd three_step3])"
proof -
  have "rr_reach three_groups (three_groups, [req_start three_groups])" by (rule rr_reach.step [OF rr_reach.init rr_step.start])
  moreover have "rq_sock (req_start three_groups) = None" "rq_tries (req_start three_groups) > 0" by code_simp+
  ultimately have 1: "rr_reach three_groups (fst three_step1, [snd three_step1])"
    using rr_step.connect [of 0 "[req_start three_groups]" 100 three_groups "fst three_step1" "snd three_step1"]
    by (auto simp: three_step1_def intro: rr_reach.step)
  have "rq_sock (snd three_step1) \<noteq> None" by code_simp
  with 1 have 2: "rr_reach three_groups (fst three_step2, [snd three_step2])"
    using rr_step.free [of 0 "[snd three_step1]" 100 4 "fst three_step1" "fst three_step2" "snd three_step2"]
    by (auto simp: three_step2_def intro: rr_reach.step)
  have "rq_sock (snd three_step2) = None" "rq_tries (snd three_step2) > 0" by code_simp+
  with 2 show ?thesis
    using rr_step.connect [of 0 "[snd three_step2]" 101 "fst three_step2" "fst three_step3" "snd three_step3"]
    by (auto simp: three_step3_def intro: rr_reach.step)
qed

lemma three_init:
  "ngx_http_upstream_init_round_robin three_servers = Some three_groups" "\<forall>s \<in> set three_servers. sv_weight s > 0"
  by (simp_all add: three_groups_def three_servers_def ngx_http_upstream_init_round_robin_def Let_def)

lemma rr_weights_bounded_witness:
  "map (map p_effective \<circ> ps_peer) (fst three_step3) = [[1, 0], [1]] \<and> length (fst three_step3) = length three_groups"
proof
  show "map (map p_effective \<circ> ps_peer) (fst three_step3) = [[1, 0], [1]]" by code_simp
  show "length (fst three_step3) = length three_groups"
    using rr_weights_bounded [OF three_init three_reach] by simp
qed

lemma rr_request_peers_witness:
  "rq_given (snd three_step3) = [(0, 0), (0, 1)] \<and> rq_sock (snd three_step3) = Some 11 \<and>
   length (rq_given (snd three_step3)) \<le> (\<Sum>k<length three_groups. length (ps_peer (three_groups ! k)))"
proof (intro conjI)
  show "rq_given (snd three_step3) = [(0, 0), (0, 1)]" by code_simp
  show "rq_sock (snd three_step3) = Some 11" by code_simp
  show "length (rq_given (snd three_step3)) \<le> (\<Sum>k<length three_groups. length (ps_peer (three_groups ! k)))"
    using rr_request_peers [OF three_init three_reach, of "snd three_step3"] by simp
qed

section \<open>Fairness\<close>

text \<open>A peer that nothing is wrong with.\<close>

definition healthy :: "peer \<Rightarrow> bool" where
  "healthy p \<longleftrightarrow> \<not> p_down p \<and> p_fails p = 0 \<and> p_effective p = p_weight p \<and> p_weight p > 0"

lemma peer_skip_healthy: "healthy p \<Longrightarrow> \<not> tried_bit tried i \<Longrightarrow> \<not> peer_skip now tried i p"
  by (auto simp: healthy_def peer_skip_def)

abbreviation total_of :: "peer list \<Rightarrow> int" where
  "total_of ps \<equiv> (\<Sum>j<length ps. p_weight (ps ! j))"

text \<open>One choice: the weights go up by the configured ones, and the chosen peer pays the total.\<close>

lemma choose_healthy:
  assumes healthy: "\<forall>p \<in> set ps. healthy p" "ps \<noteq> []" and tried: "\<forall>i < length ps. \<not> tried_bit tried i"
    and bal: "(\<Sum>j<length ps. p_current (ps ! j)) = 0" "\<forall>j < length ps. p_current (ps ! j) > - total_of ps"
  shows "\<exists>ps' i. ngx_http_upstream_get_peer now tried ps = (ps', Some (i, tried_set tried i)) \<and> i < length ps \<and>
    length ps' = length ps \<and> (\<forall>p \<in> set ps'. healthy p) \<and> (\<forall>j < length ps. p_weight (ps' ! j) = p_weight (ps ! j)) \<and>
    (\<forall>j < length ps. p_current (ps' ! j) = p_current (ps ! j) + p_weight (ps ! j) - (if j = i then total_of ps else 0)) \<and>
    (\<Sum>j<length ps. p_current (ps' ! j)) = 0 \<and> (\<forall>j < length ps. p_current (ps' ! j) > - total_of ps)"
proof -
  let ?n = "length ps"
  obtain ps1 t b where l: "gp_loop now tried 0 ps 0 None = (ps1, t, b)" by (metis surj_pair)
  have no: "\<not> peer_skip now tried (0 + j) (ps ! j)" if "j < ?n" for j
    using that healthy tried by (intro peer_skip_healthy) simp_all
  note eq = gp_loop_eq [OF l]
  have ps1: "length ps1 = ?n" "\<And>j. j < ?n \<Longrightarrow> ps1 ! j = peer_weigh (ps ! j)" using eq no by auto
  have t: "t = total_of ps"
  proof -
    have "t = (\<Sum>j<?n. p_effective (ps ! j))" using eq no by simp
    also have "\<dots> = total_of ps" using healthy(1) by (intro sum.cong) (auto simp: healthy_def)
    finally show ?thesis .
  qed
  obtain i cw where b: "b = Some (i, cw)" using eq no healthy(2) by (cases b) fastforce+
  note best = gp_loop_best [OF l [unfolded b]]
  then have i: "i < ?n" "cw = p_current (ps1 ! i)" by auto
  have max: "\<forall>j < ?n. p_current (ps1 ! j) \<le> cw" using best no by auto
  have cur: "p_current (ps1 ! j) = p_current (ps ! j) + p_weight (ps ! j)" if "j < ?n" for j
    using ps1(2) [OF that] healthy(1) that by (simp add: peer_weigh_def healthy_def)
  have sum1: "(\<Sum>j<?n. p_current (ps1 ! j)) = total_of ps"
    using bal(1) by (simp add: cur sum.distrib)
  have pos: "0 < total_of ps"
    using healthy by (intro sum_pos) (auto simp: healthy_def)
  have "cw > 0"
  proof (rule ccontr)
    assume "\<not> cw > 0"
    with max have "\<forall>j \<in> {..<?n}. p_current (ps1 ! j) \<le> 0" by fastforce
    then have "(\<Sum>j<?n. p_current (ps1 ! j)) \<le> 0" by (intro sum_nonpos) simp
    with sum1 pos show False by simp
  qed
  define ps' where "ps' = ps1[i := peer_chosen now t (ps1 ! i)]"
  have g: "ngx_http_upstream_get_peer now tried ps = (ps', Some (i, tried_set tried i))"
    by (simp add: ngx_http_upstream_get_peer_def l b ps'_def)
  have nth: "ps' ! j = (if j = i then peer_chosen now t (peer_weigh (ps ! j)) else peer_weigh (ps ! j))" if "j < ?n" for j
    using that ps1 i by (simp add: ps'_def nth_list_update)
  have len: "length ps' = ?n" by (simp add: ps'_def ps1)
  have h: "\<forall>p \<in> set ps'. healthy p"
  proof
    fix p assume "p \<in> set ps'"
    then obtain j where j: "j < ?n" "p = ps' ! j" using len by (auto simp: in_set_conv_nth)
    then have "healthy (ps ! j)" using healthy(1) by simp
    then show "healthy p"
      using nth [OF j(1)] by (cases "j = i") (simp_all add: j(2) healthy_def peer_weigh_def peer_chosen_def)
  qed
  have w: "\<forall>j < ?n. p_weight (ps' ! j) = p_weight (ps ! j)" by (simp add: nth peer_weigh_def peer_chosen_def)
  have c: "\<forall>j < ?n. p_current (ps' ! j) = p_current (ps ! j) + p_weight (ps ! j) - (if j = i then total_of ps else 0)"
  proof (intro allI impI)
    fix j assume j: "j < ?n"
    then have "healthy (ps ! j)" using healthy(1) by simp
    with j show "p_current (ps' ! j) = p_current (ps ! j) + p_weight (ps ! j) - (if j = i then total_of ps else 0)"
      by (cases "j = i") (simp_all add: nth t peer_weigh_def peer_chosen_def healthy_def)
  qed
  have "(\<Sum>j<?n. p_current (ps' ! j)) = (\<Sum>j<?n. p_current (ps ! j)) + total_of ps - (\<Sum>j<?n. if j = i then total_of ps else 0)"
    using c by (simp add: sum.distrib sum_subtractf)
  also have "\<dots> = 0" using bal(1) i(1) by simp
  finally have s: "(\<Sum>j<?n. p_current (ps' ! j)) = 0" .
  have "\<forall>j < ?n. p_current (ps' ! j) > - total_of ps"
  proof (intro allI impI)
    fix j assume j: "j < ?n"
    then have "p_weight (ps ! j) > 0" using healthy(1) by (simp add: healthy_def)
    with j c bal(2) i cur [OF i(1)] \<open>cw > 0\<close> show "p_current (ps' ! j) > - total_of ps" by (cases "j = i") force+
  qed
  with g i(1) len h w c s show ?thesis by blast
qed

text \<open>
  Requests one after the other, each on its own copy of \<open>rrp\<close>, each done without a failure: the
  peers they get, and the groups afterwards.
\<close>

fun requests :: "int list \<Rightarrow> peers list \<Rightarrow> nat list \<times> peers list" where
  "requests [] gs = ([], gs)"
| "requests (now # ts) gs =
     (case ngx_http_upstream_get_round_robin_peer now (ngx_http_upstream_init_round_robin_peer gs) of
        (rc, left, r, a) \<Rightarrow>
          (case requests ts (left @ rr_peers (ngx_http_upstream_free_round_robin_peer now 0 r)) of
             (picks, gs') \<Rightarrow> (rr_current r # picks, gs')))"

lemma fresh_not_tried:
  "i < n \<Longrightarrow> \<not> tried_bit (if n \<le> 64 then [0] else replicate (tried_words n) 0) i"
proof -
  assume i: "i < n"
  then have "i div 64 < tried_words n" unfolding tried_words_def by linarith
  with i show ?thesis by (auto simp: tried_bit_def)
qed

lemma request_healthy:
  assumes g: "\<not> ps_single g" "\<forall>p \<in> set (ps_peer g). healthy p" "ps_peer g \<noteq> []"
    and bal: "(\<Sum>j<length (ps_peer g). p_current (ps_peer g ! j)) = 0"
      "\<forall>j < length (ps_peer g). p_current (ps_peer g ! j) > - total_of (ps_peer g)"
  shows "\<exists>i g'. requests (now # ts) [g] = (case requests ts [g'] of (picks, gs) \<Rightarrow> (i # picks, gs)) \<and>
    \<not> ps_single g' \<and> i < length (ps_peer g) \<and> length (ps_peer g') = length (ps_peer g) \<and>
    (\<forall>p \<in> set (ps_peer g'). healthy p) \<and>
    (\<forall>j < length (ps_peer g). p_weight (ps_peer g' ! j) = p_weight (ps_peer g ! j)) \<and>
    (\<forall>j < length (ps_peer g). p_current (ps_peer g' ! j) =
       p_current (ps_peer g ! j) + p_weight (ps_peer g ! j) - (if j = i then total_of (ps_peer g) else 0)) \<and>
    (\<Sum>j<length (ps_peer g). p_current (ps_peer g' ! j)) = 0 \<and>
    (\<forall>j < length (ps_peer g). p_current (ps_peer g' ! j) > - total_of (ps_peer g))"
proof -
  let ?ps = "ps_peer g"
  let ?tried = "if length ?ps \<le> 64 then [0] else replicate (tried_words (length ?ps)) 0"
  have "\<forall>i < length ?ps. \<not> tried_bit ?tried i" using fresh_not_tried by blast
  from choose_healthy [OF g(2,3) this bal, of now] obtain ps' i where ch:
    "ngx_http_upstream_get_peer now ?tried ?ps = (ps', Some (i, tried_set ?tried i))" "i < length ?ps"
    "length ps' = length ?ps" "\<forall>p \<in> set ps'. healthy p" "\<forall>j < length ?ps. p_weight (ps' ! j) = p_weight (?ps ! j)"
    "\<forall>j < length ?ps. p_current (ps' ! j) = p_current (?ps ! j) + p_weight (?ps ! j) - (if j = i then total_of ?ps else 0)"
    "(\<Sum>j<length ?ps. p_current (ps' ! j)) = 0" "\<forall>j < length ?ps. p_current (ps' ! j) > - total_of ?ps"
    by blast
  define ps2 where "ps2 = ps'[i := peer_freed now 0 (ps' ! i)]"
  define g' where "g' = g\<lparr>ps_peer := ps2\<rparr>"
  have f: "peer_freed now 0 p = p" if "healthy p" for p
    using that by (cases p) (simp add: peer_freed_def healthy_def)
  have "ps2 = ps'" unfolding ps2_def using f ch(2-4) by simp
  moreover have "requests (now # ts) [g] = (case requests ts [g'] of (picks, gs) \<Rightarrow> (i # picks, gs))"
    using ch(1) g(1)
    by (simp add: ngx_http_upstream_get_round_robin_peer_def ngx_http_upstream_init_round_robin_peer_def
        ngx_http_upstream_free_round_robin_peer_def g'_def ps2_def Let_def)
  ultimately show ?thesis using ch g(1) by (intro exI [of _ i] exI [of _ g']) (simp add: g'_def)
qed

lemma requests_healthy:
  assumes "\<not> ps_single g" "\<forall>p \<in> set (ps_peer g). healthy p" "ps_peer g \<noteq> []"
    and "(\<Sum>j<length (ps_peer g). p_current (ps_peer g ! j)) = 0"
      "\<forall>j < length (ps_peer g). p_current (ps_peer g ! j) > - total_of (ps_peer g)"
  shows "\<exists>picks g'. requests ts [g] = (picks, [g']) \<and> length picks = length ts \<and> (\<forall>i \<in> set picks. i < length (ps_peer g)) \<and>
    length (ps_peer g') = length (ps_peer g) \<and> (\<forall>p \<in> set (ps_peer g'). healthy p) \<and>
    (\<forall>j < length (ps_peer g). p_current (ps_peer g' ! j) = p_current (ps_peer g ! j) +
       int (length ts) * p_weight (ps_peer g ! j) - int (count_list picks j) * total_of (ps_peer g)) \<and>
    (\<forall>j < length (ps_peer g). p_current (ps_peer g' ! j) > - total_of (ps_peer g))"
  using assms
proof (induction ts arbitrary: g)
  case Nil
  then show ?case by (intro exI [of _ "[]"] exI [of _ g]) simp
next
  case (Cons now ts)
  from request_healthy [OF Cons.prems, of now ts] obtain i g1 where g1:
    "requests (now # ts) [g] = (case requests ts [g1] of (picks, gs) \<Rightarrow> (i # picks, gs))"
    "\<not> ps_single g1" "i < length (ps_peer g)" "length (ps_peer g1) = length (ps_peer g)"
    "\<forall>p \<in> set (ps_peer g1). healthy p" "\<forall>j < length (ps_peer g). p_weight (ps_peer g1 ! j) = p_weight (ps_peer g ! j)"
    "\<forall>j < length (ps_peer g). p_current (ps_peer g1 ! j) =
       p_current (ps_peer g ! j) + p_weight (ps_peer g ! j) - (if j = i then total_of (ps_peer g) else 0)"
    "(\<Sum>j<length (ps_peer g). p_current (ps_peer g1 ! j)) = 0"
    "\<forall>j < length (ps_peer g). p_current (ps_peer g1 ! j) > - total_of (ps_peer g)"
    by blast
  have t: "total_of (ps_peer g1) = total_of (ps_peer g)" using g1(4,6) by simp
  have ne: "ps_peer g1 \<noteq> []" using g1(3,4) by auto
  from Cons.IH [OF g1(2,5) ne] g1(4,8,9) t obtain picks g2 where r:
    "requests ts [g1] = (picks, [g2])" "length picks = length ts" "\<forall>i \<in> set picks. i < length (ps_peer g)"
    "length (ps_peer g2) = length (ps_peer g)" "\<forall>p \<in> set (ps_peer g2). healthy p"
    "\<forall>j < length (ps_peer g). p_current (ps_peer g2 ! j) = p_current (ps_peer g1 ! j) +
       int (length ts) * p_weight (ps_peer g1 ! j) - int (count_list picks j) * total_of (ps_peer g)"
    "\<forall>j < length (ps_peer g). p_current (ps_peer g2 ! j) > - total_of (ps_peer g)"
    by auto
  have "\<forall>j < length (ps_peer g). p_current (ps_peer g2 ! j) = p_current (ps_peer g ! j) +
       int (length (now # ts)) * p_weight (ps_peer g ! j) - int (count_list (i # picks) j) * total_of (ps_peer g)"
    using r(6) g1(6,7) by (auto simp: algebra_simps)
  with g1(1,3) r show ?case by (intro exI [of _ "i # picks"] exI [of _ g2]) simp
qed

text \<open>
  Claim C9. Fairness: while nothing fails, as many requests as the total weight give every peer
  exactly as many requests as its weight, whatever the clock says, and leave the balance where
  it was.
\<close>
theorem round_robin_fair:
  assumes "\<not> ps_single g" "ps_peer g \<noteq> []" "\<forall>p \<in> set (ps_peer g). healthy p \<and> p_current p = 0"
    and "int (length ts) = total_of (ps_peer g)"
  shows "\<exists>picks g'. requests ts [g] = (picks, [g']) \<and>
    (\<forall>j < length (ps_peer g). int (count_list picks j) = p_weight (ps_peer g ! j)) \<and>
    length (ps_peer g') = length (ps_peer g) \<and> (\<forall>p \<in> set (ps_peer g'). healthy p \<and> p_current p = 0)"
proof -
  let ?n = "length (ps_peer g)" and ?W = "total_of (ps_peer g)"
  have pos: "0 < ?W" using assms(2,3) by (intro sum_pos) (auto simp: healthy_def)
  have zero: "p_current (ps_peer g ! j) = 0" if "j < ?n" for j using assms(3) that by simp
  obtain picks g' where r: "requests ts [g] = (picks, [g'])" "length picks = length ts" "\<forall>i \<in> set picks. i < ?n"
    "length (ps_peer g') = ?n" "\<forall>p \<in> set (ps_peer g'). healthy p"
    "\<forall>j < ?n. p_current (ps_peer g' ! j) = ?W * p_weight (ps_peer g ! j) - int (count_list picks j) * ?W"
    "\<forall>j < ?n. p_current (ps_peer g' ! j) > - ?W"
    using requests_healthy [of g ts] assms zero pos by auto
  have le: "int (count_list picks j) \<le> p_weight (ps_peer g ! j)" if "j < ?n" for j
  proof (rule ccontr)
    assume "\<not> int (count_list picks j) \<le> p_weight (ps_peer g ! j)"
    then have "p_weight (ps_peer g ! j) - int (count_list picks j) \<le> -1" by simp
    then have "?W * (p_weight (ps_peer g ! j) - int (count_list picks j)) \<le> ?W * -1"
      by (rule mult_left_mono) (use pos in simp)
    moreover have "?W * (p_weight (ps_peer g ! j) - int (count_list picks j)) = p_current (ps_peer g' ! j)"
      using r(6) that by (simp add: left_diff_distrib right_diff_distrib mult.commute)
    ultimately have "p_current (ps_peer g' ! j) \<le> - ?W" by simp
    with r(7) that show False by (simp add: not_less [symmetric])
  qed
  have "(\<Sum>j<?n. int (count_list picks j)) = int (length picks)"
  proof -
    have "(\<Sum>j \<in> {..<?n}. count_list picks j) = length picks"
      using r(3) by (subst sum_count_set) auto
    then show ?thesis by (metis of_nat_sum)
  qed
  then have sum: "(\<Sum>j<?n. p_weight (ps_peer g ! j) - int (count_list picks j)) = 0"
    using r(2) assms(4) by (simp add: sum_subtractf)
  have eq: "p_weight (ps_peer g ! j) - int (count_list picks j) = 0" if "j < ?n" for j
    using sum_nonneg_eq_0_iff [of "{..<?n}" "\<lambda>j. p_weight (ps_peer g ! j) - int (count_list picks j)"] sum le that by simp
  have "p_current (ps_peer g' ! j) = 0" if "j < ?n" for j
  proof -
    from r(6) that have "p_current (ps_peer g' ! j) = ?W * p_weight (ps_peer g ! j) - int (count_list picks j) * ?W" by blast
    also have "\<dots> = ?W * (p_weight (ps_peer g ! j) - int (count_list picks j))" by (simp add: left_diff_distrib right_diff_distrib mult.commute)
    finally show ?thesis using eq [OF that] by simp
  qed
  with r(4,5) have "\<forall>p \<in> set (ps_peer g'). healthy p \<and> p_current p = 0" by (auto simp: in_set_conv_nth)
  with r(1,4) eq show ?thesis by (intro exI [of _ picks] exI [of _ g']) simp
qed

definition five_one_one :: peers where
  "five_one_one = server_group
     [\<lparr>sv_addrs = [1], sv_weight = 5, sv_max_fails = 1, sv_fail_timeout = 10, sv_down = False, sv_backup = False\<rparr>,
      \<lparr>sv_addrs = [2, 3], sv_weight = 1, sv_max_fails = 1, sv_fail_timeout = 10, sv_down = False, sv_backup = False\<rparr>] False"

lemma round_robin_fair_witness:
  "fst (requests [5, 5, 6, 7, 8, 8, 9] [five_one_one]) = [0, 0, 1, 0, 2, 0, 0] \<and>
   (\<exists>picks g'. requests [5, 5, 6, 7, 8, 8, 9] [five_one_one] = (picks, [g']) \<and> int (count_list picks 0) = 5)"
proof
  show "fst (requests [5, 5, 6, 7, 8, 8, 9] [five_one_one]) = [0, 0, 1, 0, 2, 0, 0]" by code_simp
  have "\<not> ps_single five_one_one" "ps_peer five_one_one \<noteq> []"
    "\<forall>p \<in> set (ps_peer five_one_one). healthy p \<and> p_current p = 0"
    "int (length [5, 5, 6, 7, 8, 8, 9 :: int]) = total_of (ps_peer five_one_one)"
    "length (ps_peer five_one_one) = 3" "p_weight (ps_peer five_one_one ! 0) = 5"
    by code_simp+
  with round_robin_fair [of five_one_one "[5, 5, 6, 7, 8, 8, 9]"]
  show "\<exists>picks g'. requests [5, 5, 6, 7, 8, 8, 9] [five_one_one] = (picks, [g']) \<and> int (count_list picks 0) = 5"
    by (metis zero_less_numeral)
qed

end
