(* ===== verification/HttpUri.thy ===== *)
theory HttpUri
  imports HttpLine NgxEscape
begin

unbundle bit_operations_syntax

text \<open>
  The URI functions of src/http/ngx_http_parse.c behind the request line: \<open>ngx_http_parse_uri\<close>,
  \<open>ngx_http_parse_complex_uri\<close> and \<open>ngx_http_parse_unsafe_uri\<close>. The URI is the first \<open>n\<close> bytes of the memory \<open>d\<close> from \<open>uri_start\<close> on; positions are offsets into it. What
  is written is the list of the bytes from \<open>uri.data\<close> up to \<open>u\<close>.
\<close>

section \<open>ngx_http_parse_complex_uri\<close>

text \<open>
  The states; \<open>quoted_state\<close> only ever holds one of the four that \<open>cu_at\<close> embeds. The fields of the
  request are \<open>cu_exten\<close> (\<open>uri_ext\<close>, an offset into the output), \<open>plus_in_uri\<close> and \<open>quoted_uri\<close>.
\<close>

datatype cu_base = cu_usual | cu_slash | cu_dot | cu_dot_dot
datatype cu_state = cu_at cu_base | cu_quoted | cu_quoted_second

record cu =
  cu_st :: cu_state
  cu_quoted_st :: cu_base
  cu_decoded :: byte
  cu_u :: "byte list"
  cu_exten :: "nat option"
  cu_plus :: bool
  cu_quoted_uri :: bool

text \<open>How the body of the loop is left: with \<open>ch = *p++\<close>, with the same \<open>p\<close>, or by a jump.\<close>

datatype cu_act = cu_next cu | cu_again byte cu | cu_goto_args cu | cu_goto_done cu | cu_invalid

abbreviation cu_put :: "byte \<Rightarrow> cu \<Rightarrow> cu" where
  "cu_put ch s \<equiv> s\<lparr>cu_u := cu_u s @ [ch]\<rparr>"

definition cu_usual_step :: "byte \<Rightarrow> cu \<Rightarrow> cu_act" where
  "cu_usual_step ch s =
     (if bitmap_test usual ch then cu_next (cu_put ch s)
      else if ch = asc CHR ''/'' then cu_next (cu_put ch (s\<lparr>cu_exten := None, cu_st := cu_at cu_slash\<rparr>))
      else if ch = asc CHR ''%'' then cu_next (s\<lparr>cu_quoted_st := cu_usual, cu_st := cu_quoted\<rparr>)
      else if ch = asc CHR ''?'' then cu_goto_args s
      else if ch = asc CHR ''#'' then cu_goto_done s
      else if ch = asc CHR ''.'' then cu_next (cu_put ch (s\<lparr>cu_exten := Some (length (cu_u s) + 1)\<rparr>))
      else if ch = asc CHR ''+'' then cu_next (cu_put ch (s\<lparr>cu_plus := True\<rparr>))
      else cu_next (cu_put ch s))"

definition cu_slash_step :: "bool \<Rightarrow> byte \<Rightarrow> cu \<Rightarrow> cu_act" where
  "cu_slash_step merge_slashes ch s =
     (if bitmap_test usual ch then cu_next (cu_put ch (s\<lparr>cu_st := cu_at cu_usual\<rparr>))
      else if ch = asc CHR ''/'' then cu_next (if merge_slashes then s else cu_put ch s)
      else if ch = asc CHR ''.'' then cu_next (cu_put ch (s\<lparr>cu_st := cu_at cu_dot\<rparr>))
      else if ch = asc CHR ''%'' then cu_next (s\<lparr>cu_quoted_st := cu_slash, cu_st := cu_quoted\<rparr>)
      else if ch = asc CHR ''?'' then cu_goto_args s
      else if ch = asc CHR ''#'' then cu_goto_done s
      else if ch = asc CHR ''+'' then cu_next (cu_put ch (s\<lparr>cu_plus := True, cu_st := cu_at cu_usual\<rparr>))
      else cu_next (cu_put ch (s\<lparr>cu_st := cu_at cu_usual\<rparr>)))"

definition cu_dot_step :: "byte \<Rightarrow> cu \<Rightarrow> cu_act" where
  "cu_dot_step ch s =
     (if bitmap_test usual ch then cu_next (cu_put ch (s\<lparr>cu_st := cu_at cu_usual\<rparr>))
      else if ch = asc CHR ''/'' then cu_next (s\<lparr>cu_u := butlast (cu_u s), cu_st := cu_at cu_slash\<rparr>)
      else if ch = asc CHR ''.'' then cu_next (cu_put ch (s\<lparr>cu_st := cu_at cu_dot_dot\<rparr>))
      else if ch = asc CHR ''%'' then cu_next (s\<lparr>cu_quoted_st := cu_dot, cu_st := cu_quoted\<rparr>)
      else if ch = asc CHR ''?'' then cu_goto_args s
      else if ch = asc CHR ''#'' then cu_goto_done s
      else if ch = asc CHR ''+'' then cu_next (cu_put ch (s\<lparr>cu_plus := True, cu_st := cu_at cu_usual\<rparr>))
      else cu_next (cu_put ch (s\<lparr>cu_st := cu_at cu_usual\<rparr>)))"

text \<open>The search back from \<open>u\<close> for a slash; below \<open>uri.data\<close> the request is invalid.\<close>

function cu_back :: "byte list \<Rightarrow> int \<Rightarrow> byte list option" where
  "cu_back data u =
     (if u < 0 then None
      else if data ! nat u = asc CHR ''/'' then Some (take (nat u + 1) data)
      else cu_back data (u - 1))"
  by pat_completeness auto
termination
  by (relation "measure (\<lambda>(data, u). nat (u + 1))") auto

declare cu_back.simps [simp del]

definition cu_dot_dot_step :: "byte \<Rightarrow> cu \<Rightarrow> cu_act" where
  "cu_dot_dot_step ch s =
     (if bitmap_test usual ch then cu_next (cu_put ch (s\<lparr>cu_st := cu_at cu_usual\<rparr>))
      else if ch = asc CHR ''/'' then
        (case cu_back (cu_u s) (int (length (cu_u s)) - 5) of
           None \<Rightarrow> cu_invalid
         | Some u \<Rightarrow> cu_next (s\<lparr>cu_u := u, cu_st := cu_at cu_slash\<rparr>))
      else if ch = asc CHR ''%'' then cu_next (s\<lparr>cu_quoted_st := cu_dot_dot, cu_st := cu_quoted\<rparr>)
      else if ch = asc CHR ''?'' then cu_goto_args s
      else if ch = asc CHR ''#'' then cu_goto_done s
      else if ch = asc CHR ''+'' then cu_next (cu_put ch (s\<lparr>cu_plus := True, cu_st := cu_at cu_usual\<rparr>))
      else cu_next (cu_put ch (s\<lparr>cu_st := cu_at cu_usual\<rparr>)))"

definition cu_quoted_step :: "byte \<Rightarrow> cu \<Rightarrow> cu_act" where
  "cu_quoted_step ch s =
     (let s = s\<lparr>cu_quoted_uri := True\<rparr> in
      if asc CHR ''0'' \<le> ch \<and> ch \<le> asc CHR ''9'' then
        cu_next (s\<lparr>cu_decoded := ch - asc CHR ''0'', cu_st := cu_quoted_second\<rparr>)
      else let c = ch OR 0x20 in
        if asc CHR ''a'' \<le> c \<and> c \<le> asc CHR ''f'' then
          cu_next (s\<lparr>cu_decoded := c - asc CHR ''a'' + 10, cu_st := cu_quoted_second\<rparr>)
        else cu_invalid)"

definition cu_quoted_second_step :: "byte \<Rightarrow> cu \<Rightarrow> cu_act" where
  "cu_quoted_second_step ch s =
     (if asc CHR ''0'' \<le> ch \<and> ch \<le> asc CHR ''9'' then
        (let ch = push_bit 4 (cu_decoded s) + ch - asc CHR ''0'' in
         if ch = asc CHR ''%'' \<or> ch = asc CHR ''#'' then cu_next (cu_put ch (s\<lparr>cu_st := cu_at cu_usual\<rparr>))
         else if ch = NUL then cu_invalid
         else cu_again ch (s\<lparr>cu_st := cu_at (cu_quoted_st s)\<rparr>))
      else let c = ch OR 0x20 in
        if asc CHR ''a'' \<le> c \<and> c \<le> asc CHR ''f'' then
          (let ch = push_bit 4 (cu_decoded s) + c - asc CHR ''a'' + 10 in
           if ch = asc CHR ''?'' then cu_next (cu_put ch (s\<lparr>cu_st := cu_at cu_usual\<rparr>))
           else if ch = asc CHR ''+'' then
             cu_again ch (s\<lparr>cu_plus := True, cu_st := cu_at (cu_quoted_st s)\<rparr>)
           else cu_again ch (s\<lparr>cu_st := cu_at (cu_quoted_st s)\<rparr>))
        else cu_invalid)"

definition cu_step :: "bool \<Rightarrow> byte \<Rightarrow> cu \<Rightarrow> cu_act" where
  "cu_step merge_slashes ch s = (case cu_st s of
     cu_at cu_usual \<Rightarrow> cu_usual_step ch s
   | cu_at cu_slash \<Rightarrow> cu_slash_step merge_slashes ch s
   | cu_at cu_dot \<Rightarrow> cu_dot_step ch s
   | cu_at cu_dot_dot \<Rightarrow> cu_dot_dot_step ch s
   | cu_quoted \<Rightarrow> cu_quoted_step ch s
   | cu_quoted_second \<Rightarrow> cu_quoted_second_step ch s)"

text \<open>
  What is returned: the path, the extension, \<open>args_start\<close> if it is still set, \<open>args\<close> if they are
  set, and the flags. The memory is one byte longer than the URI; a read behind it is \<open>None\<close>.
\<close>

datatype cu_result =
    cu_ok "byte list" "byte list option" "nat option" "byte list option" bool bool
  | cu_invalid_request

definition cu_finish :: "cu \<Rightarrow> nat option \<Rightarrow> byte list option \<Rightarrow> cu_result" where
  "cu_finish s astart args =
     cu_ok (cu_u s) (map_option (\<lambda>e. drop e (cu_u s)) (cu_exten s)) astart args (cu_plus s) (cu_quoted_uri s)"

function cu_args_loop :: "byte list \<Rightarrow> nat \<Rightarrow> nat \<Rightarrow> nat \<Rightarrow> nat option \<times> byte list option" where
  "cu_args_loop d n start p =
     (if p < n then
        (if d ! p \<noteq> asc CHR ''#'' then cu_args_loop d n start (Suc p)
         else (None, Some (seg start p d)))
      else (Some start, None))"
  by pat_completeness auto
termination
  by (relation "measure (\<lambda>(d, n, a, p). n - p)") auto

declare cu_args_loop.simps [simp del]

lemma cu_again_at: "cu_step m ch s = cu_again c s' \<Longrightarrow> cu_st s = cu_quoted_second \<and> cu_st s' \<noteq> cu_quoted_second"
  by (auto simp: cu_step_def cu_usual_step_def cu_slash_step_def cu_dot_step_def cu_dot_dot_step_def
      cu_quoted_step_def cu_quoted_second_step_def Let_def
      split: cu_state.splits cu_base.splits if_splits option.splits)

function cu_loop :: "bool \<Rightarrow> byte list \<Rightarrow> nat \<Rightarrow> nat \<Rightarrow> byte \<Rightarrow> cu \<Rightarrow> cu_result option" where
  "cu_loop merge_slashes d n p ch s =
     (if p \<le> n then
        (case cu_step merge_slashes ch s of
           cu_next s' \<Rightarrow>
             (case rd d p of None \<Rightarrow> None | Some ch' \<Rightarrow> cu_loop merge_slashes d n (Suc p) ch' s')
         | cu_again ch' s' \<Rightarrow> cu_loop merge_slashes d n p ch' s'
         | cu_goto_args s' \<Rightarrow>
             (case cu_args_loop d n p p of (astart, args) \<Rightarrow> Some (cu_finish s' astart args))
         | cu_goto_done s' \<Rightarrow> Some (cu_finish s' None None)
         | cu_invalid \<Rightarrow> Some cu_invalid_request)
      else Some (cu_finish s None None))"
  by pat_completeness auto
termination
  by (relation "measure (\<lambda>(m, d, n, p, ch, s). 2 * (Suc n - p) + (if cu_st s = cu_quoted_second then 1 else 0))")
    (auto dest!: cu_again_at)

declare cu_loop.simps [simp del]

definition ngx_http_parse_complex_uri :: "bool \<Rightarrow> byte list \<Rightarrow> nat \<Rightarrow> bool \<Rightarrow> bool \<Rightarrow> cu_result option" where
  "ngx_http_parse_complex_uri merge_slashes d n plus0 quoted0 =
     (case rd d 0 of
        None \<Rightarrow> None
      | Some ch \<Rightarrow> cu_loop merge_slashes d n 1 ch
          \<lparr>cu_st = cu_at cu_usual, cu_quoted_st = cu_usual, cu_decoded = 0, cu_u = [], cu_exten = None,
           cu_plus = plus0, cu_quoted_uri = quoted0\<rparr>)"

section \<open>The reference: decode, then resolve the segments\<close>

text \<open>
  A URI is first taken apart into its bytes, those that were escaped among them; an escaped
  percent sign, hash or question mark is only ever a literal. \<open>p\<close> is the position of the next byte.
\<close>

definition is_hex :: "byte \<Rightarrow> bool" where
  "is_hex c \<longleftrightarrow> is_digit c \<or> is_hex_letter c"

datatype uri_item = raw byte | lit byte
datatype uri_tail = t_end | t_hash | t_args nat | t_bad

definition pct_byte :: "byte \<Rightarrow> byte \<Rightarrow> byte" where
  "pct_byte a b = of_nat (16 * hval a + hval b)"

definition literal :: "byte \<Rightarrow> bool" where
  "literal c \<longleftrightarrow> c = asc CHR ''%'' \<or> c = asc CHR ''#'' \<or> c = asc CHR ''?''"

fun pct :: "nat \<Rightarrow> byte list \<Rightarrow> uri_item list \<times> uri_tail" where
  "pct p [] = ([], t_end)"
| "pct p (c # w) =
     (if c = asc CHR ''?'' then ([], t_args (p + 1))
      else if c = asc CHR ''#'' then ([], t_hash)
      else if c = asc CHR ''%'' then
        (case w of
           [] \<Rightarrow> ([], t_end)
         | [a] \<Rightarrow> ([], if is_hex a then t_end else t_bad)
         | a # b # w' \<Rightarrow>
             if \<not> is_hex a \<or> \<not> is_hex b \<or> pct_byte a b = NUL then ([], t_bad)
             else apfst (Cons (if literal (pct_byte a b) then lit (pct_byte a b) else raw (pct_byte a b)))
               (pct (p + 3) w'))
      else apfst (Cons (raw c)) (pct (p + 1) w))"

text \<open>
  The segments before the last slash, the bytes behind it, and where in these the extension
  starts. A segment \<open>..\<close> takes the one before it away; if that one is empty, which only happens
  when slashes are not merged, the one before that goes too.
\<close>

type_synonym segs = "byte list list \<times> byte list \<times> nat option"

definition dots :: "byte list \<Rightarrow> bool" where
  "dots cur \<longleftrightarrow> cur \<in> {[], bytes ''.'', bytes ''..''}"

definition pop :: "byte list list \<Rightarrow> byte list list option" where
  "pop ss =
     (if ss = [] then None
      else if last ss \<noteq> [] then Some (butlast ss)
      else if butlast ss = [] then None else Some (butlast (butlast ss)))"

fun seg_step :: "bool \<Rightarrow> uri_item \<Rightarrow> segs \<Rightarrow> segs option" where
  "seg_step merge (lit c) (ss, cur, e) = Some (ss, cur @ [c], e)"
| "seg_step merge (raw c) (ss, cur, e) =
     (if c \<noteq> asc CHR ''/'' then
        Some (ss, cur @ [c], if c = asc CHR ''.'' \<and> \<not> dots cur then Some (length cur + 1) else e)
      else if cur = [] then Some (if merge then ss else ss @ [[]], [], None)
      else if cur = bytes ''.'' then Some (ss, [], None)
      else if cur = bytes ''..'' then map_option (\<lambda>ss. (ss, [], None)) (pop ss)
      else Some (ss @ [cur], [], None))"

fun seg_run :: "bool \<Rightarrow> uri_item list \<Rightarrow> segs \<Rightarrow> segs option" where
  "seg_run merge [] x = Some x"
| "seg_run merge (i # is) x = do { x' \<leftarrow> seg_step merge i x; seg_run merge is x' }"

definition render_segs :: "byte list list \<Rightarrow> byte list \<Rightarrow> byte list" where
  "render_segs ss cur = asc CHR ''/'' # concat (map (\<lambda>s. s @ [asc CHR ''/'']) ss) @ cur"

text \<open>The arguments: up to a hash, in which case they are set, or left to the caller.\<close>

definition args_of :: "byte list \<Rightarrow> nat \<Rightarrow> nat \<Rightarrow> nat option \<times> byte list option" where
  "args_of d n a =
     (let w = seg a n d in
      if asc CHR ''#'' \<in> set w then (None, Some (takeWhile (\<lambda>c. c \<noteq> asc CHR ''#'') w)) else (Some a, None))"

definition uri_ref ::
  "bool \<Rightarrow> byte list \<Rightarrow> nat \<Rightarrow> uri_item list \<times> uri_tail \<Rightarrow> segs \<Rightarrow> bool \<Rightarrow> bool \<Rightarrow> cu_result" where
  "uri_ref merge d n it x plus0 q =
     (case seg_run merge (fst it) x of
        None \<Rightarrow> cu_invalid_request
      | Some (ss, cur, e) \<Rightarrow>
          (case snd it of
             t_bad \<Rightarrow> cu_invalid_request
           | t \<Rightarrow> (case (case t of t_args a \<Rightarrow> args_of d n a | _ \<Rightarrow> (None, None)) of (astart, args) \<Rightarrow>
               cu_ok (render_segs ss cur) (map_option (\<lambda>k. drop k cur) e) astart args
                 (plus0 \<or> raw (asc CHR ''+'') \<in> set (fst it)) q)))"

subsection \<open>The state of the parser and the segments\<close>

definition st_of :: "byte list \<Rightarrow> cu_base" where
  "st_of cur = (if cur = [] then cu_slash else if cur = bytes ''.'' then cu_dot
     else if cur = bytes ''..'' then cu_dot_dot else cu_usual)"

definition cu_rel :: "cu \<Rightarrow> segs \<Rightarrow> bool" where
  "cu_rel s x \<longleftrightarrow> (case x of (ss, cur, e) \<Rightarrow>
     cu_u s = render_segs ss cur \<and>
     cu_exten s = map_option (\<lambda>k. length (render_segs ss []) + k) e \<and>
     (dots cur \<longrightarrow> e = None) \<and>
     (\<forall>x \<in> set ss. asc CHR ''/'' \<notin> set x) \<and> asc CHR ''/'' \<notin> set cur)"

lemma render_snoc: "render_segs ss cur @ [c] = render_segs ss (cur @ [c])"
  by (simp add: render_segs_def)

lemma render_slash: "render_segs ss (cur @ [asc CHR ''/'']) = render_segs (ss @ [cur]) []"
  by (simp add: render_segs_def)

lemma length_render: "length (render_segs ss cur) = length (render_segs ss []) + length cur"
  by (simp add: render_segs_def)

lemma seg_split: "i \<le> p \<Longrightarrow> p \<le> j \<Longrightarrow> seg i j d = seg i p d @ seg p j d"
proof -
  assume "i \<le> p" "p \<le> j"
  then have "j - i = (p - i) + (j - p)" "p = (p - i) + i" by simp_all
  then show ?thesis unfolding seg_def by (metis drop_drop take_add)
qed

lemma seg_Cons: "p < j \<Longrightarrow> j \<le> length d \<Longrightarrow> seg p j d = d ! p # seg (Suc p) j d"
  by (simp add: seg_def Cons_nth_drop_Suc [symmetric] Suc_diff_Suc [symmetric])

lemma args_loop_of:
  "a \<le> p \<Longrightarrow> p \<le> n \<Longrightarrow> n \<le> length d \<Longrightarrow> asc CHR ''#'' \<notin> set (seg a p d) \<Longrightarrow>
     cu_args_loop d n a p = args_of d n a"
proof (induction "n - p" arbitrary: p)
  case 0
  then have "p = n" by simp
  with 0 show ?case by (simp add: cu_args_loop.simps [of d n a n] args_of_def)
next
  case (Suc k)
  then have p: "p < n" by simp
  have sp: "seg a n d = seg a p d @ d ! p # seg (Suc p) n d"
    using Suc.prems p seg_split [of a p n d] by (simp only: seg_Cons)
  show ?case
  proof (cases "d ! p = asc CHR ''#''")
    case False
    have "cu_args_loop d n a p = cu_args_loop d n a (Suc p)"
      using False p by (simp add: cu_args_loop.simps [of d n a p])
    moreover have "asc CHR ''#'' \<notin> set (seg a (Suc p) d)"
      using Suc.prems p False by (simp add: seg_Suc)
    ultimately show ?thesis using Suc.hyps Suc.prems p by simp
  next
    case True
    have "\<forall>x \<in> set (seg a p d). x \<noteq> asc CHR ''#''" using Suc.prems by blast
    then have "takeWhile (\<lambda>c. c \<noteq> asc CHR ''#'') (seg a n d) = seg a p d"
      unfolding sp True by (simp add: takeWhile_append2)
    moreover have "asc CHR ''#'' \<in> set (seg a n d)" unfolding sp True by simp
    moreover have "cu_args_loop d n a p = (None, Some (seg a p d))"
      using p True by (simp add: cu_args_loop.simps [of d n a p])
    ultimately show ?thesis by (simp only: args_of_def Let_def if_True)
  qed
qed

lemma back_run:
  assumes "asc CHR ''/'' \<notin> set y"
  shows "k \<le> length y \<Longrightarrow> cu_back (a @ asc CHR ''/'' # y @ rest) (int (length a + k)) = Some (a @ [asc CHR ''/''])"
proof (induction k)
  case 0
  then show ?case by (simp add: cu_back.simps [of _ "int (length a)"])
next
  case (Suc k)
  let ?d = "a @ asc CHR ''/'' # y @ rest"
  have "?d ! (length a + Suc k) = y ! k" using Suc.prems by (simp add: nth_append)
  moreover have "y ! k \<noteq> asc CHR ''/''" using Suc.prems assms by (metis nth_mem Suc_le_eq)
  ultimately have "cu_back ?d (int (length a + Suc k)) = cu_back ?d (int (length a + Suc k) - 1)"
    by (subst cu_back.simps) (simp only: nat_int if_False of_nat_less_0_iff)
  also have "int (length a + Suc k) - 1 = int (length a + k)" by simp
  finally show ?case using Suc by simp
qed

lemma render_last: "\<exists>a. render_segs ss [] = a @ [asc CHR ''/'']"
  by (cases ss rule: rev_cases) (simp_all add: render_segs_def)

lemma back_pop:
  assumes "\<forall>x \<in> set ss. asc CHR ''/'' \<notin> set x"
  shows "cu_back (render_segs ss (bytes ''..'')) (int (length (render_segs ss (bytes ''..''))) - 5) =
    map_option (\<lambda>ss. render_segs ss []) (pop ss)"
proof (cases ss rule: rev_cases)
  case Nil
  then show ?thesis by (simp add: pop_def render_segs_def cu_back.simps)
next
  case (snoc ss1 x)
  obtain a where a: "render_segs ss1 [] = a @ [asc CHR ''/'']" using render_last by blast
  have r: "render_segs ss (bytes ''..'') = a @ asc CHR ''/'' # x @ bytes ''/..''"
    using a by (simp add: snoc render_segs_def)
  show ?thesis
  proof (cases "x = []")
    case False
    then have "int (length (render_segs ss (bytes ''..''))) - 5 = int (length a + (length x - 1))"
      unfolding r by (cases x) simp_all
    moreover have "cu_back (a @ asc CHR ''/'' # x @ bytes ''/..'') (int (length a + (length x - 1))) =
        Some (a @ [asc CHR ''/''])"
      by (rule back_run) (use assms snoc in auto)
    ultimately show ?thesis using False by (simp only: r) (simp add: pop_def snoc a)
  next
    case True
    show ?thesis
    proof (cases ss1 rule: rev_cases)
      case Nil
      with True snoc show ?thesis by (simp add: pop_def render_segs_def cu_back.simps)
    next
      case ss1: (snoc ss2 y)
      obtain b where b: "render_segs ss2 [] = b @ [asc CHR ''/'']" using render_last by blast
      have r: "render_segs ss (bytes ''..'') = b @ asc CHR ''/'' # y @ bytes ''//..''"
        using b True by (simp add: snoc ss1 render_segs_def)
      have "int (length (render_segs ss (bytes ''..''))) - 5 = int (length b + length y)"
        unfolding r by simp
      moreover have "cu_back (b @ asc CHR ''/'' # y @ bytes ''//..'') (int (length b + length y)) =
          Some (b @ [asc CHR ''/''])"
        by (rule back_run) (use assms snoc ss1 in auto)
      ultimately show ?thesis using True by (simp only: r) (simp add: pop_def snoc ss1 b butlast_append)
    qed
  qed
qed

text \<open>One byte that is not special, in each of the four states.\<close>

lemma usual_other: "bitmap_test usual c \<Longrightarrow> \<not> literal c \<and> c \<noteq> asc CHR ''/'' \<and> c \<noteq> asc CHR ''.'' \<and> c \<noteq> asc CHR ''+''"
  using usualD [of c] by (simp add: literal_def)

lemma dots_append: "dots (cur @ [c]) \<longleftrightarrow> c = asc CHR ''.'' \<and> (cur = [] \<or> cur = bytes ''.'')"
  by (cases cur) (auto simp: dots_def)

lemma st_of_append: "st_of (cur @ [c]) =
    (if c = asc CHR ''.'' \<and> cur = [] then cu_dot else if c = asc CHR ''.'' \<and> cur = bytes ''.'' then cu_dot_dot
     else cu_usual)"
  by (cases cur) (auto simp: st_of_def)

lemma cu_rel_put:
  assumes "cu_rel s (ss, cur, e)" "c \<noteq> asc CHR ''/''" "cu_exten s' = (if b then Some (length (cu_u s) + 1) else cu_exten s)"
    and "cu_u s' = cu_u s @ [c]" "b \<longrightarrow> \<not> dots (cur @ [c])"
  shows "cu_rel s' (ss, cur @ [c], if b then Some (length cur + 1) else e)"
  using assms length_render [of ss cur] by (auto simp: cu_rel_def render_snoc dots_append dots_def)

lemma st_cases:
  obtains "cur = []" "st_of cur = cu_slash" "dots cur" | "cur = bytes ''.''" "st_of cur = cu_dot" "dots cur"
  | "cur = bytes ''..''" "st_of cur = cu_dot_dot" "dots cur"
  | "cur \<noteq> []" "cur \<noteq> bytes ''.''" "cur \<noteq> bytes ''..''" "st_of cur = cu_usual" "\<not> dots cur"
  by (cases "cur = []"; cases "cur = bytes ''.''"; cases "cur = bytes ''..''") (auto simp: st_of_def dots_def)

lemma raw_slash:
  assumes "cu_rel s (ss, cur, e)" "cu_st s = cu_at (st_of cur)"
  shows "case seg_step merge (raw (asc CHR ''/'')) (ss, cur, e) of
      None \<Rightarrow> cu_step merge (asc CHR ''/'') s = cu_invalid
    | Some (ss', cur', e') \<Rightarrow> \<exists>s'. cu_step merge (asc CHR ''/'') s = cu_next s' \<and> cu_rel s' (ss', cur', e') \<and>
        cu_st s' = cu_at (st_of cur') \<and> cu_plus s' = cu_plus s"
proof (cases cur rule: st_cases)
  case 1
  have "cu_rel (cu_put (asc CHR ''/'') s) (ss @ [[]], [], None)" "cu_rel s (ss, [], None)"
    using assms(1) 1(1) by (auto simp: cu_rel_def render_snoc render_slash dots_def simp flip: render_slash [of ss "[]", simplified])
  with 1 assms(2) show ?thesis by (auto simp: cu_step_def cu_slash_step_def)
next
  case 2
  have "cu_rel (s\<lparr>cu_u := butlast (cu_u s), cu_st := cu_at cu_slash\<rparr>) (ss, [], None)"
    using assms(1) 2(1) by (simp add: cu_rel_def dots_def render_segs_def butlast_append)
  with 2 assms(2) show ?thesis by (simp add: cu_step_def cu_dot_step_def st_of_def)
next
  case 3
  have b: "cu_back (cu_u s) (int (length (cu_u s)) - 5) = map_option (\<lambda>ss. render_segs ss []) (pop ss)"
    using assms(1) 3(1) back_pop [of ss] by (simp add: cu_rel_def)
  show ?thesis
  proof (cases "pop ss")
    case None
    with 3 assms(2) b show ?thesis by (simp add: cu_step_def cu_dot_dot_step_def)
  next
    case (Some ss')
    then have "set ss' \<subseteq> set ss" by (auto simp: pop_def split: if_splits dest!: in_set_butlastD)
    then have "cu_rel (s\<lparr>cu_u := render_segs ss' [], cu_st := cu_at cu_slash\<rparr>) (ss', [], None)"
      using assms(1) 3 by (auto simp: cu_rel_def)
    with 3 assms(2) b Some show ?thesis by (simp add: cu_step_def cu_dot_dot_step_def st_of_def)
  qed
next
  case 4
  have "cu_rel (cu_put (asc CHR ''/'') (s\<lparr>cu_exten := None, cu_st := cu_at cu_slash\<rparr>)) (ss @ [cur], [], None)"
    using assms(1) render_slash [of ss cur] by (simp add: cu_rel_def render_snoc dots_def)
  with 4 assms(2) show ?thesis by (simp add: cu_step_def cu_usual_step_def st_of_def)
qed

lemma raw_other:
  assumes "cu_rel s (ss, cur, e)" "cu_st s = cu_at (st_of cur)" "\<not> literal c" "c \<noteq> asc CHR ''/''"
  shows "\<exists>s'. cu_step merge c s = cu_next s' \<and>
    cu_rel s' (ss, cur @ [c], if c = asc CHR ''.'' \<and> \<not> dots cur then Some (length cur + 1) else e) \<and>
    cu_st s' = cu_at (st_of (cur @ [c])) \<and> cu_plus s' = (cu_plus s \<or> c = asc CHR ''+'')"
proof -
  let ?b = "c = asc CHR ''.'' \<and> \<not> dots cur"
  define s' where "s' = cu_put c (s\<lparr>cu_exten := (if ?b then Some (length (cu_u s) + 1) else cu_exten s),
    cu_plus := (cu_plus s \<or> c = asc CHR ''+''), cu_st := cu_at (st_of (cur @ [c]))\<rparr>)"
  have rel: "cu_rel s' (ss, cur @ [c], if ?b then Some (length cur + 1) else e)"
    by (rule cu_rel_put [OF assms(1,4)]) (simp_all add: s'_def dots_append dots_def)
  have "cu_step merge c s = cu_next s'"
  proof (cases cur rule: st_cases)
    case 1
    with assms usual_other [of c] show ?thesis
      by (cases s) (auto simp: cu_step_def cu_slash_step_def s'_def literal_def st_of_append st_of_def)
  next
    case 2
    with assms usual_other [of c] show ?thesis
      by (cases s) (auto simp: cu_step_def cu_dot_step_def s'_def literal_def st_of_append st_of_def)
  next
    case 3
    with assms usual_other [of c] show ?thesis
      by (cases s) (auto simp: cu_step_def cu_dot_dot_step_def s'_def literal_def st_of_append st_of_def)
  next
    case 4
    with assms usual_other [of c] show ?thesis
      by (cases s) (auto simp: cu_step_def cu_usual_step_def s'_def literal_def st_of_append)
  qed
  with rel show ?thesis by (intro exI [of _ s']) (simp add: s'_def)
qed

lemma finish_rel:
  assumes "cu_rel s (ss, cur, e)"
  shows "cu_finish s a b =
    cu_ok (render_segs ss cur) (map_option (\<lambda>k. drop k cur) e) a b (cu_plus s) (cu_quoted_uri s)"
proof -
  have "render_segs ss cur = render_segs ss [] @ cur" by (simp add: render_segs_def)
  with assms show ?thesis by (auto simp: cu_finish_def cu_rel_def option.map_comp o_def)
qed

lemma uri_ref_Cons:
  "uri_ref m d n (apfst (Cons i) it) x pl q =
    (case seg_step m i x of None \<Rightarrow> cu_invalid_request
     | Some x' \<Rightarrow> uri_ref m d n it x' (pl \<or> i = raw (asc CHR ''+'')) q)"
proof -
  have "raw (asc CHR ''+'') \<in> set (fst (apfst (Cons i) it)) \<longleftrightarrow> i = raw (asc CHR ''+'') \<or> raw (asc CHR ''+'') \<in> set (fst it)"
    by (cases it) auto
  moreover have "seg_run m (fst (apfst (Cons i) it)) x = do { x' \<leftarrow> seg_step m i x; seg_run m (fst it) x' }"
    "snd (apfst (Cons i) it) = snd it" by (cases it; simp)+
  ultimately show ?thesis by (cases "seg_step m i x") (simp_all only: uri_ref_def bind.simps option.case disj_assoc)
qed

lemma cu_loop_next:
  "p \<le> n \<Longrightarrow> n < length d \<Longrightarrow> cu_step m c s = cu_next s' \<Longrightarrow> cu_loop m d n p c s = cu_loop m d n (Suc p) (d ! p) s'"
  by (subst cu_loop.simps) (simp add: rd_Some)

lemma hex_byte:
  "is_hex_letter b \<Longrightarrow> \<not> is_digit b \<Longrightarrow> 10 \<le> hval b \<and> (b OR 0x20) - asc CHR ''a'' + 10 = of_nat (hval b)"
proof -
  have "list_all (\<lambda>b. is_hex_letter b \<longrightarrow> \<not> is_digit b \<longrightarrow> 10 \<le> hval b) (map of_nat [0..<256])" by code_simp
  from all_bytesI [OF this] show "is_hex_letter b \<Longrightarrow> \<not> is_digit b \<Longrightarrow> ?thesis" by (simp add: hval_def)
qed

lemma digit_byte: "is_digit b \<Longrightarrow> hval b < 10 \<and> b - asc CHR ''0'' = of_nat (hval b)"
  using dval_less [of b] by (simp add: hval_def dval_def)

lemma quoted_step_hex:
  "cu_quoted_step a s = (if is_hex a
     then cu_next (s\<lparr>cu_quoted_uri := True, cu_decoded := of_nat (hval a), cu_st := cu_quoted_second\<rparr>) else cu_invalid)"
  using digit_byte [of a] hex_byte [of a]
  by (auto simp: cu_quoted_step_def is_hex_def is_digit_def is_hex_letter_def Let_def)

lemma pct_byte_mod: "is_hex a \<Longrightarrow> is_hex b \<Longrightarrow> unat (pct_byte a b) = 16 * hval a + hval b"
proof -
  assume h: "is_hex a" "is_hex b"
  then have "hval a < 16" "hval b < 16" by (auto simp: is_hex_def intro: hval_less)
  then show ?thesis unfolding pct_byte_def unat_of_nat by simp
qed

lemma second_step_hex:
  assumes "is_hex a" "cu_decoded s = of_nat (hval a)"
  shows "cu_quoted_second_step b s =
    (if \<not> is_hex b \<or> pct_byte a b = NUL then cu_invalid
     else if literal (pct_byte a b) then cu_next (cu_put (pct_byte a b) (s\<lparr>cu_st := cu_at cu_usual\<rparr>))
     else cu_again (pct_byte a b) (s\<lparr>cu_plus := (cu_plus s \<or> pct_byte a b = asc CHR ''+''),
       cu_st := cu_at (cu_quoted_st s)\<rparr>))"
proof (cases "is_hex b")
  case False
  then show ?thesis by (auto simp: cu_quoted_second_step_def is_hex_def is_digit_def is_hex_letter_def Let_def)
next
  case True
  have v: "push_bit 4 (cu_decoded s) + of_nat (hval b) = pct_byte a b"
    by (simp add: assms(2) pct_byte_def push_bit_eq_mult)
  note m = pct_byte_mod [OF assms(1) True]
  show ?thesis
  proof (cases "is_digit b")
    case dig: True
    have "unat (pct_byte a b) mod 16 = hval b" using m True hval_less [of b] by (simp add: is_hex_def)
    with dig digit_byte [of b] have "pct_byte a b \<noteq> asc CHR ''?''" "pct_byte a b \<noteq> asc CHR ''+''"
      by auto
    moreover have "push_bit 4 (cu_decoded s) + b - asc CHR ''0'' = pct_byte a b"
      using v digit_byte [OF dig] by (metis add_diff_eq)
    ultimately show ?thesis
      using dig True by (cases s) (simp add: cu_quoted_second_step_def is_digit_def Let_def literal_def)
  next
    case False
    with True have l: "is_hex_letter b" by (simp add: is_hex_def)
    have "unat (pct_byte a b) mod 16 = hval b" using m True hval_less [of b] by (simp add: is_hex_def)
    with l False hex_byte [of b] have "pct_byte a b \<noteq> asc CHR ''%''" "pct_byte a b \<noteq> asc CHR ''#''" "pct_byte a b \<noteq> NUL"
      by auto
    moreover have "push_bit 4 (cu_decoded s) + (b OR 0x20) - asc CHR ''a'' + 10 = pct_byte a b"
      using v hex_byte [OF l False] by (metis add_diff_eq add.assoc)
    ultimately show ?thesis
      using False l True
      by (cases s) (simp add: cu_quoted_second_step_def [folded is_digit_def] is_hex_letter_def Let_def literal_def)
  qed
qed

subsection \<open>The parser computes the reference\<close>

lemma cu_loop_raw:
  assumes n: "p \<le> n" "n < length d" and rel: "cu_rel s x" "cu_st s = cu_at (st_of (fst (snd x)))"
    and c: "\<not> literal c"
    and IH: "\<And>s' x'. cu_rel s' x' \<Longrightarrow> cu_st s' = cu_at (st_of (fst (snd x'))) \<Longrightarrow>
      \<exists>q. cu_loop m d n (Suc p) (d ! p) s' = Some (uri_ref m d n it x' (cu_plus s') q)"
  shows "\<exists>q. cu_loop m d n p c s = Some (uri_ref m d n (apfst (Cons (raw c)) it) x (cu_plus s) q)"
proof -
  obtain ss cur e where x: "x = (ss, cur, e)" by (cases x)
  have nxt: "\<exists>q. cu_loop m d n p c s = Some (uri_ref m d n it x' (cu_plus s') q)"
    if "cu_step m c s = cu_next s'" "cu_rel s' x'" "cu_st s' = cu_at (st_of (fst (snd x')))" for s' x'
    using IH [OF that(2,3)] cu_loop_next [OF n that(1)] by simp
  show ?thesis
  proof (cases "c = asc CHR ''/''")
    case True
    note st = raw_slash [of s ss cur e m, folded True]
    show ?thesis
    proof (cases "seg_step m (raw c) x")
      case None
      with st rel x have "cu_step m c s = cu_invalid" by simp
      with None n show ?thesis by (subst cu_loop.simps) (simp add: uri_ref_Cons)
    next
      case (Some x')
      with st rel x obtain s' where s': "cu_step m c s = cu_next s'" "cu_rel s' x'"
          "cu_st s' = cu_at (st_of (fst (snd x')))" "cu_plus s' = cu_plus s"
        by (cases x') auto
      from nxt [OF s'(1-3)] Some s'(4) True show ?thesis by (simp add: uri_ref_Cons)
    qed
  next
    case False
    obtain s' where s': "cu_step m c s = cu_next s'"
        "cu_rel s' (ss, cur @ [c], if c = asc CHR ''.'' \<and> \<not> dots cur then Some (length cur + 1) else e)"
        "cu_st s' = cu_at (st_of (cur @ [c]))" "cu_plus s' = (cu_plus s \<or> c = asc CHR ''+'')"
      using raw_other [of s ss cur e c m] rel c False x by auto
    from nxt [OF s'(1,2)] s'(3,4) False show ?thesis by (simp add: uri_ref_Cons x)
  qed
qed

lemma cu_rel_cong:
  "cu_rel s x \<Longrightarrow> cu_u s' = cu_u s \<Longrightarrow> cu_exten s' = cu_exten s \<Longrightarrow> cu_rel s' x"
  by (cases x) (simp add: cu_rel_def)

lemma cu_loop_lit:
  assumes n: "p \<le> n" "n < length d" and rel: "cu_rel s x" and c: "literal c"
    and step: "cu_step m b s = cu_next (cu_put c (s\<lparr>cu_st := cu_at cu_usual\<rparr>))"
    and IH: "\<And>s' x'. cu_rel s' x' \<Longrightarrow> cu_st s' = cu_at (st_of (fst (snd x'))) \<Longrightarrow>
      \<exists>q. cu_loop m d n (Suc p) (d ! p) s' = Some (uri_ref m d n it x' (cu_plus s') q)"
  shows "\<exists>q. cu_loop m d n p b s = Some (uri_ref m d n (apfst (Cons (lit c)) it) x (cu_plus s) q)"
proof -
  obtain ss cur e where x: "x = (ss, cur, e)" by (cases x)
  let ?s = "cu_put c (s\<lparr>cu_st := cu_at cu_usual\<rparr>)"
  have l: "c \<noteq> asc CHR ''/''" "c \<noteq> asc CHR ''.''" using c by (auto simp: literal_def)
  have "cu_rel ?s (ss, cur @ [c], e)"
    using cu_rel_put [of s ss cur e c ?s False] rel l by (simp add: x)
  moreover have "st_of (cur @ [c]) = cu_usual" using l by (simp add: st_of_append)
  ultimately obtain q where
    "cu_loop m d n (Suc p) (d ! p) ?s = Some (uri_ref m d n it (ss, cur @ [c], e) (cu_plus s) q)"
    using IH [of ?s "(ss, cur @ [c], e)"] by auto
  with cu_loop_next [OF n step] show ?thesis by (auto simp: uri_ref_Cons x)
qed

lemma cu_loop_end:
  assumes "n < p" "cu_rel s x"
  shows "\<exists>q. cu_loop m d n p c s = Some (uri_ref m d n ([], t_end) x (cu_plus s) q)"
  using assms by (cases x) (auto simp: cu_loop.simps [of m d n p] uri_ref_def finish_rel)

lemma cu_loop_percent:
  assumes n: "p \<le> n" "n < length d" "0 < p" and rel: "cu_rel s x" "cu_st s = cu_at (st_of (fst (snd x)))"
    and IH: "\<And>k s' x' c'. p + 2 \<le> n \<Longrightarrow> cu_rel s' x' \<Longrightarrow> cu_st s' = cu_at (st_of (fst (snd x'))) \<Longrightarrow>
      \<exists>q. cu_loop m d n (Suc (p + 2)) (d ! (p + 2)) s' = Some (uri_ref m d n (pct (p + 2) (seg (p + 2) n d)) x' (cu_plus s') q)"
  shows "\<exists>q. cu_loop m d n p (asc CHR ''%'') s = Some (uri_ref m d n (pct (p - 1) (asc CHR ''%'' # seg p n d)) x (cu_plus s) q)"
proof -
  let ?st = "st_of (fst (snd x))"
  define s1 where "s1 = s\<lparr>cu_quoted_st := ?st, cu_st := cu_quoted\<rparr>"
  have "cu_step m (asc CHR ''%'') s = cu_next s1"
    using rel(2) by (cases ?st) (simp_all add: cu_step_def cu_usual_step_def cu_slash_step_def cu_dot_step_def
      cu_dot_dot_step_def s1_def)
  note l1 = cu_loop_next [OF n(1,2) this]
  have rel1: "cu_rel s1 x" by (rule cu_rel_cong [OF rel(1)]) (simp_all add: s1_def)
  have pl1: "cu_plus s1 = cu_plus s" by (simp add: s1_def)
  consider "p = n" | "p < n" using n(1) by linarith
  then show ?thesis
  proof cases
    case 1
    then show ?thesis using cu_loop_end [of n "Suc p" s1 x] rel1 l1 pl1 by simp
  next
    case 2
    define a where "a = d ! p"
    have w: "seg p n d = a # seg (Suc p) n d" using 2 n(2) by (simp add: seg_Cons a_def)
    have st1: "cu_step m a s1 = cu_quoted_step a s1" by (simp add: cu_step_def s1_def)
    show ?thesis
    proof (cases "is_hex a")
      case False
      then have "cu_loop m d n (Suc p) a s1 = Some cu_invalid_request"
        using 2 by (subst cu_loop.simps) (simp add: st1 quoted_step_hex)
      moreover have "snd (pct (p - 1) (asc CHR ''%'' # seg p n d)) = t_bad"
        "fst (pct (p - 1) (asc CHR ''%'' # seg p n d)) = []"
        using False by (auto simp: w split: list.split)
      ultimately show ?thesis using l1 by (cases x) (simp add: a_def uri_ref_def)
    next
      case hex: True
      define s2 where "s2 = s1\<lparr>cu_quoted_uri := True, cu_decoded := of_nat (hval a), cu_st := cu_quoted_second\<rparr>"
      have "cu_step m a s1 = cu_next s2" using hex by (simp add: st1 quoted_step_hex s2_def)
      then have l2: "cu_loop m d n p (asc CHR ''%'') s = cu_loop m d n (Suc (Suc p)) (d ! Suc p) s2"
        using cu_loop_next [of "Suc p" n d m a s1 s2] 2 n(2) l1 by (simp add: a_def)
      have rel2: "cu_rel s2 x" by (rule cu_rel_cong [OF rel1]) (simp_all add: s2_def)
      have pl2: "cu_plus s2 = cu_plus s" by (simp add: s2_def pl1)
      consider "Suc p = n" | "Suc p < n" using 2 by linarith
      then show ?thesis
      proof cases
        case 1
        then show ?thesis using cu_loop_end [of n "Suc (Suc p)" s2 x] rel2 l2 pl2 hex by (simp add: w)
      next
        case 3: 2
        define b where "b = d ! Suc p"
        have w2: "seg (Suc p) n d = b # seg (p + 2) n d" using 3 n(2) by (simp add: seg_Cons b_def)
        have st2: "cu_step m b s2 = cu_quoted_second_step b s2" by (simp add: cu_step_def s2_def)
        have dec: "cu_decoded s2 = of_nat (hval a)" by (simp add: s2_def)
        note second = second_step_hex [OF hex dec, of b]
        have p2: "p - Suc 0 + 3 = Suc (Suc p)" using n(3) by simp
        show ?thesis
        proof (cases "is_hex b \<and> pct_byte a b \<noteq> NUL")
          case False
          then have "cu_loop m d n (Suc (Suc p)) b s2 = Some cu_invalid_request"
            using 3 by (subst cu_loop.simps) (simp add: st2 second)
          with False show ?thesis using l2 by (cases x) (auto simp: b_def [symmetric] uri_ref_def w w2)
        next
          case ok: True
          have IH': "\<exists>q. cu_loop m d n (Suc (Suc (Suc p))) (d ! Suc (Suc p)) s' =
              Some (uri_ref m d n (pct (p + 2) (seg (p + 2) n d)) x' (cu_plus s') q)"
            if "cu_rel s' x'" "cu_st s' = cu_at (st_of (fst (snd x')))" for s' x'
            using IH [of s' x'] that 3 by simp
          show ?thesis
          proof (cases "literal (pct_byte a b)")
            case True
            have "\<exists>q. cu_loop m d n (Suc (Suc p)) b s2 =
                Some (uri_ref m d n (apfst (Cons (lit (pct_byte a b))) (pct (p + 2) (seg (p + 2) n d))) x (cu_plus s2) q)"
              by (rule cu_loop_lit [OF _ n(2) rel2 True _ IH']) (use 3 ok True in \<open>simp_all add: st2 second\<close>)
            with True ok hex l2 show ?thesis by (simp add: b_def [symmetric] w w2 p2 pl2)
          next
            case False
            define s3 where "s3 = s2\<lparr>cu_plus := (cu_plus s2 \<or> pct_byte a b = asc CHR ''+''), cu_st := cu_at (cu_quoted_st s2)\<rparr>"
            have l3: "cu_loop m d n (Suc (Suc p)) b s2 = cu_loop m d n (Suc (Suc p)) (pct_byte a b) s3"
              using 3 ok False by (subst cu_loop.simps) (simp add: st2 second s3_def)
            have rel3: "cu_rel s3 x" by (rule cu_rel_cong [OF rel2]) (simp_all add: s3_def)
            have st3: "cu_st s3 = cu_at (st_of (fst (snd x)))" by (simp add: s3_def s2_def s1_def)
            have "\<exists>q. cu_loop m d n (Suc (Suc p)) (pct_byte a b) s3 =
                Some (uri_ref m d n (apfst (Cons (raw (pct_byte a b))) (pct (p + 2) (seg (p + 2) n d))) x (cu_plus s3) q)"
              by (rule cu_loop_raw [OF _ n(2) rel3 st3 False IH']) (use 3 in simp)
            moreover have "uri_ref m d n (apfst (Cons (raw (pct_byte a b))) it) x (cu_plus s3) q =
                uri_ref m d n (apfst (Cons (raw (pct_byte a b))) it) x (cu_plus s) q" for it q
              by (simp add: uri_ref_Cons s3_def pl2 split: option.split)
            ultimately show ?thesis using False ok hex l3 l2 by (simp add: b_def [symmetric] w w2 p2)
          qed
        qed
      qed
    qed
  qed
qed

lemma cu_loop_ref:
  assumes n: "n < length d"
  shows "0 < p \<Longrightarrow> p \<le> n \<Longrightarrow> cu_rel s x \<Longrightarrow> cu_st s = cu_at (st_of (fst (snd x))) \<Longrightarrow>
    \<exists>q. cu_loop m d n p c s = Some (uri_ref m d n (pct (p - 1) (c # seg p n d)) x (cu_plus s) q)"
proof (induction "n - p" arbitrary: p c s x rule: less_induct)
  case less
  note rel = less.prems(3,4)
  have step: "\<exists>q. cu_loop m d n (Suc p') (d ! p') s' = Some (uri_ref m d n (pct p' (seg p' n d)) x' (cu_plus s') q)"
    if "p \<le> p'" "p' \<le> n" "cu_rel s' x'" "cu_st s' = cu_at (st_of (fst (snd x')))" for p' s' x'
  proof (cases "p' = n")
    case True
    then show ?thesis using cu_loop_end [of n "Suc p'" s' x'] that by simp
  next
    case False
    with that less.prems(2) have "p' < n" by simp
    with less.hyps [of "Suc p'" s' x' "d ! p'"] that less.prems n show ?thesis
      by (simp add: seg_Cons)
  qed
  obtain ss cur e where x: "x = (ss, cur, e)" by (cases x)
  have base: "cu_st s = cu_at cu_usual \<or> cu_st s = cu_at cu_slash \<or> cu_st s = cu_at cu_dot \<or> cu_st s = cu_at cu_dot_dot"
    using rel(2) by (cases "st_of (fst (snd x))") simp_all
  consider "c = asc CHR ''?''" | "c = asc CHR ''#''" | "c = asc CHR ''%''" | "\<not> literal c"
    by (auto simp: literal_def)
  then show ?case
  proof cases
    case 1
    then have "cu_step m c s = cu_goto_args s"
      using base by (auto simp: cu_step_def cu_usual_step_def cu_slash_step_def cu_dot_step_def cu_dot_dot_step_def)
    moreover have "cu_args_loop d n p p = args_of d n p"
      using args_loop_of [of p p n d] less.prems n by simp
    ultimately show ?thesis
      using less.prems 1 rel(1) by (auto simp: cu_loop.simps [of m d n p] uri_ref_def x finish_rel split: prod.split)
  next
    case 2
    then have "cu_step m c s = cu_goto_done s"
      using base by (auto simp: cu_step_def cu_usual_step_def cu_slash_step_def cu_dot_step_def cu_dot_dot_step_def)
    then show ?thesis
      using less.prems 2 rel(1) by (auto simp: cu_loop.simps [of m d n p] uri_ref_def x finish_rel)
  next
    case 3
    have "\<exists>q. cu_loop m d n p (asc CHR ''%'') s = Some (uri_ref m d n (pct (p - 1) (asc CHR ''%'' # seg p n d)) x (cu_plus s) q)"
      by (rule cu_loop_percent [OF less.prems(2) n less.prems(1) rel]) (use step in simp)
    with 3 show ?thesis by simp
  next
    case 4
    have "pct (p - 1) (c # seg p n d) = apfst (Cons (raw c)) (pct p (seg p n d))"
      using 4 less.prems(1) by (simp add: literal_def)
    moreover have "\<exists>q. cu_loop m d n p c s = Some (uri_ref m d n (apfst (Cons (raw c)) (pct p (seg p n d))) x (cu_plus s) q)"
      by (rule cu_loop_raw [OF less.prems(2) n rel 4]) (use step less.prems in simp)
    ultimately show ?thesis by simp
  qed
qed

text \<open>
  Claim C7. The one pass over the URI, with its states and its output that is cut back at \<open>/..\<close>,
  computes what the two passes of the reference do: decode, then resolve the segments. This
  holds for every URI that starts with a slash and has a byte behind it in memory, with and
  without merging of slashes, and for path, extension, arguments and the plus flag.
\<close>
theorem complex_uri_reference:
  assumes "n < length d" "0 < n" "d ! 0 = asc CHR ''/''"
  shows "\<exists>q. ngx_http_parse_complex_uri m d n plus0 quoted0 =
    Some (uri_ref m d n (pct 1 (seg 1 n d)) ([], [], None) plus0 q)"
proof -
  define s where "s = \<lparr>cu_st = cu_at cu_usual, cu_quoted_st = cu_usual, cu_decoded = 0, cu_u = [], cu_exten = None,
    cu_plus = plus0, cu_quoted_uri = quoted0\<rparr>"
  define s' where "s' = cu_put (asc CHR ''/'') (s\<lparr>cu_exten := None, cu_st := cu_at cu_slash\<rparr>)"
  have "rd d 0 = Some (asc CHR ''/'')" using assms by (auto simp: rd_def)
  then have "ngx_http_parse_complex_uri m d n plus0 quoted0 = cu_loop m d n 1 (asc CHR ''/'') s"
    by (simp only: ngx_http_parse_complex_uri_def s_def option.case)
  also have "\<dots> = cu_loop m d n 2 (d ! 1) s'"
    using assms cu_loop_next [of 1 n d m "asc CHR ''/''" s s']
    by (simp add: cu_step_def cu_usual_step_def s_def s'_def numeral_2_eq_2)
  finally have start: "ngx_http_parse_complex_uri m d n plus0 quoted0 = cu_loop m d n 2 (d ! 1) s'" .
  have rel: "cu_rel s' ([], [], None)" "cu_st s' = cu_at (st_of [])" "cu_plus s' = plus0"
    by (simp_all add: cu_rel_def s'_def s_def render_segs_def st_of_def)
  show ?thesis
  proof (cases "n = 1")
    case True
    then show ?thesis using cu_loop_end [of n 2 s' "([], [], None)"] rel start by simp
  next
    case False
    then have "seg 1 n d = d ! 1 # seg 2 n d"
      using assms by (simp add: seg_Cons numeral_2_eq_2)
    with False assms rel start cu_loop_ref [of n d 2 s' "([], [], None)" m "d ! 1"] show ?thesis by simp
  qed
qed

theorem complex_uri_reference_witness:
  "\<exists>q. ngx_http_parse_complex_uri True (bytes ''/a/%2E./b.c?x'' @ [LF]) 13 False False =
     Some (cu_ok (bytes ''/b.c'') (Some (bytes ''c'')) (Some 12) None False q)"
proof -
  let ?d = "bytes ''/a/%2E./b.c?x'' @ [LF]"
  have "uri_ref True ?d 13 (pct 1 (seg 1 13 ?d)) ([], [], None) False q =
      cu_ok (bytes ''/b.c'') (Some (bytes ''c'')) (Some 12) None False q" for q
    by (cases q) code_simp+
  with complex_uri_reference [of 13 ?d True False False] show ?thesis by simp
qed

subsection \<open>What an accepted URI looks like\<close>

definition segs_ok :: "bool \<Rightarrow> segs \<Rightarrow> bool" where
  "segs_ok m x \<longleftrightarrow> (case x of (ss, cur, e) \<Rightarrow>
     (\<forall>y \<in> set ss. asc CHR ''/'' \<notin> set y \<and> y \<noteq> bytes ''.'' \<and> y \<noteq> bytes ''..'' \<and> (m \<longrightarrow> y \<noteq> [])) \<and>
     asc CHR ''/'' \<notin> set cur)"

lemma pop_subset: "pop ss = Some ss' \<Longrightarrow> set ss' \<subseteq> set ss \<and> length (render_segs ss' []) \<le> length (render_segs ss [])"
proof -
  have len: "length (render_segs (butlast ss) []) \<le> length (render_segs ss [])" for ss
    by (cases ss rule: rev_cases) (simp_all add: render_segs_def)
  assume "pop ss = Some ss'"
  then show ?thesis
    using len [of ss] len [of "butlast ss"] by (auto simp: pop_def split: if_splits dest!: in_set_butlastD)
qed

lemma seg_step_ok:
  assumes "seg_step m i (ss, cur, e) = Some x'" "segs_ok m (ss, cur, e)" "i \<noteq> lit (asc CHR ''/'')"
  shows "segs_ok m x' \<and> length (render_segs (fst x') (fst (snd x'))) \<le> Suc (length (render_segs ss cur))"
proof (cases i)
  case (lit c)
  then have x: "x' = (ss, cur @ [c], e)" and c: "c \<noteq> asc CHR ''/''" using assms(1,3) by simp_all
  have "segs_ok m (ss, cur @ [c], e)" using assms(2) c by (simp add: segs_ok_def)
  then show ?thesis by (simp add: x render_segs_def)
next
  case (raw c)
  show ?thesis
  proof (cases "c = asc CHR ''/''")
    case False
    then have x: "fst x' = ss" "fst (snd x') = cur @ [c]" using assms(1) raw by auto
    have "segs_ok m (ss, cur @ [c], e')" for e' using assms(2) False by (simp add: segs_ok_def)
    with x show ?thesis by (cases x') (simp add: render_segs_def)
  next
    case True
    with raw assms pop_subset [of ss] show ?thesis
      by (auto simp: segs_ok_def render_segs_def split: if_splits)
  qed
qed

lemma seg_run_ok:
  "seg_run m its x = Some x' \<Longrightarrow> segs_ok m x \<Longrightarrow> lit (asc CHR ''/'') \<notin> set its \<Longrightarrow>
     segs_ok m x' \<and> length (render_segs (fst x') (fst (snd x'))) \<le> length its + length (render_segs (fst x) (fst (snd x)))"
proof (induction its arbitrary: x)
  case (Cons i its)
  obtain ss cur e where x: "x = (ss, cur, e)" by (cases x)
  with Cons.prems obtain x1 where x1: "seg_step m i (ss, cur, e) = Some x1" "seg_run m its x1 = Some x'"
    by (auto split: bind_splits)
  have "segs_ok m x1 \<and> length (render_segs (fst x1) (fst (snd x1))) \<le> Suc (length (render_segs ss cur))"
    by (rule seg_step_ok [OF x1(1)]) (use Cons.prems x in auto)
  moreover have "lit (asc CHR ''/'') \<notin> set its" using Cons.prems(3) by simp
  ultimately show ?case using Cons.IH [OF x1(2)] by (force simp: x)
qed simp

lemma pct_items: "lit (asc CHR ''/'') \<notin> set (fst (pct p w)) \<and> length (fst (pct p w)) \<le> length w"
proof (induction p w rule: pct.induct)
  case (2 p c w)
  then show ?case by (auto simp: literal_def split: list.splits) (fastforce simp: literal_def)+
qed simp



text \<open>
  What the loop does not do is look at the state it ends in: a last segment \<open>..\<close> or \<open>.\<close>
  is kept as it is, and an escape that is cut off by the end of the URI is dropped in silence.
\<close>
theorem complex_uri_end_state:
  "ngx_http_parse_complex_uri True (bytes ''/a/..'' @ [LF]) 5 False False =
     Some (cu_ok (bytes ''/a/..'') None None None False False) \<and>
   ngx_http_parse_complex_uri True (bytes ''/.'' @ [LF]) 2 False False =
     Some (cu_ok (bytes ''/.'') None None None False False) \<and>
   ngx_http_parse_complex_uri True (bytes ''/a%4'' @ [LF]) 4 False False =
     Some (cu_ok (bytes ''/a'') None None None False True)"
  by (intro conjI; code_simp)

section \<open>ngx_http_parse_uri\<close>

text \<open>
  The check of the URI of a subrequest or redirect; it sets the fields of the request that the
  request line parser sets too. Positions count from \<open>uri_start\<close>.
\<close>

datatype pu_state = pu_start | pu_after_slash_in_uri | pu_check_uri | pu_uri

definition pu_after_slash_step :: "nat \<Rightarrow> rline \<Rightarrow> byte \<Rightarrow> pu_state \<times> rline" where
  "pu_after_slash_step p r ch =
     (if bitmap_test usual ch then (pu_check_uri, r)
      else if ch = SP then (pu_check_uri, r\<lparr>space_in_uri := True\<rparr>)
      else if ch = asc CHR ''.'' then (pu_uri, r\<lparr>complex_uri := True\<rparr>)
      else if ch = asc CHR ''%'' then (pu_uri, r\<lparr>quoted_uri := True\<rparr>)
      else if ch = asc CHR ''/'' then (pu_uri, r\<lparr>complex_uri := True\<rparr>)
      else if ch = asc CHR ''?'' then (pu_uri, r\<lparr>args_start := Some (p + 1)\<rparr>)
      else if ch = asc CHR ''#'' then (pu_uri, r\<lparr>complex_uri := True\<rparr>)
      else if ch = asc CHR ''+'' then (pu_after_slash_in_uri, r\<lparr>plus_in_uri := True\<rparr>)
      else (pu_check_uri, r))"

definition pu_check_step :: "nat \<Rightarrow> rline \<Rightarrow> byte \<Rightarrow> pu_state \<times> rline" where
  "pu_check_step p r ch =
     (if bitmap_test usual ch then (pu_check_uri, r)
      else if ch = asc CHR ''/'' then (pu_after_slash_in_uri, r\<lparr>uri_ext := None\<rparr>)
      else if ch = asc CHR ''.'' then (pu_check_uri, r\<lparr>uri_ext := Some (p + 1)\<rparr>)
      else if ch = SP then (pu_check_uri, r\<lparr>space_in_uri := True\<rparr>)
      else if ch = asc CHR ''%'' then (pu_uri, r\<lparr>quoted_uri := True\<rparr>)
      else if ch = asc CHR ''?'' then (pu_uri, r\<lparr>args_start := Some (p + 1)\<rparr>)
      else if ch = asc CHR ''#'' then (pu_uri, r\<lparr>complex_uri := True\<rparr>)
      else if ch = asc CHR ''+'' then (pu_check_uri, r\<lparr>plus_in_uri := True\<rparr>)
      else (pu_check_uri, r))"

definition pu_uri_step :: "rline \<Rightarrow> byte \<Rightarrow> pu_state \<times> rline" where
  "pu_uri_step r ch =
     (if bitmap_test usual ch then (pu_uri, r)
      else if ch = SP then (pu_uri, r\<lparr>space_in_uri := True\<rparr>)
      else if ch = asc CHR ''#'' then (pu_uri, r\<lparr>complex_uri := True\<rparr>)
      else (pu_uri, r))"

fun pu_loop :: "nat \<Rightarrow> pu_state \<Rightarrow> rline \<Rightarrow> byte list \<Rightarrow> i64 \<times> rline" where
  "pu_loop p st r [] = (NGX_OK, r)"
| "pu_loop p pu_start r (ch # w) =
     (if ch \<noteq> asc CHR ''/'' then (NGX_ERROR, r) else pu_loop (p + 1) pu_after_slash_in_uri r w)"
| "pu_loop p pu_after_slash_in_uri r (ch # w) =
     (case pu_after_slash_step p r ch of (st', r') \<Rightarrow> pu_loop (p + 1) st' r' w)"
| "pu_loop p pu_check_uri r (ch # w) = (case pu_check_step p r ch of (st', r') \<Rightarrow> pu_loop (p + 1) st' r' w)"
| "pu_loop p pu_uri r (ch # w) = (case pu_uri_step r ch of (st', r') \<Rightarrow> pu_loop (p + 1) st' r' w)"

definition ngx_http_parse_uri :: "rline \<Rightarrow> byte list \<Rightarrow> i64 \<times> rline" where
  "ngx_http_parse_uri r w = pu_loop 0 pu_start r w"

lemma pu_uri_run:
  assumes "pu_loop p pu_uri r w = (NGX_OK, r')" "\<not> complex_uri r'"
  shows "asc CHR ''#'' \<notin> set w \<and> args_start r' = args_start r \<and> uri_ext r' = uri_ext r \<and> plus_in_uri r' = plus_in_uri r
     \<and> \<not> complex_uri r \<and> quoted_uri r' = quoted_uri r"
  using assms
proof (induction w arbitrary: p r)
  case (Cons c w)
  have st: "pu_uri_step r c = (pu_uri, snd (pu_uri_step r c))" by (simp add: pu_uri_step_def)
  with Cons.prems have "pu_loop (p + 1) pu_uri (snd (pu_uri_step r c)) w = (NGX_OK, r')"
    by (metis pu_loop.simps(5) case_prod_conv)
  from Cons.IH [OF this Cons.prems(2)] show ?case
    by (auto simp: pu_uri_step_def dest: usualD split: if_splits)
qed simp

lemma pct_plain:
  "asc CHR ''%'' \<notin> set w \<Longrightarrow> asc CHR ''#'' \<notin> set w \<Longrightarrow> asc CHR ''?'' \<notin> set w \<Longrightarrow>
     pct p (w @ v) = apfst (append (map raw w)) (pct (p + length w) v)"
proof (induction w arbitrary: p)
  case (Cons c w)
  have "pct (p + 1) (w @ v) = apfst (append (map raw w)) (pct (p + 1 + length w) v)"
    by (rule Cons.IH) (use Cons.prems in auto)
  with Cons.prems show ?case by (simp add: apfst_def map_prod_def split: prod.split)
qed (simp add: apfst_def map_prod_def split: prod.split)

text \<open>
  The part of the URI that the check goes through without setting a flag, and the segments it
  is made of.
\<close>

definition pu_rel :: "nat \<Rightarrow> pu_state \<Rightarrow> rline \<Rightarrow> segs \<Rightarrow> bool" where
  "pu_rel p st r x \<longleftrightarrow> (case x of (ss, cur, e) \<Rightarrow>
     length (render_segs ss cur) = p \<and> args_start r = None \<and>
     uri_ext r = map_option (\<lambda>k. length (render_segs ss []) + k) e \<and>
     (st = pu_after_slash_in_uri \<and> set cur \<subseteq> {asc CHR ''+''} \<and> e = None \<or> st = pu_check_uri \<and> \<not> dots cur))"

lemma pu_step_rel:
  assumes rel: "pu_rel p st r (ss, cur, e)" and c: "c \<noteq> asc CHR ''?''"
    and step: "(st', r') = (if st = pu_after_slash_in_uri then pu_after_slash_step p r c else pu_check_step p r c)"
    and flags: "\<not> complex_uri r'" "\<not> quoted_uri r'"
  shows "c \<noteq> asc CHR ''%'' \<and> c \<noteq> asc CHR ''#'' \<and> \<not> complex_uri r \<and> \<not> quoted_uri r \<and>
    plus_in_uri r' = (plus_in_uri r \<or> c = asc CHR ''+'') \<and>
    (\<exists>ss' cur' e'. seg_step m (raw c) (ss, cur, e) = Some (ss', cur', e') \<and> pu_rel (p + 1) st' r' (ss', cur', e') \<and>
       render_segs ss' cur' = render_segs ss cur @ [c])"
proof (cases "st = pu_after_slash_in_uri")
  case True
  with rel have cur: "set cur \<subseteq> {asc CHR ''+''}" "e = None" by (auto simp: pu_rel_def)
  from True step flags c usualD [of c] have f: "c \<noteq> asc CHR ''%''" "c \<noteq> asc CHR ''#''" "c \<noteq> asc CHR ''/''" "c \<noteq> asc CHR ''.''"
    by (auto simp: pu_after_slash_step_def split: if_splits)
  have "\<not> dots (cur @ [c])" using f by (simp add: dots_append)
  with True step flags c f cur rel usualD [of c] show ?thesis
    by (auto simp: pu_after_slash_step_def pu_rel_def render_snoc length_render [of ss "cur @ [c]"]
        length_render [of ss cur] split: if_splits)
next
  case False
  with rel have cur: "st = pu_check_uri" "\<not> dots cur" by (auto simp: pu_rel_def)
  then have nd: "\<not> dots (cur @ [x])" for x by (auto simp: dots_append dots_def)
  from cur have ne: "cur \<noteq> []" "cur \<noteq> bytes ''.''" "cur \<noteq> bytes ''..''" by (auto simp: dots_def)
  have f: "c \<noteq> asc CHR ''%''" "c \<noteq> asc CHR ''#''"
    using cur step flags usualD [of c] by (auto simp: pu_check_step_def split: if_splits)
  show ?thesis
  proof (cases "c = asc CHR ''/''")
    case True
    with cur ne step rel flags show ?thesis
      using render_slash [of ss cur]
      by (auto simp: pu_check_step_def pu_rel_def render_snoc length_render [of ss "cur @ [_]"] length_render [of ss cur] dots_def
          simp flip: render_slash)
  next
    case False
    with cur ne nd step flags c f rel usualD [of c] show ?thesis
      by (auto simp: pu_check_step_def pu_rel_def render_snoc length_render [of ss "cur @ [c]"]
        length_render [of ss cur] split: if_splits)
  qed
qed

lemma pu_flags_sticky:
  "pu_loop p st r w = (rc, r') \<Longrightarrow> \<not> complex_uri r' \<Longrightarrow> \<not> quoted_uri r' \<Longrightarrow> \<not> complex_uri r \<and> \<not> quoted_uri r"
proof (induction p st r w rule: pu_loop.induct)
  case (3 p r ch w)
  obtain st' r1 where "pu_after_slash_step p r ch = (st', r1)" by fastforce
  with 3 show ?case by (auto simp: pu_after_slash_step_def split: if_splits)
next
  case (4 p r ch w)
  obtain st' r1 where "pu_check_step p r ch = (st', r1)" by fastforce
  with 4 show ?case by (auto simp: pu_check_step_def split: if_splits)
next
  case (5 p r ch w)
  obtain st' r1 where "pu_uri_step r ch = (st', r1)" by fastforce
  with 5 show ?case by (auto simp: pu_uri_step_def split: if_splits)
qed (auto split: if_splits)

lemma pu_loop_ref:
  "pu_loop p st r w = (NGX_OK, r') \<Longrightarrow> \<not> complex_uri r' \<Longrightarrow> \<not> quoted_uri r' \<Longrightarrow> pu_rel p st r (ss, cur, e) \<Longrightarrow>
   \<exists>ss' cur' e'. seg_run m (fst (pct p w)) (ss, cur, e) = Some (ss', cur', e') \<and>
     render_segs ss' cur' = render_segs ss cur @ takeWhile (\<lambda>c. c \<noteq> asc CHR ''?'') w \<and>
     uri_ext r' = map_option (\<lambda>k. length (render_segs ss' []) + k) e' \<and>
     snd (pct p w) = (case args_start r' of None \<Rightarrow> t_end | Some a \<Rightarrow> t_args a) \<and>
     (case args_start r' of None \<Rightarrow> True | Some a \<Rightarrow> p < a \<and> asc CHR ''#'' \<notin> set (drop (a - p) w)) \<and>
     plus_in_uri r' = (plus_in_uri r \<or> raw (asc CHR ''+'') \<in> set (fst (pct p w)))"
proof (induction w arbitrary: p st r ss cur e)
  case Nil
  then show ?case by (auto simp: pu_rel_def)
next
  case (Cons c w)
  from Cons.prems(4) have st: "st = pu_after_slash_in_uri \<or> st = pu_check_uri" by (auto simp: pu_rel_def)
  obtain st' r1 where step: "(st', r1) = (if st = pu_after_slash_in_uri then pu_after_slash_step p r c else pu_check_step p r c)"
    by (metis surj_pair)
  with st Cons.prems(1) have loop: "pu_loop (p + 1) st' r1 w = (NGX_OK, r')"
    by (cases st) (auto split: prod.splits if_splits)
  show ?case
  proof (cases "c = asc CHR ''?''")
    case True
    with step st have "st' = pu_uri" "r1 = r\<lparr>args_start := Some (p + 1)\<rparr>"
      by (auto simp: pu_after_slash_step_def pu_check_step_def)
    with pu_uri_run [of "p + 1" r1 w r'] loop Cons.prems True show ?thesis
      by (auto simp: pu_rel_def)
  next
    case False
    have f1: "\<not> complex_uri r1" "\<not> quoted_uri r1" using pu_flags_sticky [OF loop Cons.prems(2,3)] by simp_all
    note s = pu_step_rel [OF Cons.prems(4) False step f1, of m]
    then obtain ss1 cur1 e1 where x1: "seg_step m (raw c) (ss, cur, e) = Some (ss1, cur1, e1)"
        "pu_rel (p + 1) st' r1 (ss1, cur1, e1)" "render_segs ss1 cur1 = render_segs ss cur @ [c]"
      by blast
    have pct: "pct p (c # w) = apfst (Cons (raw c)) (pct (p + 1) w)" using s False by simp
    have d: "drop (a - p) (c # w) = drop (a - (p + 1)) w" if "p + 1 < a" for a
    proof -
      have "a - p = Suc (a - (p + 1))" using that by simp
      then show ?thesis by simp
    qed
    from Cons.IH [OF loop Cons.prems(2,3) x1(2)] obtain ss' cur' e' where
      "seg_run m (fst (pct (p + 1) w)) (ss1, cur1, e1) = Some (ss', cur', e')"
      "render_segs ss' cur' = render_segs ss1 cur1 @ takeWhile (\<lambda>c. c \<noteq> asc CHR ''?'') w"
      "uri_ext r' = map_option (\<lambda>k. length (render_segs ss' []) + k) e'"
      "snd (pct (p + 1) w) = (case args_start r' of None \<Rightarrow> t_end | Some a \<Rightarrow> t_args a)"
      "case args_start r' of None \<Rightarrow> True | Some a \<Rightarrow> p + 1 < a \<and> asc CHR ''#'' \<notin> set (drop (a - (p + 1)) w)"
      "plus_in_uri r' = (plus_in_uri r1 \<or> raw (asc CHR ''+'') \<in> set (fst (pct (p + 1) w)))"
      by blast
    with s x1 pct False d show ?thesis
      by (intro exI [of _ ss'] exI [of _ cur'] exI [of _ e']) (auto split: option.splits)
  qed
qed

text \<open>
  Claim C23. A URI for which the check sets neither \<open>complex_uri\<close> nor \<open>quoted_uri\<close> need not be
  normalised: \<open>ngx_http_parse_complex_uri\<close> gives the same path (the URI up to the question mark),
  extension, start of the arguments and plus flag that the check has found.
\<close>
theorem parse_uri_plain:
  assumes "ngx_http_parse_uri r w = (NGX_OK, r')" "\<not> complex_uri r'" "\<not> quoted_uri r'"
    and "args_start r = None" "uri_ext r = None" "w \<noteq> []"
  shows "\<exists>q. ngx_http_parse_complex_uri m (w @ [c]) (length w) (plus_in_uri r) quoted0 =
    Some (cu_ok (takeWhile (\<lambda>c. c \<noteq> asc CHR ''?'') w)
      (map_option (\<lambda>e. drop e (takeWhile (\<lambda>c. c \<noteq> asc CHR ''?'') w)) (uri_ext r'))
      (args_start r') None (plus_in_uri r') q)"
proof -
  obtain v where w: "w = asc CHR ''/'' # v" and loop: "pu_loop 1 pu_after_slash_in_uri r v = (NGX_OK, r')"
    using assms(1,6) by (cases w) (auto simp: ngx_http_parse_uri_def NGX_OK_def NGX_ERROR_def split: if_splits)
  have "pu_rel 1 pu_after_slash_in_uri r ([], [], None)"
    using assms(4,5) by (simp add: pu_rel_def render_segs_def)
  from pu_loop_ref [OF loop assms(2,3) this, of m] obtain ss cur e where
    run: "seg_run m (fst (pct 1 v)) ([], [], None) = Some (ss, cur, e)"
      "render_segs ss cur = asc CHR ''/'' # takeWhile (\<lambda>c. c \<noteq> asc CHR ''?'') v"
    and ext: "uri_ext r' = map_option (\<lambda>k. length (render_segs ss []) + k) e"
    and tl: "snd (pct 1 v) = (case args_start r' of None \<Rightarrow> t_end | Some a \<Rightarrow> t_args a)"
    and hash: "case args_start r' of None \<Rightarrow> True | Some a \<Rightarrow> 1 < a \<and> asc CHR ''#'' \<notin> set (drop (a - 1) v)"
    and plus: "plus_in_uri r' = (plus_in_uri r \<or> raw (asc CHR ''+'') \<in> set (fst (pct 1 v)))"
    by (auto simp: render_segs_def)
  have path: "takeWhile (\<lambda>c. c \<noteq> asc CHR ''?'') w = render_segs ss cur" using run(2) by (simp add: w)
  have "render_segs ss cur = render_segs ss [] @ cur" by (simp add: render_segs_def)
  then have ext': "map_option (\<lambda>k. drop k cur) e =
      map_option (\<lambda>e. drop e (takeWhile (\<lambda>c. c \<noteq> asc CHR ''?'') w)) (uri_ext r')"
    unfolding path ext by (simp add: option.map_comp o_def)
  have args: "args_of (w @ [c]) (length w) a = (Some a, None)" if "args_start r' = Some a" for a
  proof -
    have "seg a (length w) (w @ [c]) = drop (a - 1) v"
      using hash that by (cases a) (simp_all add: seg_def w)
    with hash that show ?thesis by (simp add: args_of_def)
  qed
  have s1: "seg 1 (length w) (w @ [c]) = v" by (simp add: seg_def w)
  have "length w < length (w @ [c])" "0 < length w" "(w @ [c]) ! 0 = asc CHR ''/''" by (simp_all add: w)
  from complex_uri_reference [OF this, of m "plus_in_uri r" quoted0] obtain q where
    "ngx_http_parse_complex_uri m (w @ [c]) (length w) (plus_in_uri r) quoted0 =
      Some (uri_ref m (w @ [c]) (length w) (pct 1 v) ([], [], None) (plus_in_uri r) q)"
    unfolding s1 by blast
  moreover have "uri_ref m (w @ [c]) (length w) (pct 1 v) ([], [], None) (plus_in_uri r) q =
      cu_ok (render_segs ss cur) (map_option (\<lambda>k. drop k cur) e) (args_start r') None (plus_in_uri r') q"
    using args run(1) tl plus by (simp add: uri_ref_def split: option.split)
  ultimately show ?thesis unfolding path [symmetric] ext' by (intro exI [of _ q]) (erule trans, erule arg_cong)
qed

theorem parse_uri_plain_witness:
  "\<exists>r' q. ngx_http_parse_uri rline_init (bytes ''/a+/b.c?d'') = (NGX_OK, r') \<and>
     ngx_http_parse_complex_uri True (bytes ''/a+/b.c?d'' @ [LF]) (length (bytes ''/a+/b.c?d'')) False False =
       Some (cu_ok (bytes ''/a+/b.c'') (Some (bytes ''c'')) (Some 8) None True q)"
proof -
  let ?w = "bytes ''/a+/b.c?d''"
  have "case ngx_http_parse_uri rline_init ?w of (rc, r') \<Rightarrow> rc = NGX_OK \<and> \<not> complex_uri r' \<and> \<not> quoted_uri r' \<and>
      args_start r' = Some 8 \<and> uri_ext r' = Some 6 \<and> plus_in_uri r'"
    by code_simp
  then obtain r' where r': "ngx_http_parse_uri rline_init ?w = (NGX_OK, r')" "\<not> complex_uri r'" "\<not> quoted_uri r'"
    "args_start r' = Some 8" "uri_ext r' = Some 6" "plus_in_uri r'"
    by (auto split: prod.splits)
  have i: "args_start rline_init = None" "uri_ext rline_init = None" "plus_in_uri rline_init = False"
    by (simp_all add: rline_init_def)
  have "takeWhile (\<lambda>c. c \<noteq> asc CHR ''?'') ?w = bytes ''/a+/b.c''" by code_simp
  with parse_uri_plain [OF r'(1-3) i(1,2), of True LF False] r' i(3) show ?thesis by (auto simp: drop_Cons')
qed

section \<open>ngx_http_parse_unsafe_uri\<close>

text \<open>
  The check of a URI that a response header or an include gives. \<open>us_dot_dot p\<close> is the test for
  \<open>..\<close> at \<open>p\<close>, up to the end or a slash. Behind a decoding that leaves nothing the code reads
  \<open>p[0]\<close> of memory it has allocated; the value does not matter, as \<open>len > 1\<close> fails next.
\<close>

definition us_dot_dot :: "byte list \<Rightarrow> bool" where
  "us_dot_dot p \<longleftrightarrow>
     length p > 1 \<and> p ! 0 = asc CHR ''.'' \<and> p ! 1 = asc CHR ''.'' \<and> (length p = 2 \<or> p ! 2 = asc CHR ''/'')"

text \<open>
  The first loop: \<open>None\<close> is \<open>goto unsafe\<close>; otherwise whether there is a percent sign, and the
  arguments if it has stopped at a question mark.
\<close>

fun us_scan :: "bool \<Rightarrow> byte list \<Rightarrow> (bool \<times> byte list option) option" where
  "us_scan quoted [] = Some (quoted, None)"
| "us_scan quoted (ch # p) =
     (if ch = asc CHR ''%'' then us_scan True p
      else if bitmap_test usual ch then us_scan quoted p
      else if ch = asc CHR ''?'' then Some (quoted, Some p)
      else if ch = NUL then None
      else if ch = asc CHR ''/'' \<and> length (ch # p) > 2 \<and> us_dot_dot p then None
      else us_scan quoted p)"

fun us_scan2 :: "byte list \<Rightarrow> bool" where
  "us_scan2 [] = True"
| "us_scan2 (ch # p) =
     (if ch = NUL then False
      else if ch = asc CHR ''/'' \<and> length (ch # p) > 2 \<and> us_dot_dot p then False
      else us_scan2 p)"

text \<open>\<open>None\<close> is \<open>NGX_ERROR\<close>; otherwise the URI and the arguments, if they are set.\<close>

definition ngx_http_parse_unsafe_uri :: "byte list \<Rightarrow> (byte list \<times> byte list option) option" where
  "ngx_http_parse_unsafe_uri uri =
     (if uri = [] \<or> uri ! 0 = asc CHR ''?'' then None
      else if us_dot_dot uri then None
      else case us_scan False uri of
        None \<Rightarrow> None
      | Some (quoted, args) \<Rightarrow>
          (let path = (case args of None \<Rightarrow> uri | Some a \<Rightarrow> take (length uri - (length a + 1)) uri) in
           if quoted then
             (let dst = fst (ngx_unescape_uri path 0) in
              if us_dot_dot dst then None
              else if us_scan2 dst then Some (dst, args) else None)
           else Some (path, args)))"

text \<open>The segments of a path, and what is safe: no null byte, and no segment \<open>..\<close>.\<close>

fun segments :: "byte list \<Rightarrow> byte list list" where
  "segments [] = [[]]"
| "segments (c # w) =
     (if c = asc CHR ''/'' then [] # segments w
      else case segments w of s # ss \<Rightarrow> (c # s) # ss | [] \<Rightarrow> [[c]])"

definition path_safe :: "byte list \<Rightarrow> bool" where
  "path_safe w \<longleftrightarrow> NUL \<notin> set w \<and> bytes ''..'' \<notin> set (segments w)"

lemma segments_ne [simp]: "segments w \<noteq> []"
  by (cases w) (auto split: list.splits)

lemma us_dot_dot_iff: "us_dot_dot p \<longleftrightarrow> hd (segments p) = bytes ''..''"
proof -
  have hd: "hd (segments (c # w)) = (if c = asc CHR ''/'' then [] else c # hd (segments w))" for c w
    using segments_ne [of w] by (cases "segments w") simp_all
  have e: "hd (segments w) = [] \<longleftrightarrow> w = [] \<or> hd w = asc CHR ''/''" for w
    by (cases w) (simp_all add: hd del: segments.simps(2))
  show ?thesis
  proof (cases p)
    case (Cons a p1)
    show ?thesis
    proof (cases p1)
      case p1: (Cons b p2)
      show ?thesis
        by (cases p2) (auto simp: us_dot_dot_def Cons p1 hd e simp del: segments.simps(2))
    qed (simp add: us_dot_dot_def Cons)
  qed (simp add: us_dot_dot_def)
qed

lemma segments_Cons: "set (segments (c # w)) =
    (if c = asc CHR ''/'' then insert [] (set (segments w)) else insert (c # hd (segments w)) (set (tl (segments w))))"
  using segments_ne [of w] by (cases "segments w") simp_all

lemma us_scan2_safe: "us_scan2 w \<and> \<not> us_dot_dot w \<longleftrightarrow> path_safe w"
proof -
  have "us_scan2 w \<longleftrightarrow> NUL \<notin> set w \<and> bytes ''..'' \<notin> set (tl (segments w))" for w
  proof (induction w)
    case (Cons c w)
    have len: "length (c # w) > 2" if "us_dot_dot w" using that by (simp add: us_dot_dot_def)
    have "set (segments w) = insert (hd (segments w)) (set (tl (segments w)))"
      using segments_ne [of w] by (cases "segments w") simp_all
    moreover have "tl (segments (c # w)) = (if c = asc CHR ''/'' then segments w else tl (segments w))"
      using segments_ne [of w] by (cases "segments w") simp_all
    ultimately show ?case using Cons len us_dot_dot_iff [of w] by auto
  qed simp
  then show ?thesis
    using segments_ne [of w] us_dot_dot_iff [of w] by (cases "segments w") (auto simp: path_safe_def)
qed

text \<open>The URI up to its first question mark, which is included.\<close>

fun upto_q :: "byte list \<Rightarrow> byte list" where
  "upto_q [] = []"
| "upto_q (c # w) = (if c = asc CHR ''?'' then [c] else c # upto_q w)"

lemma us_dot_dot_upto_q: "us_dot_dot (upto_q p) = us_dot_dot p"
proof (cases p)
  case (Cons a p1)
  show ?thesis
  proof (cases p1)
    case p1: (Cons b p2)
    show ?thesis by (cases p2) (auto simp: us_dot_dot_def Cons p1)
  qed (simp add: us_dot_dot_def Cons)
qed simp

lemma us_scan_eq:
  "us_scan q w =
    (if NUL \<in> set (upto_q w) \<or> bytes ''..'' \<in> set (tl (segments (upto_q w))) then None
     else Some (q \<or> asc CHR ''%'' \<in> set (upto_q w),
       if asc CHR ''?'' \<in> set w then Some (tl (dropWhile (\<lambda>c. c \<noteq> asc CHR ''?'') w)) else None))"
proof (induction w arbitrary: q)
  case (Cons c w)
  have seg: "set (segments (upto_q w)) = insert (hd (segments (upto_q w))) (set (tl (segments (upto_q w))))"
    "tl (segments (c # upto_q w)) = (if c = asc CHR ''/'' then segments (upto_q w) else tl (segments (upto_q w)))"
    using segments_ne [of "upto_q w"] by (cases "segments (upto_q w)"; simp)+
  have dd: "bytes ''..'' = hd (segments (upto_q w)) \<longleftrightarrow> us_dot_dot w"
    using us_dot_dot_iff [of "upto_q w"] us_dot_dot_upto_q [of w] by auto
  have len: "us_dot_dot w \<Longrightarrow> length (c # w) > 2" by (simp add: us_dot_dot_def)
  consider "bitmap_test usual c" | "c = asc CHR ''%''" | "c = asc CHR ''?''" | "c = NUL" | "c = asc CHR ''/''"
    | "\<not> bitmap_test usual c" "c \<noteq> asc CHR ''%''" "c \<noteq> asc CHR ''?''" "c \<noteq> NUL" "c \<noteq> asc CHR ''/''" by blast
  then show ?case
  proof cases
    case 1
    with Cons seg usualD [OF 1] show ?thesis by (simp del: segments.simps(2))
  next
    case 5
    show ?thesis
    proof (cases "us_dot_dot w")
      case True
      with 5 len seg dd show ?thesis by (simp del: segments.simps(2))
    next
      case False
      with 5 Cons seg dd show ?thesis by (simp del: segments.simps(2))
    qed
  next
    case 6
    with Cons seg show ?thesis by (simp del: segments.simps(2))
  next
    case 3
    then show ?thesis by simp
  qed (use Cons seg in \<open>simp_all del: segments.simps(2)\<close>)
qed simp

lemma upto_q_path: "upto_q w = takeWhile (\<lambda>c. c \<noteq> asc CHR ''?'') w @
    (if asc CHR ''?'' \<in> set w then [asc CHR ''?''] else [])"
  by (induction w) auto

text \<open>
  Claim C24. A URI is accepted exactly if its path is not empty and has no null byte and no segment
  \<open>..\<close>, as it is and decoded if it has an escape; the result is the decoded path and the
  arguments. But the path is looked at up to the question mark, not before it.
\<close>
theorem unsafe_uri_correct:
  "ngx_http_parse_unsafe_uri uri =
    (let path = takeWhile (\<lambda>c. c \<noteq> asc CHR ''?'') uri;
         escaped = (asc CHR ''%'' \<in> set path);
         dst = (if escaped then fst (ngx_unescape_uri path 0) else path)
     in if path \<noteq> [] \<and> path_safe (upto_q uri) \<and> (if escaped then path_safe dst else True)
        then Some (dst, if asc CHR ''?'' \<in> set uri then Some (tl (dropWhile (\<lambda>c. c \<noteq> asc CHR ''?'') uri)) else None)
        else None)"
proof (cases "uri = [] \<or> hd uri = asc CHR ''?''")
  case True
  then have "takeWhile (\<lambda>c. c \<noteq> asc CHR ''?'') uri = []" by (cases uri) auto
  with True show ?thesis by (cases uri) (auto simp: ngx_http_parse_unsafe_uri_def)
next
  case False
  define path where "path = takeWhile (\<lambda>c. c \<noteq> asc CHR ''?'') uri"
  have ne: "path \<noteq> []" "uri ! 0 \<noteq> asc CHR ''?''" using False by (cases uri; simp add: path_def)+
  have safe: "path_safe (upto_q uri) \<longleftrightarrow> \<not> us_dot_dot uri \<and>
      \<not> (NUL \<in> set (upto_q uri) \<or> bytes ''..'' \<in> set (tl (segments (upto_q uri))))"
    using us_dot_dot_iff [of "upto_q uri"] us_dot_dot_upto_q [of uri] segments_ne [of "upto_q uri"]
    by (cases "segments (upto_q uri)") (auto simp: path_safe_def)
  have pq: "asc CHR ''%'' \<in> set (upto_q uri) \<longleftrightarrow> asc CHR ''%'' \<in> set path"
    by (auto simp: upto_q_path path_def)
  let ?a = "tl (dropWhile (\<lambda>c. c \<noteq> asc CHR ''?'') uri)"
  have take: "take (length uri - (length ?a + 1)) uri = path" if "asc CHR ''?'' \<in> set uri"
  proof -
    have "dropWhile (\<lambda>c. c \<noteq> asc CHR ''?'') uri \<noteq> []" using that by (auto simp: dropWhile_eq_Nil_conv)
    then have "length ?a + 1 = length (dropWhile (\<lambda>c. c \<noteq> asc CHR ''?'') uri)" by simp
    moreover have "uri = path @ dropWhile (\<lambda>c. c \<noteq> asc CHR ''?'') uri" by (simp add: path_def)
    ultimately show ?thesis by (metis add_diff_cancel_right' append_eq_conv_conj length_append)
  qed
  have nq: "path = uri" if "asc CHR ''?'' \<notin> set uri"
    unfolding path_def using that by (simp add: takeWhile_eq_all_conv) metis
  show ?thesis
    unfolding path_def [symmetric] Let_def
    using ne safe pq take nq False us_scan2_safe [of "fst (ngx_unescape_uri path 0)"]
    by (auto simp: ngx_http_parse_unsafe_uri_def us_scan_eq [of False uri] Let_def)
qed

text \<open>
  The segment in front of a question mark escapes the check: a parent directory with
  arguments behind it is accepted, the same without arguments is not.
\<close>
theorem unsafe_uri_dot_dot_args:
  "ngx_http_parse_unsafe_uri (bytes ''/..?'' @ args) = Some (bytes ''/..'', Some args) \<and>
   ngx_http_parse_unsafe_uri (bytes ''/..'') = None"
proof -
  have "path_safe (bytes ''/..?'')" "\<not> path_safe (bytes ''/..'')" by code_simp+
  then show ?thesis by (simp add: unsafe_uri_correct Let_def)
qed

end
