(* ===== verification/NgxBase64.thy ===== *)
theory NgxBase64
  imports Prelude
begin

unbundle bit_operations_syntax

text \<open>
  Base64 of src/core/ngx_string.c: the encoders for the standard and the URL alphabet, the
  table-driven decoders, and the size macros of src/core/ngx_string.h. A table lookup
  \<open>basis[x]\<close> is \<open>basis ! unat x\<close>; the index is proved to be in range. \<open>None\<close> of a decoder is
  \<open>NGX_ERROR\<close>.
\<close>

section \<open>Encoding\<close>

definition basis64_std :: "byte list" where
  "basis64_std = bytes ''ABCDEFGHIJKLMNOPQRSTUVWXYZabcdefghijklmnopqrstuvwxyz0123456789+/''"

definition basis64_url :: "byte list" where
  "basis64_url = bytes ''ABCDEFGHIJKLMNOPQRSTUVWXYZabcdefghijklmnopqrstuvwxyz0123456789-_''"

fun ngx_encode_base64_internal :: "byte list \<Rightarrow> bool \<Rightarrow> byte list \<Rightarrow> byte list" where
  "ngx_encode_base64_internal basis padding (s0 # s1 # s2 # s) =
     basis ! unat (drop_bit 2 s0 AND 0x3f) #
     basis ! unat (push_bit 4 (s0 AND 3) OR drop_bit 4 s1) #
     basis ! unat (push_bit 2 (s1 AND 0x0f) OR drop_bit 6 s2) #
     basis ! unat (s2 AND 0x3f) #
     ngx_encode_base64_internal basis padding s"
| "ngx_encode_base64_internal basis padding [s0] =
     [basis ! unat (drop_bit 2 s0 AND 0x3f), basis ! unat (push_bit 4 (s0 AND 3))] @
     (if padding then [asc CHR ''='', asc CHR ''=''] else [])"
| "ngx_encode_base64_internal basis padding [s0, s1] =
     [basis ! unat (drop_bit 2 s0 AND 0x3f),
      basis ! unat (push_bit 4 (s0 AND 3) OR drop_bit 4 s1),
      basis ! unat (push_bit 2 (s1 AND 0x0f))] @
     (if padding then [asc CHR ''=''] else [])"
| "ngx_encode_base64_internal basis padding [] = []"

definition ngx_encode_base64 :: "byte list \<Rightarrow> byte list" where
  "ngx_encode_base64 src = ngx_encode_base64_internal basis64_std True src"

definition ngx_encode_base64url :: "byte list \<Rightarrow> byte list" where
  "ngx_encode_base64url src = ngx_encode_base64_internal basis64_url False src"

definition ngx_base64_encoded_length :: "nat \<Rightarrow> nat" where
  "ngx_base64_encoded_length len = (len + 2) div 3 * 4"

definition ngx_base64_decoded_length :: "nat \<Rightarrow> nat" where
  "ngx_base64_decoded_length len = (len + 3) div 4 * 3"

section \<open>Decoding\<close>

definition basis64_dec_std :: "byte list" where
  "basis64_dec_std =
    [77, 77, 77, 77, 77, 77, 77, 77, 77, 77, 77, 77, 77, 77, 77, 77,
     77, 77, 77, 77, 77, 77, 77, 77, 77, 77, 77, 77, 77, 77, 77, 77,
     77, 77, 77, 77, 77, 77, 77, 77, 77, 77, 77, 62, 77, 77, 77, 63,
     52, 53, 54, 55, 56, 57, 58, 59, 60, 61, 77, 77, 77, 77, 77, 77,
     77,  0,  1,  2,  3,  4,  5,  6,  7,  8,  9, 10, 11, 12, 13, 14,
     15, 16, 17, 18, 19, 20, 21, 22, 23, 24, 25, 77, 77, 77, 77, 77,
     77, 26, 27, 28, 29, 30, 31, 32, 33, 34, 35, 36, 37, 38, 39, 40,
     41, 42, 43, 44, 45, 46, 47, 48, 49, 50, 51, 77, 77, 77, 77, 77] @ replicate 128 77"

definition basis64_dec_url :: "byte list" where
  "basis64_dec_url =
    [77, 77, 77, 77, 77, 77, 77, 77, 77, 77, 77, 77, 77, 77, 77, 77,
     77, 77, 77, 77, 77, 77, 77, 77, 77, 77, 77, 77, 77, 77, 77, 77,
     77, 77, 77, 77, 77, 77, 77, 77, 77, 77, 77, 77, 77, 62, 77, 77,
     52, 53, 54, 55, 56, 57, 58, 59, 60, 61, 77, 77, 77, 77, 77, 77,
     77,  0,  1,  2,  3,  4,  5,  6,  7,  8,  9, 10, 11, 12, 13, 14,
     15, 16, 17, 18, 19, 20, 21, 22, 23, 24, 25, 77, 77, 77, 77, 63,
     77, 26, 27, 28, 29, 30, 31, 32, 33, 34, 35, 36, 37, 38, 39, 40,
     41, 42, 43, 44, 45, 46, 47, 48, 49, 50, 51, 77, 77, 77, 77, 77] @ replicate 128 77"

text \<open>
  The first loop finds the length \<open>len\<close> of the part before \<open>=\<close>; the model returns that part.
\<close>

fun base64_scan :: "byte list \<Rightarrow> byte list \<Rightarrow> byte list option" where
  "base64_scan basis [] = Some []"
| "base64_scan basis (c # src) =
     (if c = asc CHR ''='' then Some []
      else if basis ! unat c = 77 then None
      else map_option (Cons c) (base64_scan basis src))"

fun base64_groups :: "byte list \<Rightarrow> byte list \<Rightarrow> byte list" where
  "base64_groups basis (s0 # s1 # s2 # s3 # s) =
     (push_bit 2 (basis ! unat s0) OR drop_bit 4 (basis ! unat s1)) #
     (push_bit 4 (basis ! unat s1) OR drop_bit 2 (basis ! unat s2)) #
     (push_bit 6 (basis ! unat s2) OR basis ! unat s3) #
     base64_groups basis s"
| "base64_groups basis [s0, s1, s2] =
     [push_bit 2 (basis ! unat s0) OR drop_bit 4 (basis ! unat s1),
      push_bit 4 (basis ! unat s1) OR drop_bit 2 (basis ! unat s2)]"
| "base64_groups basis [s0, s1] =
     [push_bit 2 (basis ! unat s0) OR drop_bit 4 (basis ! unat s1)]"
| "base64_groups basis _ = []"

definition ngx_decode_base64_internal :: "byte list \<Rightarrow> byte list \<Rightarrow> byte list option" where
  "ngx_decode_base64_internal basis src =
     (case base64_scan basis src of
        None \<Rightarrow> None
      | Some s \<Rightarrow> if length s mod 4 = 1 then None else Some (base64_groups basis s))"

definition ngx_decode_base64 :: "byte list \<Rightarrow> byte list option" where
  "ngx_decode_base64 src = ngx_decode_base64_internal basis64_dec_std src"

definition ngx_decode_base64url :: "byte list \<Rightarrow> byte list option" where
  "ngx_decode_base64url src = ngx_decode_base64_internal basis64_dec_url src"

section \<open>Correctness\<close>

text \<open>A decoding table inverts an alphabet: checked on its 64 entries.\<close>

definition inverts :: "byte list \<Rightarrow> byte list \<Rightarrow> bool" where
  "inverts dtab basis \<longleftrightarrow>
     list_all (\<lambda>i. dtab ! unat (basis ! i) = of_nat i \<and> basis ! i \<noteq> asc CHR ''='') [0..<64]"

lemma inverts_std: "inverts basis64_dec_std basis64_std"
  by code_simp

lemma inverts_url: "inverts basis64_dec_url basis64_url"
  by code_simp

lemma less_64: "(b :: byte) < 64 \<Longrightarrow> unat b < 64"
  by (simp add: word_less_nat_alt)

lemma invertsD:
  assumes "inverts dtab basis" "x < 64"
  shows "dtab ! unat (basis ! unat x) = x" "basis ! unat x \<noteq> asc CHR ''=''"
    "dtab ! unat (basis ! unat x) \<noteq> 77"
  using assms(1) less_64 [OF assms(2)] assms(2) by (auto simp: inverts_def list_all_iff)

lemma sextet_bound:
  assumes "\<not> bit (b :: byte) 6" "\<not> bit b 7"
  shows "b < 64"
proof -
  have "b = take_bit 6 b"
    using assms by (intro byte_eqI) (simp_all add: bit_simps)
  then have "unat b = take_bit 6 (unat b)" by (metis unsigned_take_bit_eq)
  moreover have "take_bit 6 (unat b) < 2 ^ 6" by (rule take_bit_nat_less_exp)
  ultimately show ?thesis by (simp add: word_less_nat_alt)
qed

lemma sextets [simp]:
  "drop_bit 2 (s0 :: byte) AND 0x3f < 64"
  "push_bit 4 (s0 AND 3) OR drop_bit 4 s1 < 64"
  "push_bit 2 (s1 AND 0x0f) OR drop_bit 6 s2 < 64"
  "s2 AND 0x3f < 64"
  "push_bit 4 (s0 AND 3) < 64"
  "push_bit 2 (s1 AND 0x0f) < 64"
  by (rule sextet_bound; simp add: bit_simps)+

lemma octets:
  "push_bit 2 (drop_bit 2 (s0 :: byte) AND 0x3f) OR drop_bit 4 (push_bit 4 (s0 AND 3) OR drop_bit 4 s1) = s0"
  "push_bit 4 (push_bit 4 (s0 AND 3) OR drop_bit 4 s1) OR
     drop_bit 2 (push_bit 2 (s1 AND 0x0f) OR drop_bit 6 s2) = s1"
  "push_bit 6 (push_bit 2 (s1 AND 0x0f) OR drop_bit 6 s2) OR (s2 AND 0x3f) = s2"
  "push_bit 2 (drop_bit 2 (s0 :: byte) AND 0x3f) OR drop_bit 4 (push_bit 4 (s0 AND 3)) = s0"
  "push_bit 4 (push_bit 4 (s0 AND 3) OR drop_bit 4 s1) OR
     drop_bit 2 (push_bit 2 (s1 AND 0x0f)) = s1"
  by (rule byte_eqI; simp add: bit_simps)+

lemma scan_cons:
  "inverts dtab basis \<Longrightarrow> (x :: byte) < 64 \<Longrightarrow> base64_scan dtab (basis ! unat x # s) =
     map_option (Cons (basis ! unat x)) (base64_scan dtab s)"
  using invertsD [of dtab basis x] by simp

lemma scan_pad: "base64_scan dtab (asc CHR ''='' # s) = Some []"
  by simp

lemma scan_enc:
  "inverts dtab basis \<Longrightarrow> base64_scan dtab (ngx_encode_base64_internal basis padding s) =
     Some (ngx_encode_base64_internal basis False s)"
proof (induction basis padding s rule: ngx_encode_base64_internal.induct)
  case (1 basis padding s0 s1 s2 s)
  then show ?case
    by (simp only: ngx_encode_base64_internal.simps scan_cons sextets option.map)
next
  case (2 basis padding s0)
  then show ?case
    by (cases padding) (simp_all only: ngx_encode_base64_internal.simps append.simps scan_cons
      sextets if_True if_False base64_scan.simps(1) scan_pad option.map)
next
  case (3 basis padding s0 s1)
  then show ?case
    by (cases padding) (simp_all only: ngx_encode_base64_internal.simps append.simps scan_cons
      sextets if_True if_False base64_scan.simps(1) scan_pad option.map)
qed simp

lemma groups_enc:
  "inverts dtab basis \<Longrightarrow> base64_groups dtab (ngx_encode_base64_internal basis False s) = s"
proof (induction basis "False" s rule: ngx_encode_base64_internal.induct)
  case (1 basis s0 s1 s2 s)
  then show ?case
    by (simp only: ngx_encode_base64_internal.simps base64_groups.simps invertsD sextets octets)
next
  case (2 basis s0)
  then show ?case
    by (simp only: ngx_encode_base64_internal.simps base64_groups.simps invertsD sextets octets
      append.simps if_False)
next
  case (3 basis s0 s1)
  then show ?case
    by (simp only: ngx_encode_base64_internal.simps base64_groups.simps invertsD sextets octets
      append.simps if_False)
qed simp

lemma encoded_length_3:
  "ngx_base64_encoded_length (Suc (Suc (Suc n))) = 4 + ngx_base64_encoded_length n"
  "(4 * Suc (Suc (Suc n)) + 2) div 3 = 4 + (4 * n + 2) div 3"
proof -
  have "Suc (Suc (Suc n)) + 2 = (n + 2) + 1 * 3" by simp
  then show "ngx_base64_encoded_length (Suc (Suc (Suc n))) = 4 + ngx_base64_encoded_length n"
    unfolding ngx_base64_encoded_length_def by (simp only: div_mult_self1) simp
  have "4 * Suc (Suc (Suc n)) + 2 = (4 * n + 2) + 4 * 3" by simp
  then show "(4 * Suc (Suc (Suc n)) + 2) div 3 = 4 + (4 * n + 2) div 3"
    by (simp only: div_mult_self1)
qed

lemma length_enc_internal:
  "length (ngx_encode_base64_internal basis padding s) =
     (if padding then ngx_base64_encoded_length (length s) else (4 * length s + 2) div 3)"
proof (induction basis padding s rule: ngx_encode_base64_internal.induct)
  case (1 basis padding s0 s1 s2 s)
  then show ?case
    by (simp only: ngx_encode_base64_internal.simps list.size encoded_length_3 add_0_right
        add_Suc_right split: if_split) simp
qed (simp_all add: ngx_base64_encoded_length_def)

lemma decode_enc:
  assumes "inverts dtab basis"
  shows "ngx_decode_base64_internal dtab (ngx_encode_base64_internal basis padding s) = Some s"
proof -
  have "length (ngx_encode_base64_internal basis False s) mod 4 \<noteq> 1"
  proof -
    have "(4 * length s + 2) div 3 mod 4 \<noteq> 1" by presburger
    then show ?thesis by (simp add: length_enc_internal)
  qed
  then show ?thesis
    by (simp add: ngx_decode_base64_internal_def scan_enc [OF assms] groups_enc [OF assms])
qed

interpretation b64: sized_codec ngx_encode_base64 ngx_decode_base64
  "\<lambda>s. ngx_base64_encoded_length (length s)"
  by unfold_locales
    (simp_all add: ngx_encode_base64_def ngx_decode_base64_def decode_enc inverts_std
      length_enc_internal)

interpretation b64url: sized_codec ngx_encode_base64url ngx_decode_base64url
  "\<lambda>s. (4 * length s + 2) div 3"
  by unfold_locales
    (simp_all add: ngx_encode_base64url_def ngx_decode_base64url_def decode_enc inverts_url
      length_enc_internal)

text \<open>
  Claim C31. Both base64 codecs are exact: decoding an encoding returns the bytes encoded, and the
  standard encoder writes exactly \<open>ngx_base64_encoded_length\<close> bytes, the URL one at most that.
\<close>
theorem ngx_base64_roundtrip:
  "ngx_decode_base64 (ngx_encode_base64 s) = Some s \<and>
   ngx_decode_base64url (ngx_encode_base64url s) = Some s \<and>
   length (ngx_encode_base64 s) = ngx_base64_encoded_length (length s) \<and>
   length (ngx_encode_base64url s) \<le> ngx_base64_encoded_length (length s)"
proof -
  have "(4 * length s + 2) div 3 \<le> ngx_base64_encoded_length (length s)"
    unfolding ngx_base64_encoded_length_def by presburger
  then show ?thesis
    by (simp only: b64.dec_enc b64url.dec_enc b64.length_enc b64url.length_enc simp_thms)
qed

lemma length_scan: "base64_scan basis src = Some s \<Longrightarrow> length s \<le> length src"
  by (induction src arbitrary: s) (auto split: if_splits)

lemma decoded_length_4:
  "ngx_base64_decoded_length (Suc (Suc (Suc (Suc n)))) = 3 + ngx_base64_decoded_length n"
proof -
  have "Suc (Suc (Suc (Suc n))) + 3 = (n + 3) + 1 * 4" by simp
  then show ?thesis
    unfolding ngx_base64_decoded_length_def by (simp only: div_mult_self1) simp
qed

lemma length_groups: "length (base64_groups basis s) \<le> ngx_base64_decoded_length (length s)"
proof (induction basis s rule: base64_groups.induct)
  case (1 basis s0 s1 s2 s3 s)
  then show ?case by (simp add: decoded_length_4)
qed (simp_all add: ngx_base64_decoded_length_def)

text \<open>
  Whatever the input, a decoder never writes more than \<open>ngx_base64_decoded_length\<close>
  bytes, the size its callers allocate.
\<close>
theorem ngx_decode_base64_bounds:
  assumes "ngx_decode_base64_internal dtab src = Some dst"
  shows "length dst \<le> ngx_base64_decoded_length (length src)"
proof -
  from assms obtain s where s: "base64_scan dtab src = Some s" "dst = base64_groups dtab s"
    by (auto simp: ngx_decode_base64_internal_def split: option.splits if_splits)
  have "length dst \<le> ngx_base64_decoded_length (length s)"
    unfolding s(2) by (rule length_groups)
  also have "\<dots> \<le> ngx_base64_decoded_length (length src)"
    using length_scan [OF s(1)] unfolding ngx_base64_decoded_length_def
    by (intro mult_le_mono1 div_le_mono) simp
  finally show ?thesis .
qed

theorem ngx_decode_base64_bounds_witness:
  "ngx_decode_base64_internal basis64_dec_std (bytes ''TWE='') = Some (bytes ''Ma'') \<and>
   length (bytes ''Ma'') \<le> ngx_base64_decoded_length (length (bytes ''TWE=''))"
proof -
  have "ngx_decode_base64_internal basis64_dec_std (bytes ''TWE='') = Some (bytes ''Ma'')"
    by code_simp
  with ngx_decode_base64_bounds [OF this] show ?thesis by simp
qed

end
