(* ===== verification/HttpHeader.thy ===== *)
theory HttpHeader
  imports Prelude
begin

unbundle bit_operations_syntax

text \<open>
  \<open>ngx_http_parse_header_line\<close> of src/http/ngx_http_parse.c: one header line per call, with the
  running hash and the lower-case copy of the name that the header lookup uses. The buffer and
  its pointers are modelled as in the request line; the local variables \<open>hash\<close> and \<open>i\<close> are the
  fields \<open>header_hash\<close> and \<open>lowcase_index\<close> they are loaded from and stored to.
\<close>

section \<open>Data\<close>

datatype hl_state =
    hs_start | hs_name | hs_space_before_value | hs_value | hs_space_after_value | hs_ignore_line
  | hs_almost_done | hs_header_almost_done

record rhdr =
  hstate :: hl_state
  header_hash :: u64
  lowcase_index :: nat
  lowcase_header :: "byte list"
  invalid_header :: bool
  header_name_start :: "nat option"
  header_name_end :: "nat option"
  header_start :: "nat option"
  header_end :: "nat option"

definition rhdr_init :: rhdr where
  "rhdr_init = \<lparr>hstate = hs_start, header_hash = 0, lowcase_index = 0, lowcase_header = replicate 32 0,
     invalid_header = False, header_name_start = None, header_name_end = None, header_start = None,
     header_end = None\<rparr>"

datatype hl_stop = hl_done rhdr | hl_header_done rhdr | hl_fail i64

definition NGX_HTTP_PARSE_HEADER_DONE :: i64 where "NGX_HTTP_PARSE_HEADER_DONE = 1"
definition NGX_HTTP_PARSE_INVALID_HEADER :: i64 where "NGX_HTTP_PARSE_INVALID_HEADER = 13"

abbreviation hl_invalid :: "rhdr + hl_stop" where
  "hl_invalid \<equiv> Inr (hl_fail NGX_HTTP_PARSE_INVALID_HEADER)"

text \<open>The table \<open>lowcase[]\<close>: lower case of a byte a name may have, zero for any other.\<close>

definition lowcase_tab :: "byte list" where
  "lowcase_tab = replicate 32 0 @
     replicate 13 0 @ bytes ''-'' @ replicate 2 0 @ bytes ''0123456789'' @ replicate 6 0 @
     0 # bytes ''abcdefghijklmnopqrstuvwxyz'' @ replicate 5 0 @
     0 # bytes ''abcdefghijklmnopqrstuvwxyz'' @ replicate 5 0 @ replicate 128 0"

definition lowcase :: "byte \<Rightarrow> byte" where
  "lowcase ch = lowcase_tab ! unat ch"

definition ngx_hash :: "u64 \<Rightarrow> byte \<Rightarrow> u64" where
  "ngx_hash key c = key * 31 + ucast c"

section \<open>The steps\<close>

text \<open>A byte \<open>c\<close> of the name is added to the hash and to the copy.\<close>

definition first_name_byte :: "byte \<Rightarrow> rhdr \<Rightarrow> rhdr" where
  "first_name_byte c r = r\<lparr>header_hash := ngx_hash 0 c, lowcase_header := (lowcase_header r)[0 := c],
     lowcase_index := 1\<rparr>"

definition next_name_byte :: "byte \<Rightarrow> rhdr \<Rightarrow> rhdr" where
  "next_name_byte c r = r\<lparr>header_hash := ngx_hash (header_hash r) c,
     lowcase_header := (lowcase_header r)[lowcase_index r := c],
     lowcase_index := (lowcase_index r + 1) mod 32\<rparr>"

definition hst_start :: "bool \<Rightarrow> nat \<Rightarrow> rhdr \<Rightarrow> byte \<Rightarrow> rhdr + hl_stop" where
  "hst_start allow_underscores p r0 ch =
     (let r = r0\<lparr>header_name_start := Some p, invalid_header := False\<rparr> in
      if ch = CR then Inl (r\<lparr>header_end := Some p, hstate := hs_header_almost_done\<rparr>)
      else if ch = LF then Inr (hl_header_done (r\<lparr>header_end := Some p\<rparr>))
      else let r = r\<lparr>hstate := hs_name\<rparr>; c = lowcase ch in
        if c \<noteq> 0 then Inl (first_name_byte c r)
        else if ch = asc CHR ''_'' then
          (if allow_underscores then Inl (first_name_byte ch r) else Inl (r\<lparr>invalid_header := True\<rparr>))
        else if ch = NUL then hl_invalid
        else Inl (r\<lparr>invalid_header := True\<rparr>))"

definition hst_name :: "bool \<Rightarrow> bool \<Rightarrow> byte list \<Rightarrow> nat \<Rightarrow> rhdr \<Rightarrow> byte \<Rightarrow> rhdr + hl_stop" where
  "hst_name upstream allow_underscores d p r ch =
     (let c = lowcase ch in
      if c \<noteq> 0 then Inl (next_name_byte c r)
      else if ch = asc CHR ''_'' then
        (if allow_underscores then Inl (next_name_byte ch r) else Inl (r\<lparr>invalid_header := True\<rparr>))
      else if ch = asc CHR '':'' then
        Inl (r\<lparr>header_name_end := Some p, hstate := hs_space_before_value\<rparr>)
      else if ch = CR then
        Inl (r\<lparr>header_name_end := Some p, header_start := Some p, header_end := Some p,
               hstate := hs_almost_done\<rparr>)
      else if ch = LF then
        Inr (hl_done (r\<lparr>header_name_end := Some p, header_start := Some p, header_end := Some p\<rparr>))
      else if ch = asc CHR ''/'' \<and> upstream \<and>
        (case header_name_start r of None \<Rightarrow> False
         | Some m \<Rightarrow> p - m = 4 \<and> take 4 (drop m d) = bytes ''HTTP'') then
        Inl (r\<lparr>hstate := hs_ignore_line\<rparr>)
      else if ch = NUL then hl_invalid
      else Inl (r\<lparr>invalid_header := True\<rparr>))"

definition hst_space_before_value :: "nat \<Rightarrow> rhdr \<Rightarrow> byte \<Rightarrow> rhdr + hl_stop" where
  "hst_space_before_value p r ch =
     (if ch = SP then Inl r
      else if ch = CR then Inl (r\<lparr>header_start := Some p, header_end := Some p, hstate := hs_almost_done\<rparr>)
      else if ch = LF then Inr (hl_done (r\<lparr>header_start := Some p, header_end := Some p\<rparr>))
      else if ch = NUL then hl_invalid
      else Inl (r\<lparr>header_start := Some p, hstate := hs_value\<rparr>))"

definition hst_value :: "nat \<Rightarrow> rhdr \<Rightarrow> byte \<Rightarrow> rhdr + hl_stop" where
  "hst_value p r ch =
     (if ch = SP then Inl (r\<lparr>header_end := Some p, hstate := hs_space_after_value\<rparr>)
      else if ch = CR then Inl (r\<lparr>header_end := Some p, hstate := hs_almost_done\<rparr>)
      else if ch = LF then Inr (hl_done (r\<lparr>header_end := Some p\<rparr>))
      else if ch = NUL then hl_invalid
      else Inl r)"

definition hst_space_after_value :: "rhdr \<Rightarrow> byte \<Rightarrow> rhdr + hl_stop" where
  "hst_space_after_value r ch =
     (if ch = SP then Inl r
      else if ch = CR then Inl (r\<lparr>hstate := hs_almost_done\<rparr>)
      else if ch = LF then Inr (hl_done r)
      else if ch = NUL then hl_invalid
      else Inl (r\<lparr>hstate := hs_value\<rparr>))"

definition hst_ignore_line :: "rhdr \<Rightarrow> byte \<Rightarrow> rhdr + hl_stop" where
  "hst_ignore_line r ch = (if ch = LF then Inl (r\<lparr>hstate := hs_start\<rparr>) else Inl r)"

definition hst_almost_done :: "rhdr \<Rightarrow> byte \<Rightarrow> rhdr + hl_stop" where
  "hst_almost_done r ch =
     (if ch = LF then Inr (hl_done r) else if ch = CR then Inl r else hl_invalid)"

definition hst_header_almost_done :: "rhdr \<Rightarrow> byte \<Rightarrow> rhdr + hl_stop" where
  "hst_header_almost_done r ch = (if ch = LF then Inr (hl_header_done r) else hl_invalid)"

definition hl_step :: "bool \<Rightarrow> bool \<Rightarrow> byte list \<Rightarrow> nat \<Rightarrow> rhdr \<Rightarrow> byte \<Rightarrow> rhdr + hl_stop" where
  "hl_step up au d p r ch = (case hstate r of
     hs_start \<Rightarrow> hst_start au p r ch
   | hs_name \<Rightarrow> hst_name up au d p r ch
   | hs_space_before_value \<Rightarrow> hst_space_before_value p r ch
   | hs_value \<Rightarrow> hst_value p r ch
   | hs_space_after_value \<Rightarrow> hst_space_after_value r ch
   | hs_ignore_line \<Rightarrow> hst_ignore_line r ch
   | hs_almost_done \<Rightarrow> hst_almost_done r ch
   | hs_header_almost_done \<Rightarrow> hst_header_almost_done r ch)"

text \<open>
  A call at \<open>b->pos = p\<close>. On \<open>header_done\<close> the locals \<open>hash\<close> and \<open>i\<close> are not stored back.
\<close>

datatype hl_result = hl_again rhdr nat | hl_return i64 rhdr nat | hl_error i64

definition ngx_http_parse_header_line :: "bool \<Rightarrow> bool \<Rightarrow> byte list \<Rightarrow> nat \<Rightarrow> rhdr \<Rightarrow> hl_result" where
  "ngx_http_parse_header_line up au d p r =
     (case feed (hl_step up au) d p r of
        Inl r' \<Rightarrow> hl_again r' (max p (length d))
      | Inr (q, hl_done r') \<Rightarrow> hl_return NGX_OK (r'\<lparr>hstate := hs_start\<rparr>) (q + 1)
      | Inr (q, hl_header_done r') \<Rightarrow>
          hl_return NGX_HTTP_PARSE_HEADER_DONE
            (r'\<lparr>hstate := hs_start, header_hash := header_hash r, lowcase_index := lowcase_index r\<rparr>) (q + 1)
      | Inr (q, hl_fail e) \<Rightarrow> hl_error e)"

section \<open>Parsing in pieces\<close>

lemma hl_step_append: "p < length d \<Longrightarrow> hl_step up au (d @ e) p r c = hl_step up au d p r c"
  by (auto simp: hl_step_def hst_name_def Let_def split: hl_state.split option.split)

interpretation hl: incremental "hl_step up au"
  by unfold_locales (rule hl_step_append)

text \<open>
  The hash and the index of an end of header are leftovers nobody reads: they depend on where
  the calls were cut.
\<close>

definition hl_obs :: "hl_result \<Rightarrow> hl_result" where
  "hl_obs res = (case res of
     hl_return rc r q \<Rightarrow>
       (if rc = NGX_HTTP_PARSE_HEADER_DONE then hl_return rc (r\<lparr>header_hash := 0, lowcase_index := 0\<rparr>) q
        else res)
   | _ \<Rightarrow> res)"

text \<open>
  Claim C21. Header lines may arrive in any number of pieces: after \<open>NGX_AGAIN\<close> the call on the
  longer buffer, from the saved position, state, hash and index, observes what one call on
  all the bytes observes; any other result does not depend on the bytes behind it.
\<close>
theorem header_line_resumable:
  assumes "p \<le> length d"
  shows "case ngx_http_parse_header_line up au d p r of
      hl_again r' q \<Rightarrow> q = length d \<and> hl_obs (ngx_http_parse_header_line up au (d @ e) p r) =
        hl_obs (ngx_http_parse_header_line up au (d @ e) q r')
    | res \<Rightarrow> ngx_http_parse_header_line up au (d @ e) p r = res"
proof (cases "feed (hl_step up au) d p r")
  case (Inl r')
  with assms show ?thesis
    by (simp add: ngx_http_parse_header_line_def hl.feed_again [OF assms Inl] max_absorb2 hl_obs_def
        split: sum.split hl_stop.split)
next
  case (Inr qr)
  with hl.feed_stop [OF assms Inr] show ?thesis
    by (cases qr; cases "snd qr") (simp_all add: ngx_http_parse_header_line_def)
qed

definition hl_is_again :: "hl_result \<Rightarrow> bool" where
  "hl_is_again res = (case res of hl_again r q \<Rightarrow> True | _ \<Rightarrow> False)"

theorem header_line_resumable_witness:
  "\<exists>r' q. ngx_http_parse_header_line False False (bytes ''Ho'') 0 rhdr_init = hl_again r' q \<and>
     hl_obs (ngx_http_parse_header_line False False (bytes ''Host: a'' @ [LF]) 0 rhdr_init) =
     hl_obs (ngx_http_parse_header_line False False (bytes ''Host: a'' @ [LF]) q r')"
proof -
  have "hl_is_again (ngx_http_parse_header_line False False (bytes ''Ho'') 0 rhdr_init)" by code_simp
  then obtain r' q where *: "ngx_http_parse_header_line False False (bytes ''Ho'') 0 rhdr_init = hl_again r' q"
    by (auto simp: hl_is_again_def split: hl_result.splits)
  have split: "bytes ''Host: a'' @ [LF] = bytes ''Ho'' @ (bytes ''st: a'' @ [LF])" by simp
  show ?thesis
    using header_line_resumable [of 0 "bytes ''Ho''" False False "bytes ''st: a'' @ [LF]" rhdr_init] *
    unfolding split by (simp only: hl_result.simps) simp
qed

section \<open>The accepted header line\<close>

subsection \<open>The name, its hash and its copy\<close>

definition name_char :: "bool \<Rightarrow> byte \<Rightarrow> bool" where
  "name_char au c \<longleftrightarrow> lowcase c \<noteq> 0 \<or> au \<and> c = asc CHR ''_''"

definition name_lower :: "byte \<Rightarrow> byte" where
  "name_lower c = (if lowcase c \<noteq> 0 then lowcase c else c)"

definition name_hash :: "byte list \<Rightarrow> u64" where
  "name_hash w = foldl ngx_hash 0 w"

definition hashed :: "bool \<Rightarrow> byte list \<Rightarrow> rhdr \<Rightarrow> bool" where
  "hashed au w r \<longleftrightarrow> list_all (name_char au) w \<and> header_hash r = name_hash (map name_lower w) \<and>
     lowcase_index r = length w mod 32 \<and>
     (length w \<le> 32 \<longrightarrow> take (length w) (lowcase_header r) = map name_lower w)"

lemma hashed_first:
  assumes "name_char au c" "length (lowcase_header r) = 32"
  shows "hashed au [c] (first_name_byte (name_lower c) r)"
  using assms by (simp add: hashed_def first_name_byte_def name_hash_def take_Suc_conv_app_nth)

lemma hashed_next:
  assumes "hashed au w r" "name_char au c" "length (lowcase_header r) = 32"
  shows "hashed au (w @ [c]) (next_name_byte (name_lower c) r)"
proof -
  have "take (Suc (length w)) ((lowcase_header r)[lowcase_index r := name_lower c]) =
      map name_lower w @ [name_lower c]" if "length w < 32"
    using assms that by (simp add: hashed_def take_Suc_conv_app_nth)
  with assms show ?thesis
    by (auto simp: hashed_def next_name_byte_def name_hash_def mod_Suc_eq)
qed

subsection \<open>The invariant\<close>

text \<open>\<open>name_part d r a e\<close>: the bytes from \<open>a\<close> to \<open>e\<close> are a name, hashed unless marked invalid.\<close>

definition name_part :: "bool \<Rightarrow> byte list \<Rightarrow> rhdr \<Rightarrow> nat \<Rightarrow> nat \<Rightarrow> bool" where
  "name_part au d r a e \<longleftrightarrow> header_name_start r = Some a \<and> a < e \<and> length (lowcase_header r) = 32 \<and>
     (\<forall>c \<in> set (seg a e d). c \<notin> {CR, LF, NUL}) \<and> asc CHR '':'' \<notin> set (seg (Suc a) e d) \<and>
     (\<not> invalid_header r \<longrightarrow> hashed au (seg a e d) r)"

definition value_part :: "byte list \<Rightarrow> nat \<Rightarrow> nat \<Rightarrow> bool" where
  "value_part d s e \<longleftrightarrow> s < e \<and> (\<forall>c \<in> set (seg s e d). c \<notin> {CR, LF, NUL}) \<and> d ! s \<noteq> SP"

definition named :: "bool \<Rightarrow> byte list \<Rightarrow> rhdr \<Rightarrow> nat \<Rightarrow> bool" where
  "named au d r p \<longleftrightarrow> (\<exists>a e. name_part au d r a e \<and> header_name_end r = Some e \<and> e < p)"

definition line_ok :: "bool \<Rightarrow> byte list \<Rightarrow> rhdr \<Rightarrow> nat \<Rightarrow> bool" where
  "line_ok au d r p \<longleftrightarrow> (\<exists>a n s e. name_part au d r a n \<and> header_name_end r = Some n \<and> n \<le> s \<and>
     header_start r = Some s \<and> header_end r = Some e \<and> e \<le> p \<and>
     (s = e \<or> value_part d s e \<and> d ! (e - 1) \<noteq> SP))"

definition hl_inv :: "bool \<Rightarrow> byte list \<Rightarrow> nat \<Rightarrow> rhdr \<Rightarrow> bool" where
  "hl_inv au d p r \<longleftrightarrow> (case hstate r of
     hs_start \<Rightarrow> length (lowcase_header r) = 32
   | hs_name \<Rightarrow> \<exists>a. name_part au d r a p
   | hs_space_before_value \<Rightarrow> named au d r p
   | hs_value \<Rightarrow> \<exists>a n s. name_part au d r a n \<and> header_name_end r = Some n \<and> n \<le> s \<and>
       header_start r = Some s \<and> value_part d s p \<and> d ! (p - 1) \<noteq> SP
   | hs_space_after_value \<Rightarrow> line_ok au d r (p - 1) \<and> 0 < p \<and> d ! (p - 1) = SP \<and>
       (\<exists>s. header_start r = Some s \<and> value_part d s p)
   | hs_ignore_line \<Rightarrow> length (lowcase_header r) = 32
   | hs_almost_done \<Rightarrow> line_ok au d r p
   | hs_header_almost_done \<Rightarrow> length (lowcase_header r) = 32)"

lemma lowcase_special:
  "lowcase (asc CHR '':'') = 0" "lowcase CR = 0" "lowcase LF = 0" "lowcase NUL = 0" "lowcase SP = 0"
  "lowcase (asc CHR ''_'') = 0"
  by code_simp+

lemma lowcaseD:
  "lowcase c \<noteq> 0 \<Longrightarrow> c \<noteq> asc CHR '':'' \<and> c \<noteq> CR \<and> c \<noteq> LF \<and> c \<noteq> NUL \<and> c \<noteq> SP"
  using lowcase_special by blast

lemma start_inv:
  assumes p: "p < length d" and "hstate r = hs_start" "length (lowcase_header r) = 32"
    and step: "hst_start au p r (d ! p) = Inl r'"
  shows "hl_inv au d (Suc p) r'"
proof -
  let ?c = "d ! p"
  have s: "seg p (Suc p) d = [?c]" using seg_Suc [OF order.refl p] by simp
  consider "?c = CR" | "?c \<noteq> CR" "?c \<noteq> LF" by (use step in \<open>auto simp: hst_start_def Let_def split: if_splits\<close>)
  then show ?thesis
  proof cases
    case 1
    with step assms(3) show ?thesis by (auto simp: hst_start_def Let_def hl_inv_def)
  next
    case 2
    let ?r = "r\<lparr>header_name_start := Some p, invalid_header := False, hstate := hs_name\<rparr>"
    have l: "length (lowcase_header ?r) = 32" using assms(3) by simp
    consider "name_char au ?c" "r' = first_name_byte (name_lower ?c) ?r" "?c \<noteq> NUL"
      | "r' = ?r\<lparr>invalid_header := True\<rparr>" "?c \<noteq> NUL"
      using step 2 lowcaseD [of ?c]
      by (auto simp: hst_start_def Let_def name_char_def name_lower_def split: if_splits)
    then show ?thesis
    proof cases
      case 1
      with 2 s l hashed_first [OF 1(1) l] show ?thesis
        by (auto simp: hl_inv_def name_part_def first_name_byte_def hashed_def)
    next
      case inv: 2
      with 2 s l show ?thesis by (auto simp: hl_inv_def name_part_def)
    qed
  qed
qed

lemma name_part_same:
  "name_part au d r a e \<Longrightarrow> header_name_start r' = header_name_start r \<Longrightarrow>
   lowcase_header r' = lowcase_header r \<Longrightarrow> header_hash r' = header_hash r \<Longrightarrow>
   lowcase_index r' = lowcase_index r \<Longrightarrow> invalid_header r' = invalid_header r \<Longrightarrow> name_part au d r' a e"
  by (simp add: name_part_def hashed_def)

lemma name_end:
  assumes "name_part au d r a p" "header_name_end r' = Some p" "header_start r' = Some p"
    "header_end r' = Some p" "name_part au d r' a p" "p \<le> q"
  shows "line_ok au d r' q"
  using assms unfolding line_ok_def by blast

lemma name_step_cases:
  assumes "hst_name up au d p r c = Inl r'"
  obtains (add) "name_char au c" "r' = next_name_byte (name_lower c) r" "c \<notin> {CR, LF, NUL, asc CHR '':''}"
    | (inv) "r' = r\<lparr>invalid_header := True\<rparr>" "c \<notin> {CR, LF, NUL, asc CHR '':''}"
    | (colon) "r' = r\<lparr>header_name_end := Some p, hstate := hs_space_before_value\<rparr>"
    | (cr) "r' = r\<lparr>header_name_end := Some p, header_start := Some p, header_end := Some p,
               hstate := hs_almost_done\<rparr>"
    | (ignore) "r' = r\<lparr>hstate := hs_ignore_line\<rparr>"
proof (cases "lowcase c = 0")
  case False
  with assms lowcaseD [OF False] show ?thesis
    by (intro add) (simp_all add: hst_name_def Let_def name_char_def name_lower_def)
next
  case True
  show ?thesis
  proof (cases "c = asc CHR ''_''")
    case u: True
    with assms True show ?thesis
      by (cases au) (auto intro: that(1,2) simp: hst_name_def Let_def name_char_def name_lower_def)
  next
    case False
    with assms True show ?thesis
      by (cases "c = asc CHR '':''"; cases "c = CR"; cases "c = LF"; cases "c = NUL")
        (auto intro: that simp: hst_name_def Let_def split: if_splits)
  qed
qed

lemma name_inv:
  assumes p: "p < length d" and r: "hstate r = hs_name" and n: "name_part au d r a p"
    and step: "hst_name up au d p r (d ! p) = Inl r'"
  shows "hl_inv au d (Suc p) r'"
proof -
  let ?c = "d ! p"
  have a: "a < p" "length (lowcase_header r) = 32" using n by (simp_all add: name_part_def)
  with p have s: "seg a (Suc p) d = seg a p d @ [?c]" "seg (Suc a) (Suc p) d = seg (Suc a) p d @ [?c]"
    by (simp_all add: seg_Suc)
  from step show ?thesis
  proof (cases rule: name_step_cases)
    case add
    have "\<not> invalid_header r \<Longrightarrow> hashed au (seg a (Suc p) d) r'"
      using hashed_next [of au "seg a p d" r ?c] n a add by (simp add: s name_part_def)
    with add a n s r show ?thesis by (auto simp: hl_inv_def name_part_def next_name_byte_def)
  next
    case inv
    with a n s r show ?thesis by (auto simp: hl_inv_def name_part_def)
  next
    case colon
    with name_part_same [OF n, of r'] show ?thesis by (auto simp: hl_inv_def named_def)
  next
    case cr
    with name_part_same [OF n, of r'] name_end [OF n, of r' "Suc p"] show ?thesis
      by (simp add: hl_inv_def)
  next
    case ignore
    with a show ?thesis by (simp add: hl_inv_def)
  qed
qed

lemma value_part_Suc:
  "value_part d s p \<Longrightarrow> p < length d \<Longrightarrow> d ! p \<noteq> CR \<Longrightarrow> d ! p \<noteq> LF \<Longrightarrow> d ! p \<noteq> NUL \<Longrightarrow>
   value_part d s (Suc p)"
  by (auto simp: value_part_def seg_Suc)

lemma value_part_first:
  "p < length d \<Longrightarrow> d ! p \<noteq> CR \<Longrightarrow> d ! p \<noteq> LF \<Longrightarrow> d ! p \<noteq> NUL \<Longrightarrow> d ! p \<noteq> SP \<Longrightarrow>
   value_part d p (Suc p)"
  by (auto simp: value_part_def seg_Suc)

lemma space_before_inv:
  assumes p: "p < length d" and r: "hstate r = hs_space_before_value" and n: "named au d r p"
    and step: "hst_space_before_value p r (d ! p) = Inl r'"
  shows "hl_inv au d (Suc p) r'"
proof -
  from n obtain a e where n: "name_part au d r a e" "header_name_end r = Some e" "e < p"
    by (auto simp: named_def)
  have n': "hstate r' = hs_space_before_value \<or> hstate r' = hs_almost_done \<or> hstate r' = hs_value \<Longrightarrow>
      name_part au d r' a e \<and> header_name_end r' = Some e"
    using name_part_same [OF n(1), of r'] n(2) step
    by (auto simp: hst_space_before_value_def split: if_splits)
  show ?thesis
    using step r n n' value_part_first [OF p]
    by (auto simp: hst_space_before_value_def hl_inv_def named_def line_ok_def split: if_splits)
qed

lemma line_ok_same:
  assumes "line_ok au d r p" "header_name_start r' = header_name_start r"
    "lowcase_header r' = lowcase_header r" "header_hash r' = header_hash r"
    "lowcase_index r' = lowcase_index r" "invalid_header r' = invalid_header r"
    "header_name_end r' = header_name_end r" "header_start r' = header_start r"
    "header_end r' = header_end r" "p \<le> q"
  shows "line_ok au d r' q"
proof -
  from assms(1) obtain a n s e where "name_part au d r a n" and l: "header_name_end r = Some n" "n \<le> s"
      "header_start r = Some s" "header_end r = Some e" "e \<le> p"
      "s = e \<or> value_part d s e \<and> d ! (e - 1) \<noteq> SP"
    by (auto simp: line_ok_def)
  then have "name_part au d r' a n" using assms name_part_same by blast
  with l assms show ?thesis unfolding line_ok_def by fastforce
qed

lemma value_end:
  assumes "name_part au d r a n" "header_name_end r = Some n" "n \<le> s" "header_start r = Some s"
    "value_part d s p" "d ! (p - 1) \<noteq> SP" "p \<le> q"
  shows "line_ok au d (r\<lparr>header_end := Some p, hstate := st\<rparr>) q"
    "line_ok au d (r\<lparr>header_end := Some p\<rparr>) q"
  using assms name_part_same [OF assms(1)] unfolding line_ok_def by (auto intro!: exI [of _ a])

lemma value_inv:
  assumes p: "p < length d" and r: "hstate r = hs_value"
    and n: "name_part au d r a n" "header_name_end r = Some n" "n \<le> s" "header_start r = Some s"
      "value_part d s p" "d ! (p - 1) \<noteq> SP"
    and step: "hst_value p r (d ! p) = Inl r'"
  shows "hl_inv au d (Suc p) r'"
proof -
  note e = value_end(1) [OF n]
  consider "d ! p = SP" "r' = r\<lparr>header_end := Some p, hstate := hs_space_after_value\<rparr>"
    | "r' = r\<lparr>header_end := Some p, hstate := hs_almost_done\<rparr>"
    | "d ! p \<notin> {SP, CR, LF, NUL}" "r' = r"
    using step by (auto simp: hst_value_def split: if_splits)
  then show ?thesis
  proof cases
    case 1
    with e [of p hs_space_after_value] n(4) value_part_Suc [OF n(5) p] show ?thesis
      by (simp add: hl_inv_def)
  next
    case 2
    with e [of "Suc p" hs_almost_done] show ?thesis by (simp add: hl_inv_def)
  next
    case 3
    with r n value_part_Suc [OF n(5) p] show ?thesis by (auto simp: hl_inv_def)
  qed
qed

lemma space_after_inv:
  assumes p: "p < length d" and r: "hstate r = hs_space_after_value"
    and l: "line_ok au d r (p - 1)" and v: "header_start r = Some s" "value_part d s p"
    and step: "hst_space_after_value r (d ! p) = Inl r'"
  shows "hl_inv au d (Suc p) r'"
proof -
  have l': "line_ok au d r p" using l by (rule line_ok_same) simp_all
  consider "d ! p = SP" "r' = r" | "r' = r\<lparr>hstate := hs_almost_done\<rparr>"
    | "d ! p \<notin> {SP, CR, LF, NUL}" "r' = r\<lparr>hstate := hs_value\<rparr>"
    using step by (auto simp: hst_space_after_value_def split: if_splits)
  then show ?thesis
  proof cases
    case 1
    with r l' v value_part_Suc [OF v(2) p] show ?thesis by (simp add: hl_inv_def)
  next
    case 2
    then have "line_ok au d r' (Suc p)" using l' by (intro line_ok_same [OF l']) simp_all
    with 2 show ?thesis by (simp add: hl_inv_def)
  next
    case 3
    from l obtain a n where "name_part au d r a n" "header_name_end r = Some n" "n \<le> s"
      using v(1) by (auto simp: line_ok_def)
    moreover from this 3 have "name_part au d r' a n" by (auto intro: name_part_same)
    ultimately show ?thesis using 3 v value_part_Suc [OF v(2) p] by (auto simp: hl_inv_def)
  qed
qed

lemma hl_inv_step:
  assumes p: "p < length d" and inv: "hl_inv au d p r"
    and step: "hl_step up au d p r (d ! p) = Inl r'"
  shows "hl_inv au d (Suc p) r'"
proof (cases "hstate r")
  case hs_start
  with inv step start_inv [OF p hs_start] show ?thesis by (simp add: hl_step_def hl_inv_def [of au d p r])
next
  case hs_name
  with inv obtain a where "name_part au d r a p" by (auto simp: hl_inv_def)
  with hs_name step name_inv [OF p hs_name] show ?thesis by (simp add: hl_step_def)
next
  case hs_space_before_value
  with inv step space_before_inv [OF p] show ?thesis
    by (simp add: hl_step_def hl_inv_def [of au d p r])
next
  case hs_value
  with inv obtain a n s where "name_part au d r a n" "header_name_end r = Some n" "n \<le> s"
      "header_start r = Some s" "value_part d s p" "d ! (p - 1) \<noteq> SP"
    by (auto simp: hl_inv_def)
  with hs_value step value_inv [OF p hs_value] show ?thesis by (simp add: hl_step_def)
next
  case hs_space_after_value
  with inv obtain s where "line_ok au d r (p - 1)" "header_start r = Some s" "value_part d s p"
    by (auto simp: hl_inv_def)
  with hs_space_after_value step space_after_inv [OF p hs_space_after_value] show ?thesis
    by (simp add: hl_step_def)
next
  case hs_ignore_line
  with inv step show ?thesis by (auto simp: hl_step_def hl_inv_def hst_ignore_line_def split: if_splits)
next
  case hs_almost_done
  with inv have "line_ok au d r (Suc p)" by (auto simp: hl_inv_def intro: line_ok_same)
  with hs_almost_done step show ?thesis
    by (auto simp: hl_step_def hl_inv_def hst_almost_done_def split: if_splits)
next
  case hs_header_almost_done
  with inv step show ?thesis by (auto simp: hl_step_def hst_header_almost_done_def split: if_splits)
qed

lemma hl_inv_stop:
  assumes inv: "hl_inv au d p r" and step: "hl_step up au d p r (d ! p) = Inr (hl_done r')"
  shows "line_ok au d r' p"
proof (cases "hstate r")
  case hs_name
  with inv obtain a where n: "name_part au d r a p" by (auto simp: hl_inv_def)
  have "r' = r\<lparr>header_name_end := Some p, header_start := Some p, header_end := Some p\<rparr>"
    using step hs_name by (auto simp: hl_step_def hst_name_def Let_def split: if_splits)
  with name_part_same [OF n, of r'] name_end [OF n, of r' p] show ?thesis by simp
next
  case hs_space_before_value
  with inv obtain a e where n: "name_part au d r a e" "header_name_end r = Some e" "e < p"
    by (auto simp: hl_inv_def named_def)
  have "r' = r\<lparr>header_start := Some p, header_end := Some p\<rparr>"
    using step hs_space_before_value by (auto simp: hl_step_def hst_space_before_value_def split: if_splits)
  with name_part_same [OF n(1), of r'] n show ?thesis by (auto simp: line_ok_def)
next
  case hs_value
  with inv obtain a n s where n: "name_part au d r a n" "header_name_end r = Some n" "n \<le> s"
      "header_start r = Some s" "value_part d s p" "d ! (p - 1) \<noteq> SP"
    by (auto simp: hl_inv_def)
  with hs_value step value_end(2) [OF n, of p] show ?thesis
    by (auto simp: hl_step_def hst_value_def split: if_splits)
next
  case hs_space_after_value
  with inv have "line_ok au d r p" by (auto simp: hl_inv_def intro: line_ok_same)
  with hs_space_after_value step show ?thesis
    by (auto simp: hl_step_def hst_space_after_value_def split: if_splits)
next
  case hs_almost_done
  with inv step show ?thesis
    by (auto simp: hl_step_def hl_inv_def hst_almost_done_def split: if_splits)
qed (use step in \<open>auto simp: hl_step_def hst_start_def hst_ignore_line_def hst_header_almost_done_def
    Let_def split: if_splits\<close>)

lemma feed_header:
  assumes "hl_inv au d p r" "p \<le> length d"
  shows "case feed (hl_step up au) d p r of
     Inl r' \<Rightarrow> hl_inv au d (length d) r'
   | Inr (q, stop) \<Rightarrow> \<forall>r'. stop = hl_done r' \<longrightarrow> line_ok au d r' q"
  by (rule feed_invariant [where I = "hl_inv au d" and
      J = "\<lambda>q stop. \<forall>r'. stop = hl_done r' \<longrightarrow> line_ok au d r' q"])
    (use assms hl_inv_step hl_inv_stop in auto)

text \<open>
  Claim C19. What a header line that was accepted looks like, from any state between two lines:
  name, colon and value lie in this order inside the bytes read; name and value hold no null
  byte and no line end; the value is trimmed (it neither begins nor ends with a space); and,
  unless the line is marked invalid, the hash is that of the lower-case name, and so is the
  copy when \<open>lowcase_index\<close> is the length of the name, the test its user makes.
\<close>
theorem header_line_sound:
  assumes "hstate r = hs_start" "length (lowcase_header r) = 32" "p \<le> length d"
    and "ngx_http_parse_header_line up au d p r = hl_return NGX_OK r' q"
  shows "\<exists>a n s e. header_name_start r' = Some a \<and> header_name_end r' = Some n \<and>
    header_start r' = Some s \<and> header_end r' = Some e \<and> a < n \<and> n \<le> s \<and> s \<le> e \<and> e < q \<and> q \<le> length d \<and>
    (\<forall>c \<in> set (seg a n d) \<union> set (seg s e d). c \<notin> {CR, LF, NUL}) \<and>
    (s < e \<longrightarrow> d ! s \<noteq> SP \<and> d ! (e - 1) \<noteq> SP) \<and>
    (\<not> invalid_header r' \<longrightarrow> list_all (name_char au) (seg a n d) \<and>
       header_hash r' = name_hash (map name_lower (seg a n d)) \<and>
       (n - a = lowcase_index r' \<longrightarrow> take (n - a) (lowcase_header r') = map name_lower (seg a n d)))"
proof -
  have inv: "hl_inv au d p r" using assms(1,2) by (simp add: hl_inv_def)
  from assms(4) obtain k r1 where k: "feed (hl_step up au) d p r = Inr (k, hl_done r1)"
      "r' = r1\<lparr>hstate := hs_start\<rparr>" "q = Suc k"
    by (auto simp: ngx_http_parse_header_line_def NGX_OK_def NGX_HTTP_PARSE_HEADER_DONE_def
        split: sum.splits hl_stop.splits)
  have "k < length d" using feed_bound [OF k(1)] by simp
  have "line_ok au d r1 k" using feed_header [OF inv assms(3), of up] k(1) by simp
  then have "line_ok au d r' k" by (rule line_ok_same) (simp_all add: k(2))
  then obtain a n s e where l: "name_part au d r' a n" "header_name_end r' = Some n" "n \<le> s"
      "header_start r' = Some s" "header_end r' = Some e" "e \<le> k"
      "s = e \<or> value_part d s e \<and> d ! (e - 1) \<noteq> SP"
    by (auto simp: line_ok_def)
  then have "length (seg a n d) = n - a" "s \<le> e"
    using \<open>k < length d\<close> by (auto intro!: length_seg simp: value_part_def)
  have v: "s < e \<longrightarrow> d ! s \<noteq> SP \<and> d ! (e - 1) \<noteq> SP" "\<forall>c \<in> set (seg s e d). c \<notin> {CR, LF, NUL}"
    using l(7) by (auto simp: value_part_def)
  have h: "hashed au (seg a n d) r'" if "\<not> invalid_header r'"
    using l(1) that by (simp add: name_part_def)
  have h': "take (n - a) (lowcase_header r') = map name_lower (seg a n d)"
    if "\<not> invalid_header r'" "n - a = lowcase_index r'"
  proof -
    have "lowcase_index r' = length (seg a n d) mod 32" using h [OF that(1)] by (simp add: hashed_def)
    then have "lowcase_index r' < 32" by simp
    then have "length (seg a n d) < 32" using that(2) \<open>length (seg a n d) = n - a\<close> by linarith
    with h [OF that(1)] \<open>length (seg a n d) = n - a\<close> show ?thesis by (simp add: hashed_def)
  qed
  have "\<forall>c \<in> set (seg a n d). c \<notin> {CR, LF, NUL}" "header_name_start r' = Some a" "a < n"
    using l(1) by (simp_all add: name_part_def)
  moreover have "\<not> invalid_header r' \<longrightarrow> list_all (name_char au) (seg a n d) \<and>
      header_hash r' = name_hash (map name_lower (seg a n d))"
    using h by (simp add: hashed_def)
  moreover have "e < q" "q \<le> length d" using l(6) k(3) \<open>k < length d\<close> by simp_all
  ultimately show ?thesis using l(2-5) v h' \<open>s \<le> e\<close> by blast
qed

text \<open>Two header lines, one after the other.\<close>

definition second_header :: "byte list \<Rightarrow> rhdr option" where
  "second_header d =
     (case ngx_http_parse_header_line False False d 0 rhdr_init of
        hl_return rc r q \<Rightarrow>
          (case ngx_http_parse_header_line False False d q r of
             hl_return rc' r' q' \<Rightarrow> if rc = NGX_OK \<and> rc' = NGX_OK then Some r' else None
           | _ \<Rightarrow> None)
      | _ \<Rightarrow> None)"


definition hl_is_ok :: "hl_result \<Rightarrow> bool" where
  "hl_is_ok res = (case res of hl_return rc r q \<Rightarrow> rc = NGX_OK | _ \<Rightarrow> False)"

theorem header_line_sound_witness:
  "\<exists>r q n. ngx_http_parse_header_line False False (bytes ''A: b '' @ [LF]) 0 rhdr_init = hl_return NGX_OK r q \<and>
     header_name_end r = Some n \<and> n < q"
proof -
  have "hl_is_ok (ngx_http_parse_header_line False False (bytes ''A: b '' @ [LF]) 0 rhdr_init)"
    by code_simp
  then obtain r q where
    *: "ngx_http_parse_header_line False False (bytes ''A: b '' @ [LF]) 0 rhdr_init = hl_return NGX_OK r q"
    by (auto simp: hl_is_ok_def split: hl_result.splits)
  show ?thesis
    using header_line_sound [OF _ _ _ *] * by (fastforce simp: rhdr_init_def)
qed

section \<open>Every well-formed header line is accepted\<close>

lemma name_char_step:
  assumes "name_char au c"
  shows "hst_start au p r c = Inl (first_name_byte (name_lower c)
      (r\<lparr>header_name_start := Some p, invalid_header := False, hstate := hs_name\<rparr>))"
    "hst_name up au d p r c = Inl (next_name_byte (name_lower c) r)"
  using assms lowcaseD [of c] lowcase_special
  by (auto simp: name_char_def name_lower_def hst_start_def hst_name_def Let_def)

lemma name_run:
  assumes "list_all (name_char au) w" "hstate r = hs_name"
  shows "\<exists>r'. run (hl_step up au) pre (w @ post) r = run (hl_step up au) (pre @ w) post r' \<and>
    hstate r' = hs_name \<and> header_name_start r' = header_name_start r \<and>
    invalid_header r' = invalid_header r"
  using assms
proof (induction w arbitrary: pre r)
  case (Cons c w)
  let ?r = "next_name_byte (name_lower c) r"
  have "run (hl_step up au) pre (c # w @ post) r = run (hl_step up au) (pre @ [c]) (w @ post) ?r"
    using Cons.prems name_char_step(2) by (simp add: run_Cons hl_step_def)
  moreover have "hstate ?r = hs_name" "header_name_start ?r = header_name_start r"
      "invalid_header ?r = invalid_header r"
    using Cons.prems by (simp_all add: next_name_byte_def)
  ultimately show ?case using Cons.IH [of ?r "pre @ [c]"] Cons.prems by fastforce
qed auto

lemma value_run:
  assumes "\<forall>c \<in> set v. c \<notin> {CR, LF, NUL}" "hstate r = hs_value \<or> hstate r = hs_space_after_value"
  shows "\<exists>st e. run (hl_step up au) pre (v @ post) r =
      run (hl_step up au) (pre @ v) post (r\<lparr>hstate := st, header_end := e\<rparr>) \<and>
    (st = hs_value \<or> st = hs_space_after_value) \<and>
    (if v = [] then st = hstate r else st = hs_value \<longleftrightarrow> last v \<noteq> SP)"
  using assms
proof (induction v arbitrary: pre r)
  case Nil
  then show ?case by (intro exI [of _ "hstate r"] exI [of _ "header_end r"]) simp
next
  case (Cons c v)
  let ?st = "if c = SP then hs_space_after_value else hs_value"
  let ?e = "if c = SP \<and> hstate r = hs_value then Some (length pre) else header_end r"
  let ?r = "r\<lparr>hstate := ?st, header_end := ?e\<rparr>"
  have "run (hl_step up au) pre (c # v @ post) r = run (hl_step up au) (pre @ [c]) (v @ post) ?r"
    using Cons.prems by (cases r) (auto simp: run_Cons hl_step_def hst_value_def hst_space_after_value_def)
  moreover have "hstate ?r = hs_value \<or> hstate ?r = hs_space_after_value" by simp
  then obtain st e where "run (hl_step up au) (pre @ [c]) (v @ post) ?r =
      run (hl_step up au) ((pre @ [c]) @ v) post (?r\<lparr>hstate := st, header_end := e\<rparr>)"
    "st = hs_value \<or> st = hs_space_after_value"
    "if v = [] then st = hstate ?r else st = hs_value \<longleftrightarrow> last v \<noteq> SP"
    using Cons.IH [of ?r "pre @ [c]"] Cons.prems(1) by auto
  ultimately show ?case by (intro exI [of _ st] exI [of _ e]) (auto split: if_splits)
qed

definition header_text :: "byte list \<Rightarrow> nat \<Rightarrow> byte list \<Rightarrow> byte list" where
  "header_text nm k v = nm @ asc CHR '':'' # replicate k SP @ v @ [CR, LF]"

lemma header_text_run:
  assumes "nm \<noteq> []" "list_all (name_char au) nm" "v \<noteq> []" "\<forall>c \<in> set v. c \<notin> {CR, LF, NUL}"
    "hd v \<noteq> SP" "last v \<noteq> SP"
  shows "\<exists>r. feed (hl_step up au) (header_text nm k v) 0 rhdr_init =
      Inr (length nm + 1 + k + length v + 1, hl_done r) \<and> \<not> invalid_header r \<and>
    header_name_start r = Some 0 \<and> header_name_end r = Some (length nm) \<and>
    header_start r = Some (length nm + 1 + k) \<and> header_end r = Some (length nm + 1 + k + length v)"
proof -
  obtain c w where c: "nm = c # w" "name_char au c" "list_all (name_char au) w"
    using assms(1,2) by (cases nm) auto
  obtain x v' where x: "v = x # v'" "x \<noteq> SP" "x \<noteq> CR" "x \<noteq> LF" "x \<noteq> NUL" "\<forall>c \<in> set v'. c \<notin> {CR, LF, NUL}"
    using assms(3-5) by (cases v) auto
  let ?post = "asc CHR '':'' # replicate k SP @ v @ [CR, LF]"
  let ?r0 = "first_name_byte (name_lower c)
      (rhdr_init\<lparr>header_name_start := Some 0, invalid_header := False, hstate := hs_name\<rparr>)"
  have 0: "run (hl_step up au) [] (nm @ ?post) rhdr_init = run (hl_step up au) [c] (w @ ?post) ?r0"
    using name_char_step(1) [OF c(2), of 0 rhdr_init] c(1)
    by (simp add: run_Cons hl_step_def rhdr_init_def)
  have r0: "hstate ?r0 = hs_name" "header_name_start ?r0 = Some 0" "\<not> invalid_header ?r0"
    by (simp_all add: first_name_byte_def)
  from name_run [OF c(3) r0(1), of up "[c]" ?post] r0
  obtain r1 where 1: "run (hl_step up au) [c] (w @ ?post) ?r0 = run (hl_step up au) nm ?post r1"
      "hstate r1 = hs_name" "header_name_start r1 = Some 0" "\<not> invalid_header r1"
    using c(1) by auto
  let ?r2 = "r1\<lparr>header_name_end := Some (length nm), hstate := hs_space_before_value\<rparr>"
  let ?p2 = "nm @ [asc CHR '':'']" and ?p3 = "nm @ [asc CHR '':''] @ replicate k SP"
  have 2: "run (hl_step up au) nm ?post r1 = run (hl_step up au) ?p2 (replicate k SP @ v @ [CR, LF]) ?r2"
    using 1(2) lowcase_special(1) by (simp add: run_Cons hl_step_def hst_name_def)
  have 3: "\<dots> = run (hl_step up au) (?p2 @ replicate k SP) (v @ [CR, LF]) ?r2"
    by (rule run_skip) (simp add: hl_step_def hst_space_before_value_def)
  let ?r4 = "?r2\<lparr>header_start := Some (length ?p3), hstate := hs_value\<rparr>"
  have 4: "run (hl_step up au) ?p3 (v @ [CR, LF]) ?r2 = run (hl_step up au) (?p3 @ [x]) (v' @ [CR, LF]) ?r4"
    using x by (simp add: run_Cons hl_step_def hst_space_before_value_def)
  have r4: "hstate ?r4 = hs_value" by simp
  then obtain st e where 5: "run (hl_step up au) (?p3 @ [x]) (v' @ [CR, LF]) ?r4 =
      run (hl_step up au) ((?p3 @ [x]) @ v') [CR, LF] (?r4\<lparr>hstate := st, header_end := e\<rparr>)"
    "if v' = [] then st = hs_value else st = hs_value \<longleftrightarrow> last v' \<noteq> SP"
    using value_run [OF x(6), of ?r4 up au "?p3 @ [x]" "[CR, LF]"] unfolding r4 by blast
  have "st = hs_value" using 5(2) assms(6) x(1) by (auto split: if_splits)
  then have "run (hl_step up au) ((?p3 @ [x]) @ v') [CR, LF] (?r4\<lparr>hstate := st, header_end := e\<rparr>) =
      Inr (length nm + 1 + k + length v + 1, hl_done (?r4\<lparr>hstate := hs_almost_done,
        header_end := Some (length nm + 1 + k + length v)\<rparr>))"
    using x(1) by (simp add: run_Cons hl_step_def hst_value_def hst_almost_done_def)
  with 0 1(1) 2 3 4 5(1) have "feed (hl_step up au) (header_text nm k v) 0 rhdr_init =
      Inr (length nm + 1 + k + length v + 1, hl_done (?r4\<lparr>hstate := hs_almost_done,
        header_end := Some (length nm + 1 + k + length v)\<rparr>))"
    by (simp add: run_def header_text_def)
  with 1 show ?thesis by simp
qed



end
