(* ===== verification/HttpChunked.thy ===== *)
theory HttpChunked
  imports Prelude
begin

unbundle bit_operations_syntax

text \<open>
  Request bodies: the chunked parser \<open>ngx_http_parse_chunked\<close> of src/http/ngx_http_parse.c and the
  three loops of src/http/ngx_http_request_body.c around it and around a body of known length.
  A buffer is the list of its unread bytes (\<open>b->pos\<close> to \<open>b->last\<close>); the parser keeps no pointer
  into it. Memory for the buffers of the output chain is taken to be available.
\<close>

section \<open>The chunked parser\<close>

datatype ck_state =
    ck_start | ck_size | ck_extension | ck_extension_almost_done | ck_data | ck_after_data
  | ck_after_data_almost_done | ck_last_extension | ck_last_extension_almost_done | ck_trailer
  | ck_trailer_almost_done | ck_trailer_header | ck_trailer_header_almost_done

text \<open>\<open>ngx_http_chunked_t\<close>; \<open>size\<close> and \<open>length\<close> are signed.\<close>

record chunked =
  cstate :: ck_state
  csize :: i64
  clength :: i64

datatype ck_stop = ck_go_data | ck_done | ck_invalid

definition st_chunk_start :: "i64 \<Rightarrow> byte \<Rightarrow> (ck_state \<times> i64) + ck_stop" where
  "st_chunk_start sz ch =
     (if asc CHR ''0'' \<le> ch \<and> ch \<le> asc CHR ''9'' then Inl (ck_size, ucast (ch - asc CHR ''0''))
      else let c = ch OR 0x20 in
        if asc CHR ''a'' \<le> c \<and> c \<le> asc CHR ''f'' then Inl (ck_size, ucast (c - asc CHR ''a'' + 10))
        else Inr ck_invalid)"

definition st_chunk_size :: "i64 \<Rightarrow> byte \<Rightarrow> (ck_state \<times> i64) + ck_stop" where
  "st_chunk_size sz ch =
     (if asc CHR ''0'' \<le> ch \<and> ch \<le> asc CHR ''9'' then
        Inl (ck_size, sz * 16 + ucast (ch - asc CHR ''0''))
      else let c = ch OR 0x20 in
        if asc CHR ''a'' \<le> c \<and> c \<le> asc CHR ''f'' then
          Inl (ck_size, sz * 16 + ucast (c - asc CHR ''a'' + 10))
        else if sz = 0 then
          (if ch = CR then Inl (ck_last_extension_almost_done, sz)
           else if ch = LF then Inl (ck_trailer, sz)
           else if ch = asc CHR '';'' \<or> ch = SP \<or> ch = 9 then Inl (ck_last_extension, sz)
           else Inr ck_invalid)
        else
          (if ch = CR then Inl (ck_extension_almost_done, sz)
           else if ch = LF then Inl (ck_data, sz)
           else if ch = asc CHR '';'' \<or> ch = SP \<or> ch = 9 then Inl (ck_extension, sz)
           else Inr ck_invalid))"

definition ck_step :: "ck_state \<Rightarrow> i64 \<Rightarrow> byte \<Rightarrow> (ck_state \<times> i64) + ck_stop" where
  "ck_step st sz ch = (case st of
     ck_start \<Rightarrow> st_chunk_start sz ch
   | ck_size \<Rightarrow> st_chunk_size sz ch
   | ck_extension \<Rightarrow>
       if ch = CR then Inl (ck_extension_almost_done, sz)
       else if ch = LF then Inl (ck_data, sz) else Inl (ck_extension, sz)
   | ck_extension_almost_done \<Rightarrow> if ch = LF then Inl (ck_data, sz) else Inr ck_invalid
   | ck_data \<Rightarrow> Inr ck_go_data
   | ck_after_data \<Rightarrow>
       if ch = CR then Inl (ck_after_data_almost_done, sz)
       else if ch = LF then Inl (ck_start, sz) else Inl (ck_after_data, sz)
   | ck_after_data_almost_done \<Rightarrow> if ch = LF then Inl (ck_start, sz) else Inr ck_invalid
   | ck_last_extension \<Rightarrow>
       if ch = CR then Inl (ck_last_extension_almost_done, sz)
       else if ch = LF then Inl (ck_trailer, sz) else Inl (ck_last_extension, sz)
   | ck_last_extension_almost_done \<Rightarrow> if ch = LF then Inl (ck_trailer, sz) else Inr ck_invalid
   | ck_trailer \<Rightarrow>
       if ch = CR then Inl (ck_trailer_almost_done, sz)
       else if ch = LF then Inr ck_done else Inl (ck_trailer_header, sz)
   | ck_trailer_almost_done \<Rightarrow> if ch = LF then Inr ck_done else Inr ck_invalid
   | ck_trailer_header \<Rightarrow>
       if ch = CR then Inl (ck_trailer_header_almost_done, sz)
       else if ch = LF then Inl (ck_trailer, sz) else Inl (ck_trailer_header, sz)
   | ck_trailer_header_almost_done \<Rightarrow> if ch = LF then Inl (ck_trailer, sz) else Inr ck_invalid)"

text \<open>The loop over the buffer: how it was left (\<open>None\<close> at the end), state, size, unread bytes.\<close>

fun ck_loop :: "ck_state \<Rightarrow> i64 \<Rightarrow> byte list \<Rightarrow> ck_stop option \<times> ck_state \<times> i64 \<times> byte list" where
  "ck_loop st sz [] = (None, st, sz, [])"
| "ck_loop st sz (ch # pos) = (case ck_step st sz ch of
     Inl (st', sz') \<Rightarrow> ck_loop st' sz' pos
   | Inr ck_done \<Rightarrow> (Some ck_done, st, sz, pos)
   | Inr stop \<Rightarrow> (Some stop, st, sz, ch # pos))"

text \<open>The least number of bytes that can still follow.\<close>

definition ck_length :: "ck_state \<Rightarrow> i64 \<Rightarrow> i64" where
  "ck_length st sz = (case st of
     ck_start \<Rightarrow> 3
   | ck_size \<Rightarrow> 1 + (if sz \<noteq> 0 then sz + 4 else 1)
   | ck_extension \<Rightarrow> 1 + sz + 4
   | ck_extension_almost_done \<Rightarrow> 1 + sz + 4
   | ck_data \<Rightarrow> sz + 4
   | ck_after_data \<Rightarrow> 4
   | ck_after_data_almost_done \<Rightarrow> 4
   | ck_last_extension \<Rightarrow> 2
   | ck_last_extension_almost_done \<Rightarrow> 2
   | ck_trailer \<Rightarrow> 1
   | ck_trailer_almost_done \<Rightarrow> 1
   | ck_trailer_header \<Rightarrow> 2
   | ck_trailer_header_almost_done \<Rightarrow> 2)"

definition ngx_http_parse_chunked :: "chunked \<Rightarrow> byte list \<Rightarrow> i64 \<times> chunked \<times> byte list" where
  "ngx_http_parse_chunked ctx b =
     (let st0 = (if cstate ctx = ck_data \<and> csize ctx = 0 then ck_after_data else cstate ctx) in
      case ck_loop st0 (csize ctx) b of
        (Some ck_invalid, st, sz, pos) \<Rightarrow> (NGX_ERROR, ctx\<lparr>csize := sz\<rparr>, b)
      | (Some ck_done, st, sz, pos) \<Rightarrow> (NGX_DONE, ctx\<lparr>cstate := ck_start, csize := sz\<rparr>, pos)
      | (stop, st, sz, pos) \<Rightarrow>
          (let rc = (if stop = None then NGX_AGAIN else NGX_OK);
               ctx' = ctx\<lparr>cstate := st, csize := sz, clength := ck_length st sz\<rparr>
           in if csize ctx' <s 0 \<or> clength ctx' <s 0 then (NGX_ERROR, ctx', pos) else (rc, ctx', pos)))"

section \<open>The body filters\<close>

text \<open>
  \<open>ngx_http_parse_chunked\<close> returns \<open>NGX_OK\<close> only in front of a byte of data, so that the loops
  of its callers make progress.
\<close>

lemma ck_loop_data:
  "ck_loop st sz b = (Some ck_go_data, st', sz', pos) \<Longrightarrow>
     st' = ck_data \<and> pos \<noteq> [] \<and> length pos \<le> length b \<and>
     (if st = ck_data then sz' = sz \<and> pos = b else length pos < length b)"
proof (induction st sz b rule: ck_loop.induct)
  case (2 st sz ch pos0)
  show ?case
  proof (cases "ck_step st sz ch")
    case (Inl x)
    then have "st \<noteq> ck_data" by (auto simp: ck_step_def)
    with 2 Inl show ?thesis by (cases x) (fastforce split: if_splits)
  next
    case (Inr y)
    with 2 show ?thesis
      by (cases y) (auto simp: ck_step_def st_chunk_start_def st_chunk_size_def Let_def
          split: ck_state.splits if_splits)
  qed
qed simp

lemma parse_chunked_ok:
  assumes "ngx_http_parse_chunked ctx b = (NGX_OK, ctx', b')"
  shows "cstate ctx' = ck_data \<and> b' \<noteq> [] \<and> length b' \<le> length b \<and> \<not> csize ctx' <s 0 \<and>
    (if cstate ctx = ck_data \<and> csize ctx \<noteq> 0 then csize ctx' = csize ctx \<and> b' = b
     else length b' < length b)"
proof -
  let ?st = "if cstate ctx = ck_data \<and> csize ctx = 0 then ck_after_data else cstate ctx"
  obtain stop st sz pos where l: "ck_loop ?st (csize ctx) b = (stop, st, sz, pos)"
    using prod_cases4 by blast
  have "stop = Some ck_go_data"
    using assms l by (auto simp: ngx_http_parse_chunked_def Let_def res_simps
        split: option.splits ck_stop.splits if_splits)
  with assms l ck_loop_data [of ?st "csize ctx" b st sz pos] show ?thesis
    by (auto simp: ngx_http_parse_chunked_def Let_def NGX_OK_def NGX_ERROR_def split: if_splits)
qed

text \<open>What a caller takes from the buffer: \<open>size\<close> bytes, or all of it.\<close>

definition take_data :: "chunked \<Rightarrow> byte list \<Rightarrow> byte list \<times> chunked \<times> byte list" where
  "take_data ctx b =
     (let n = length b in
      if int n > sint (csize ctx)
      then (take (nat (sint (csize ctx))) b, ctx\<lparr>csize := 0\<rparr>, drop (nat (sint (csize ctx))) b)
      else (b, ctx\<lparr>csize := csize ctx - of_nat n\<rparr>, []))"

lemma take_data_progress:
  assumes "ngx_http_parse_chunked ctx b = (NGX_OK, ctx', b')" "take_data ctx' b' = (out, ctx2, b2)"
  shows "2 * length b2 + (if cstate ctx2 = ck_data then 0 else 1) <
    2 * length b + (if cstate ctx = ck_data then 0 else 1)"
proof -
  note ok = parse_chunked_ok [OF assms(1)]
  then have pos: "0 \<le> sint (csize ctx')" by (simp add: word_sless_alt)
  have b2: "length b2 \<le> length b'" "cstate ctx2 = ck_data"
    using assms(2) ok by (auto simp: take_data_def Let_def split: if_splits)
  have "length b2 < length b'" if "csize ctx' \<noteq> 0"
  proof -
    have "sint (csize ctx') \<noteq> 0" using that signed_eq_0_iff by blast
    with pos ok assms(2) show ?thesis by (auto simp: take_data_def Let_def split: if_splits)
  qed
  with b2 ok show ?thesis by (auto split: if_splits)
qed

text \<open>
  \<open>ngx_http_discard_request_body_filter\<close> for a chunked body: the return code, what the next read
  may expect (\<open>content_length_n\<close>), the parser and the unread bytes.
\<close>

definition NGX_HTTP_BAD_REQUEST :: i64 where "NGX_HTTP_BAD_REQUEST = 400"
definition NGX_HTTP_REQUEST_ENTITY_TOO_LARGE :: i64 where "NGX_HTTP_REQUEST_ENTITY_TOO_LARGE = 413"

function discard_chunked :: "chunked \<Rightarrow> byte list \<Rightarrow> i64 \<times> i64 \<times> chunked \<times> byte list" where
  "discard_chunked ctx b =
     (case ngx_http_parse_chunked ctx b of (rc, ctx', b') \<Rightarrow>
        if rc = NGX_OK then (case take_data ctx' b' of (out, ctx2, b2) \<Rightarrow> discard_chunked ctx2 b2)
        else if rc = NGX_DONE then (NGX_OK, 0, ctx', b')
        else if rc = NGX_AGAIN then (NGX_OK, clength ctx', ctx', b')
        else (NGX_HTTP_BAD_REQUEST, 0, ctx', b'))"
  by pat_completeness auto
termination
  by (relation "measure (\<lambda>(ctx, b). 2 * length b + (if cstate ctx = ck_data then 0 else 1))")
    (auto dest!: take_data_progress [OF sym sym] split: if_splits)

declare discard_chunked.simps [simp del]

text \<open>The same filter for a body of \<open>n\<close> bytes still to come.\<close>

definition discard_length :: "i64 \<Rightarrow> byte list \<Rightarrow> i64 \<times> byte list" where
  "discard_length n b =
     (let sz = length b in
      if int sz > sint n then (0, drop (nat (sint n)) b) else (n - of_nat sz, []))"

text \<open>
  \<open>ngx_http_request_body_chunked_filter\<close>. The state of the request: \<open>rest\<close>, \<open>content_length_n\<close>,
  the parser; the output chain is the list of its buffers, \<open>None\<close> for the empty one marked
  \<open>last_buf\<close>. \<open>lim\<close> is \<open>client_max_body_size\<close>.
\<close>

record body =
  brest :: i64
  bcontent :: i64
  bchunked :: chunked

text \<open>The inner loop, over one buffer: return code, body, output so far, unread bytes.\<close>

function body_chunked_buf ::
  "i64 \<Rightarrow> body \<Rightarrow> byte list \<Rightarrow> byte list option list \<Rightarrow>
     i64 \<times> body \<times> byte list option list \<times> byte list" where
  "body_chunked_buf lim rb b out =
     (case ngx_http_parse_chunked (bchunked rb) b of (rc, ctx, b') \<Rightarrow>
        if rc = NGX_OK then
          (if lim \<noteq> 0 \<and> lim - bcontent rb <s csize ctx
           then (NGX_HTTP_REQUEST_ENTITY_TOO_LARGE, rb\<lparr>bchunked := ctx\<rparr>, out, b')
           else case take_data ctx b' of (o2, ctx2, b2) \<Rightarrow>
             body_chunked_buf lim
               (rb\<lparr>bchunked := ctx2, bcontent := bcontent rb + of_nat (length o2)\<rparr>) b2 (out @ [Some o2]))
        else if rc = NGX_DONE then
          (NGX_OK, rb\<lparr>bchunked := ctx, brest := 0\<rparr>, out @ [None], b')
        else if rc = NGX_AGAIN then (NGX_OK, rb\<lparr>bchunked := ctx, brest := clength ctx\<rparr>, out, b')
        else (NGX_HTTP_BAD_REQUEST, rb\<lparr>bchunked := ctx\<rparr>, out, b'))"
  by pat_completeness auto
termination
  by (relation "measure (\<lambda>(lim, rb, b, out). 2 * length b + (if cstate (bchunked rb) = ck_data then 0 else 1))")
    (auto dest!: take_data_progress [OF sym sym] split: if_splits)

declare body_chunked_buf.simps [simp del]

fun body_chunked_bufs ::
  "i64 \<Rightarrow> body \<Rightarrow> byte list list \<Rightarrow> byte list option list \<Rightarrow> i64 \<times> body \<times> byte list option list" where
  "body_chunked_bufs lim rb [] out = (NGX_OK, rb, out)"
| "body_chunked_bufs lim rb (b # cl) out =
     (case body_chunked_buf lim rb b out of (rc, rb', out', b') \<Rightarrow>
        if rc = NGX_OK then body_chunked_bufs lim rb' cl out' else (rc, rb', out'))"

definition chunked_zero :: chunked where
  "chunked_zero = \<lparr>cstate = ck_start, csize = 0, clength = 0\<rparr>"

definition ngx_http_request_body_chunked_filter ::
  "i64 \<Rightarrow> body \<Rightarrow> byte list list \<Rightarrow> i64 \<times> body \<times> byte list option list" where
  "ngx_http_request_body_chunked_filter lim rb cl =
     (let rb = (if brest rb = -1 then rb\<lparr>bchunked := chunked_zero, bcontent := 0, brest := 3\<rparr> else rb)
      in body_chunked_bufs lim rb cl [])"

text \<open>
  \<open>ngx_http_request_body_length_filter\<close>: the new \<open>rest\<close>, the output chain with its \<open>last_buf\<close>
  marks, and the input buffers as they are left.
\<close>

fun body_length_bufs ::
  "i64 \<Rightarrow> byte list list \<Rightarrow> i64 \<times> (byte list \<times> bool) list \<times> byte list list" where
  "body_length_bufs rest [] = (rest, [], [])"
| "body_length_bufs rest (b # cl) =
     (if rest = 0 then (rest, [], b # cl)
      else let sz = length b in
        if int sz < sint rest then
          (case body_length_bufs (rest - of_nat sz) cl of (r, out, cl') \<Rightarrow> (r, (b, False) # out, [] # cl'))
        else
          (case body_length_bufs 0 cl of (r, out, cl') \<Rightarrow>
             (r, (take (nat (sint rest)) b, True) # out, drop (nat (sint rest)) b # cl')))"

definition ngx_http_request_body_length_filter ::
  "i64 \<Rightarrow> i64 \<Rightarrow> byte list list \<Rightarrow> i64 \<times> (byte list \<times> bool) list \<times> byte list list" where
  "ngx_http_request_body_length_filter rest content cl =
     body_length_bufs (if rest = -1 then content else rest) cl"

section \<open>The reference: one byte at a time\<close>

text \<open>
  \<open>dstep\<close> handles one byte of the body and gives the data byte it is, if it is one; \<open>dechunk\<close>
  runs it: the data, and the state reached, or the bytes behind the body, or an error.
\<close>

definition dstep :: "ck_state \<Rightarrow> i64 \<Rightarrow> byte \<Rightarrow> (byte list \<times> ck_state \<times> i64) + ck_stop" where
  "dstep st sz c =
     (if st = ck_data \<and> sz \<noteq> 0 then Inl ([c], ck_data, sz - 1)
      else map_sum (Pair []) id (ck_step (if st = ck_data then ck_after_data else st) sz c))"

datatype dechunked = dc_more ck_state i64 | dc_done "byte list" | dc_bad

fun dechunk :: "ck_state \<Rightarrow> i64 \<Rightarrow> byte list \<Rightarrow> byte list \<times> dechunked" where
  "dechunk st sz [] = ([], dc_more st sz)"
| "dechunk st sz (c # b) = (case dstep st sz c of
     Inl (out, st', sz') \<Rightarrow> apfst (append out) (dechunk st' sz' b)
   | Inr ck_done \<Rightarrow> ([], dc_done b)
   | Inr _ \<Rightarrow> ([], dc_bad))"

lemma dechunk_append:
  "dechunk st sz (a @ b) = (case dechunk st sz a of
     (out, dc_more st' sz') \<Rightarrow> apfst (append out) (dechunk st' sz' b)
   | (out, dc_done rest) \<Rightarrow> (out, dc_done (rest @ b))
   | (out, dc_bad) \<Rightarrow> (out, dc_bad))"
proof (induction st sz a rule: dechunk.induct)
  case (1 st sz)
  then show ?case by (cases "dechunk st sz b") simp
next
  case (2 st sz c a)
  show ?case
  proof (cases "dstep st sz c")
    case (Inl x)
    obtain o1 st1 sz1 where x: "x = (o1, st1, sz1)" by (cases x)
    with 2 Inl show ?thesis
      by (cases "dechunk st1 sz1 a"; cases "snd (dechunk st1 sz1 a)")
        (simp_all add: apfst_def map_prod_def split: prod.split)
  next
    case (Inr y)
    then show ?thesis by (cases y) simp_all
  qed
qed

text \<open>
  Sizes that fit: all the counters the parser goes through stay below \<open>2 ^ 59\<close>, so that one more
  digit does not overflow. (Beyond that the code wraps, see \<open>chunk_size_overflow\<close>.)
\<close>

fun sizes_ok :: "ck_state \<Rightarrow> i64 \<Rightarrow> byte list \<Rightarrow> bool" where
  "sizes_ok st sz [] \<longleftrightarrow> sz < 2 ^ 59"
| "sizes_ok st sz (c # b) \<longleftrightarrow> sz < 2 ^ 59 \<and>
     (case dstep st sz c of Inl (out, st', sz') \<Rightarrow> sizes_ok st' sz' b | Inr _ \<Rightarrow> True)"

lemma sizes_ok_less: "sizes_ok st sz b \<Longrightarrow> sz < 2 ^ 59"
  by (cases b) simp_all

lemma small_word:
  assumes "sz < (2 ^ 59 :: i64)"
  shows "sint sz = int (unat sz)" "\<not> sz <s 0" "unat sz < 2 ^ 59"
proof -
  show l: "unat sz < 2 ^ 59" using assms by (simp add: word_less_nat_alt)
  have "sz = of_nat (unat sz)" by simp
  with sint_of_nat [of "unat sz"] l show "sint sz = int (unat sz)" by simp
  then show "\<not> sz <s 0" by (simp add: word_sless_alt)
qed

lemma ck_length_nonneg:
  assumes "sz < 2 ^ 59"
  shows "\<not> ck_length st sz <s 0"
proof -
  have "\<not> sz + of_nat k <s 0" if "k < 16" for k
  proof -
    have "unat sz + k < 2 ^ 63" using small_word(3) [OF assms] that by simp
    then have "\<not> (of_nat (unat sz + k) :: i64) <s 0" by (rule of_nat_not_neg)
    then show ?thesis by simp
  qed
  from this [of 4] this [of 5] show ?thesis
    by (cases st) (simp_all add: ck_length_def word_sless_alt add.commute)
qed

lemma dstep_step: "st \<noteq> ck_data \<Longrightarrow> dstep st sz c = map_sum (Pair []) id (ck_step st sz c)"
  by (simp add: dstep_def)

lemma ck_step_go: "ck_step st sz c = Inr ck_go_data \<Longrightarrow> st = ck_data"
  by (auto simp: ck_step_def st_chunk_start_def st_chunk_size_def Let_def split: ck_state.splits if_splits)

text \<open>One run of the parser's loop is a run of the reference that gives no data.\<close>

lemma ck_loop_dechunk:
  assumes "ck_loop st sz b = (stop, st', sz', pos)" "sizes_ok st sz b"
  shows "case stop of
      None \<Rightarrow> dechunk st sz b = ([], dc_more st' sz') \<and> pos = [] \<and> sz' < 2 ^ 59
    | Some ck_go_data \<Rightarrow> st' = ck_data \<and> dechunk st sz b = dechunk ck_data sz' pos \<and>
        sizes_ok ck_data sz' pos
    | Some ck_done \<Rightarrow> dechunk st sz b = ([], dc_done pos)
    | Some ck_invalid \<Rightarrow> st \<noteq> ck_data \<longrightarrow> dechunk st sz b = ([], dc_bad)"
  using assms
proof (induction st sz b arbitrary: st' sz' pos rule: ck_loop.induct)
  case (2 st sz c b)
  show ?case
  proof (cases "st = ck_data")
    case True
    with 2 show ?thesis by (auto simp: ck_step_def)
  next
    case False
    note d = dstep_step [OF False]
    show ?thesis
    proof (cases "ck_step st sz c")
      case (Inl x)
      obtain st1 sz1 where x: "x = (st1, sz1)" by (cases x)
      have "ck_loop st1 sz1 b = (stop, st', sz', pos)" "sizes_ok st1 sz1 b"
        using 2(2,3) Inl x by (simp_all add: d)
      from 2(1) [OF Inl x [symmetric] this]
      have IH: "case stop of
          None \<Rightarrow> dechunk st1 sz1 b = ([], dc_more st' sz') \<and> pos = [] \<and> sz' < 2 ^ 59
        | Some ck_go_data \<Rightarrow> st' = ck_data \<and> dechunk st1 sz1 b = dechunk ck_data sz' pos \<and>
            sizes_ok ck_data sz' pos
        | Some ck_done \<Rightarrow> dechunk st1 sz1 b = ([], dc_done pos)
        | Some ck_invalid \<Rightarrow> st1 \<noteq> ck_data \<longrightarrow> dechunk st1 sz1 b = ([], dc_bad)" .
      have "dechunk st sz (c # b) = dechunk st1 sz1 b"
        using Inl x by (simp add: d apfst_def map_prod_def split: prod.split)
      moreover have "stop = Some ck_invalid \<Longrightarrow> st1 \<noteq> ck_data"
      proof
        assume "stop = Some ck_invalid" "st1 = ck_data"
        with \<open>ck_loop st1 sz1 b = (stop, st', sz', pos)\<close> show False
          by (cases b) (auto simp: ck_step_def)
      qed
      ultimately show ?thesis using IH by (simp split: option.splits ck_stop.splits)
    next
      case (Inr y)
      then have "dstep st sz c = Inr y" by (simp add: d)
      with Inr 2(2) False ck_step_go [of st sz c] show ?thesis by (cases y) auto
    qed
  qed
qed auto

lemma dechunk_data:
  assumes "length xs \<le> n" "n < 2 ^ 59"
  shows "dechunk ck_data (of_nat n) (xs @ ys) = apfst (append xs) (dechunk ck_data (of_nat (n - length xs)) ys)"
  using assms
proof (induction xs arbitrary: n)
  case (Cons x xs)
  then obtain m where n: "n = Suc m" by (cases n) auto
  have "(of_nat n :: i64) \<noteq> 0"
  proof
    assume "(of_nat n :: i64) = 0"
    then have "sint (of_nat n :: i64) = 0" by simp
    with Cons.prems n sint_of_nat [of n] show False by simp
  qed
  moreover have "(of_nat n :: i64) - 1 = of_nat m" by (simp add: n)
  ultimately have "dechunk ck_data (of_nat n) ((x # xs) @ ys) =
      apfst (append [x]) (dechunk ck_data (of_nat m) (xs @ ys))"
    by (simp add: dstep_def)
  also have "dechunk ck_data (of_nat m) (xs @ ys) =
      apfst (append xs) (dechunk ck_data (of_nat (m - length xs)) ys)"
    by (rule Cons.IH) (use Cons.prems n in simp_all)
  finally show ?case by (simp add: n apfst_def map_prod_def split: prod.split)
qed (simp add: apfst_def map_prod_def split: prod.split)

lemma sizes_ok_data:
  assumes "length xs \<le> n" "n < 2 ^ 59" "sizes_ok ck_data (of_nat n) (xs @ ys)"
  shows "sizes_ok ck_data (of_nat (n - length xs)) ys"
  using assms
proof (induction xs arbitrary: n)
  case (Cons x xs)
  then obtain m where n: "n = Suc m" by (cases n) auto
  have "(of_nat n :: i64) \<noteq> 0"
  proof
    assume "(of_nat n :: i64) = 0"
    then have "sint (of_nat n :: i64) = 0" by simp
    with Cons.prems n sint_of_nat [of n] show False by simp
  qed
  moreover have "(of_nat n :: i64) - 1 = of_nat m" by (simp add: n)
  ultimately have "sizes_ok ck_data (of_nat m) (xs @ ys)"
    using Cons.prems(3) by (simp add: dstep_def)
  with Cons show ?case by (simp add: n)
qed simp

text \<open>
  The states \<open>sw_chunk_data\<close> with nothing left and \<open>sw_after_data\<close> are one: the code turns the
  first into the second when it is called again.
\<close>

definition settle :: "ck_state \<Rightarrow> i64 \<Rightarrow> ck_state" where
  "settle st sz = (if st = ck_data \<and> sz = 0 then ck_after_data else st)"

fun settled :: "dechunked \<Rightarrow> dechunked" where
  "settled (dc_more st sz) = dc_more (settle st sz) sz"
| "settled f = f"

lemma dstep_settle: "dstep (settle st sz) sz c = dstep st sz c"
proof (cases "st = ck_data \<and> sz = 0")
  case True
  then show ?thesis by (simp only: settle_def dstep_def simp_thms if_True if_False ck_state.distinct)
next
  case False
  then have "settle st sz = st" by (simp only: settle_def if_False)
  then show ?thesis by simp
qed

lemma dechunk_settle:
  "fst (dechunk (settle st sz) sz b) = fst (dechunk st sz b) \<and>
   settled (snd (dechunk (settle st sz) sz b)) = settled (snd (dechunk st sz b))"
proof (cases b)
  case Nil
  then show ?thesis by (simp add: settle_def)
next
  case (Cons c b')
  have "dechunk (settle st sz) sz (c # b') = dechunk st sz (c # b')"
    by (simp only: dechunk.simps dstep_settle)
  with Cons show ?thesis by simp
qed

lemma sizes_ok_settle: "sizes_ok (settle st sz) sz b = sizes_ok st sz b"
  by (cases b) (simp_all add: dstep_settle)

text \<open>One call of the parser, against the reference.\<close>

lemma parse_dechunk:
  assumes ok: "sizes_ok (cstate ctx) (csize ctx) b"
    and p: "ngx_http_parse_chunked ctx b = (rc, ctx', b')"
  defines "D \<equiv> dechunk (cstate ctx) (csize ctx) b"
  shows "rc = NGX_AGAIN \<and> fst D = [] \<and> settled (snd D) = dc_more (settle (cstate ctx') (csize ctx')) (csize ctx') \<and>
      b' = [] \<and> csize ctx' < 2 ^ 59 \<or>
    rc = NGX_OK \<and> cstate ctx' = ck_data \<and> fst D = fst (dechunk ck_data (csize ctx') b') \<and>
      settled (snd D) = settled (snd (dechunk ck_data (csize ctx') b')) \<and> sizes_ok ck_data (csize ctx') b' \<or>
    rc = NGX_DONE \<and> fst D = [] \<and> snd D = dc_done b' \<and> cstate ctx' = ck_start \<or>
    rc = NGX_ERROR \<and> fst D = [] \<and> snd D = dc_bad"
proof -
  let ?st = "settle (cstate ctx) (csize ctx)"
  obtain stop st sz pos where l: "ck_loop ?st (csize ctx) b = (stop, st, sz, pos)"
    using prod_cases4 by blast
  have ok': "sizes_ok ?st (csize ctx) b" using ok by (simp add: sizes_ok_settle)
  note ref = ck_loop_dechunk [OF l ok']
  note set = dechunk_settle [of "cstate ctx" "csize ctx" b]
  have sz: "\<not> sz <s 0 \<and> \<not> ck_length st sz <s 0" if "sz < 2 ^ 59"
    using small_word(2) [OF that] ck_length_nonneg [OF that] by blast
  have st0: "(if cstate ctx = ck_data \<and> csize ctx = 0 then ck_after_data else cstate ctx) = ?st"
    by (simp add: settle_def)
  let ?ctx = "ctx\<lparr>cstate := st, csize := sz, clength := ck_length st sz\<rparr>"
  show ?thesis
  proof (cases stop)
    case None
    with ref have r: "dechunk ?st (csize ctx) b = ([], dc_more st sz)" "pos = []" "sz < 2 ^ 59"
      by simp_all
    have "ngx_http_parse_chunked ctx b = (NGX_AGAIN, ?ctx, pos)"
      unfolding ngx_http_parse_chunked_def st0 Let_def l None using sz [OF r(3)] by simp
    with p have q: "rc = NGX_AGAIN" "ctx' = ?ctx" "b' = pos" by simp_all
    have "fst D = [] \<and> settled (snd D) = dc_more (settle st sz) sz"
      using set r(1) by (simp add: D_def)
    with q r show ?thesis by simp
  next
    case (Some s)
    show ?thesis
    proof (cases s)
      case ck_go_data
      with Some ref have r: "st = ck_data" "dechunk ?st (csize ctx) b = dechunk ck_data sz pos"
          "sizes_ok ck_data sz pos" by simp_all
      have "ngx_http_parse_chunked ctx b = (NGX_OK, ?ctx, pos)"
        unfolding ngx_http_parse_chunked_def st0 Let_def l Some ck_go_data
        using sz [OF sizes_ok_less [OF r(3)]] by simp
      with p have q: "rc = NGX_OK" "ctx' = ?ctx" "b' = pos" by simp_all
      with r set show ?thesis by (simp add: D_def)
    next
      case ck_done
      with Some ref have r: "dechunk ?st (csize ctx) b = ([], dc_done pos)" by simp
      have "ngx_http_parse_chunked ctx b = (NGX_DONE, ctx\<lparr>cstate := ck_start, csize := sz\<rparr>, pos)"
        unfolding ngx_http_parse_chunked_def st0 Let_def l Some ck_done by simp
      with p have q: "rc = NGX_DONE" "cstate ctx' = ck_start" "b' = pos" by auto
      have "fst D = [] \<and> snd D = dc_done pos"
        using set r by (cases "snd D") (simp_all add: D_def)
      with q show ?thesis by simp
    next
      case ck_invalid
      have "?st \<noteq> ck_data"
      proof
        assume "?st = ck_data"
        with l Some ck_invalid show False by (cases b) (auto simp: ck_step_def)
      qed
      with Some ck_invalid ref have r: "dechunk ?st (csize ctx) b = ([], dc_bad)" by simp
      have "ngx_http_parse_chunked ctx b = (NGX_ERROR, ctx\<lparr>csize := sz\<rparr>, b)"
        unfolding ngx_http_parse_chunked_def st0 Let_def l Some ck_invalid by simp
      with p have q: "rc = NGX_ERROR" by simp
      have "fst D = [] \<and> snd D = dc_bad"
        using set r by (cases "snd D") (simp_all add: D_def)
      with q show ?thesis by simp
    qed
  qed
qed

lemma take_data_dechunk:
  assumes "sizes_ok ck_data (csize ctx) b" "cstate ctx = ck_data" "take_data ctx b = (out, ctx', b')"
  shows "dechunk ck_data (csize ctx) b = apfst (append out) (dechunk ck_data (csize ctx') b') \<and>
    cstate ctx' = ck_data \<and> sizes_ok ck_data (csize ctx') b'"
proof -
  define n where "n = unat (csize ctx)"
  have n: "csize ctx = of_nat n" "n < 2 ^ 59" "sint (csize ctx) = int n"
    using small_word [OF sizes_ok_less [OF assms(1)]] by (simp_all add: n_def)
  show ?thesis
  proof (cases "n < length b")
    case True
    have l: "length (take n b) = n" using True by simp
    then have l': "length (take n b) \<le> n" by simp
    have "dechunk ck_data (of_nat n) (take n b @ drop n b) =
        apfst (append (take n b)) (dechunk ck_data (of_nat (n - length (take n b))) (drop n b))"
      by (rule dechunk_data [OF l' n(2)])
    moreover have "sizes_ok ck_data (of_nat (n - length (take n b))) (drop n b)"
      by (rule sizes_ok_data [OF l' n(2)]) (use assms(1) n(1) in simp)
    moreover have "take_data ctx b = (take n b, ctx\<lparr>csize := 0\<rparr>, drop n b)"
      using True n(3) by (simp add: take_data_def)
    ultimately show ?thesis using assms(2,3) n(1) unfolding l by simp
  next
    case False
    have l: "length b \<le> n" using False by simp
    have "dechunk ck_data (of_nat n) (b @ []) =
        apfst (append b) (dechunk ck_data (of_nat (n - length b)) [])"
      by (rule dechunk_data [OF l n(2)])
    moreover have "sizes_ok ck_data (of_nat (n - length b)) []"
      by (rule sizes_ok_data [OF l n(2)]) (use assms(1) n(1) in simp)
    moreover have "take_data ctx b = (b, ctx\<lparr>csize := of_nat (n - length b)\<rparr>, [])"
      using l n by (simp add: take_data_def of_nat_diff)
    ultimately show ?thesis using assms(2,3) n(1) by simp
  qed
qed

section \<open>The chunked filter is the reference\<close>

definition data_of :: "byte list option list \<Rightarrow> byte list" where
  "data_of out = concat (map (\<lambda>x. case x of None \<Rightarrow> [] | Some d \<Rightarrow> d) out)"

lemma data_of_append [simp]:
  "data_of [] = []" "data_of (a @ b) = data_of a @ data_of b" "data_of [Some d] = d" "data_of [None] = []"
  by (simp_all add: data_of_def)

lemma NGX_codes: "NGX_OK \<noteq> NGX_DONE" "NGX_OK \<noteq> NGX_AGAIN" "NGX_OK \<noteq> NGX_ERROR" "NGX_DONE \<noteq> NGX_AGAIN"
  "NGX_DONE \<noteq> NGX_ERROR" "NGX_AGAIN \<noteq> NGX_ERROR"
  by (simp_all add: res_simps)

text \<open>What a call of the inner loop must make of the outcome of the reference.\<close>

definition buf_result ::
  "byte list \<times> dechunked \<Rightarrow> byte list option list \<Rightarrow> i64 \<times> body \<times> byte list option list \<times> byte list \<Rightarrow> bool"
  where
  "buf_result D out res = (case res of (rc, rb, out', b') \<Rightarrow> case settled (snd D) of
     dc_more st sz \<Rightarrow> rc = NGX_OK \<and> settle (cstate (bchunked rb)) (csize (bchunked rb)) = st \<and>
       csize (bchunked rb) = sz \<and> data_of out' = data_of out @ fst D \<and> b' = []
   | dc_done rest \<Rightarrow> rc = NGX_OK \<and> brest rb = 0 \<and> cstate (bchunked rb) = ck_start \<and>
       data_of out' = data_of out @ fst D \<and> last out' = None \<and> b' = rest
   | dc_bad \<Rightarrow> rc = NGX_HTTP_BAD_REQUEST)"

lemma buf_result_apfst:
  "buf_result D (out @ [Some o2]) res \<Longrightarrow> buf_result (apfst (append o2) D) out res"
  by (cases D; cases "settled (snd D)") (auto simp: buf_result_def split: prod.splits)

lemma buf_result_cong:
  "fst D = fst D' \<Longrightarrow> settled (snd D) = settled (snd D') \<Longrightarrow> buf_result D out res = buf_result D' out res"
  by (simp only: buf_result_def)

lemma body_buf_dechunk:
  assumes "lim = 0" "sizes_ok (cstate (bchunked rb)) (csize (bchunked rb)) b"
  shows "buf_result (dechunk (cstate (bchunked rb)) (csize (bchunked rb)) b) out
    (body_chunked_buf lim rb b out)"
  using assms
proof (induction lim rb b out rule: body_chunked_buf.induct)
  case (1 lim rb b out)
  let ?D = "dechunk (cstate (bchunked rb)) (csize (bchunked rb)) b"
  obtain rc ctx b' where p: "ngx_http_parse_chunked (bchunked rb) b = (rc, ctx, b')"
    using prod_cases3 by blast
  note unfold = body_chunked_buf.simps [of lim rb b out, unfolded p prod.case]
  from parse_dechunk [OF 1(3) p] show ?case
  proof (elim disjE conjE)
    assume rc: "rc = NGX_OK" and st: "cstate ctx = ck_data"
      and D: "fst ?D = fst (dechunk ck_data (csize ctx) b')"
        "settled (snd ?D) = settled (snd (dechunk ck_data (csize ctx) b'))"
      and ok: "sizes_ok ck_data (csize ctx) b'"
    obtain o2 ctx2 b2 where t: "take_data ctx b' = (o2, ctx2, b2)" using prod_cases3 by blast
    note td = take_data_dechunk [OF ok st t]
    let ?rb = "rb\<lparr>bchunked := ctx2, bcontent := bcontent rb + of_nat (length o2)\<rparr>"
    have "buf_result (dechunk (cstate (bchunked ?rb)) (csize (bchunked ?rb)) b2) (out @ [Some o2])
        (body_chunked_buf lim ?rb b2 (out @ [Some o2]))"
      using 1(1) [OF p [symmetric] refl rc _ t [symmetric] refl] 1(2) td by simp
    then have "buf_result (dechunk ck_data (csize ctx) b') out (body_chunked_buf lim ?rb b2 (out @ [Some o2]))"
      using td buf_result_apfst by simp
    then show ?thesis
      unfolding unfold buf_result_cong [OF D] using rc 1(2) t by simp
  next
    assume "rc = NGX_AGAIN" "fst ?D = []" "b' = []"
      "settled (snd ?D) = dc_more (settle (cstate ctx) (csize ctx)) (csize ctx)"
    then show ?thesis unfolding unfold using NGX_codes by (simp add: buf_result_def)
  next
    assume "rc = NGX_DONE" "fst ?D = []" "snd ?D = dc_done b'" "cstate ctx = ck_start"
    then show ?thesis unfolding unfold using NGX_codes by (simp add: buf_result_def)
  next
    assume "rc = NGX_ERROR" "fst ?D = []" "snd ?D = dc_bad"
    then show ?thesis unfolding unfold using NGX_codes by (simp add: buf_result_def)
  qed
qed

lemma sizes_ok_append:
  "sizes_ok st sz (a @ b) \<Longrightarrow> sizes_ok st sz a \<and>
     (\<forall>out st' sz'. dechunk st sz a = (out, dc_more st' sz') \<longrightarrow> sizes_ok st' sz' b)"
proof (induction st sz a rule: sizes_ok.induct)
  case (1 st sz)
  then show ?case by (auto dest: sizes_ok_less)
next
  case (2 st sz c a)
  show ?case
  proof (cases "dstep st sz c")
    case (Inl x)
    obtain o1 st1 sz1 where x: "x = (o1, st1, sz1)" by (cases x)
    with 2 Inl show ?thesis by (cases "dechunk st1 sz1 a") auto
  next
    case (Inr y)
    with 2 show ?thesis by (cases y) auto
  qed
qed

lemma body_bufs_dechunk:
  assumes "sizes_ok (cstate (bchunked rb)) (csize (bchunked rb)) (concat bs)" "[] \<notin> set bs" "bs \<noteq> []"
    and "dechunk (cstate (bchunked rb)) (csize (bchunked rb)) (concat bs) = (o1, dc_done [])"
  shows "\<exists>rb' out'. body_chunked_bufs 0 rb bs out = (NGX_OK, rb', out') \<and> brest rb' = 0 \<and>
    data_of out' = data_of out @ o1 \<and> last out' = None"
  using assms
proof (induction bs arbitrary: rb out o1)
  case (Cons b bs)
  let ?st = "cstate (bchunked rb)" and ?sz = "csize (bchunked rb)"
  obtain rc rb' out' b' where r: "body_chunked_buf 0 rb b out = (rc, rb', out', b')"
    using prod_cases4 by blast
  obtain oa f where a: "dechunk ?st ?sz b = (oa, f)" by (cases "dechunk ?st ?sz b")
  note ok = sizes_ok_append [OF Cons.prems(1) [simplified]]
  have res: "buf_result (oa, f) out (rc, rb', out', b')"
    using body_buf_dechunk [OF refl, of rb b out] ok a r by simp
  show ?case
  proof (cases f)
    case (dc_more st' sz')
    have D: "dechunk st' sz' (concat bs) = (drop (length oa) o1, dc_done [])" "o1 = oa @ drop (length oa) o1"
      using Cons.prems(4) a dc_more
      by (cases "dechunk st' sz' (concat bs)"; auto simp: dechunk_append)+
    have rb: "settle (cstate (bchunked rb')) (csize (bchunked rb')) = settle st' sz'" "csize (bchunked rb') = sz'"
        "rc = NGX_OK" "data_of out' = data_of out @ oa"
      using res dc_more by (auto simp: buf_result_def)
    have "sizes_ok st' sz' (concat bs)" using ok a dc_more by blast
    then have s: "sizes_ok (cstate (bchunked rb')) (csize (bchunked rb')) (concat bs)"
      using sizes_ok_settle [of st' sz'] sizes_ok_settle [of "cstate (bchunked rb')" sz'] rb(1,2) by simp
    have "bs \<noteq> []" using D(1) by auto
    then obtain c bs' where c: "concat bs = c # bs'"
      using Cons.prems(2) by (cases bs; cases "hd bs") auto
    have "dechunk (cstate (bchunked rb')) (csize (bchunked rb')) (concat bs) = dechunk st' sz' (concat bs)"
      unfolding c using rb(1,2) by (metis dechunk.simps(2) dstep_settle)
    then have "dechunk (cstate (bchunked rb')) (csize (bchunked rb')) (concat bs) =
        (drop (length oa) o1, dc_done [])" using D(1) by simp
    from Cons.IH [OF s _ \<open>bs \<noteq> []\<close> this, of out'] Cons.prems(2)
    obtain rb2 out2 where *: "body_chunked_bufs 0 rb' bs out' = (NGX_OK, rb2, out2)" "brest rb2 = 0"
        "data_of out2 = data_of out' @ drop (length oa) o1" "last out2 = None"
      by auto
    have "data_of out2 = data_of out @ o1" using *(3) rb(4) D(2) by (metis append_assoc)
    moreover have "body_chunked_bufs 0 rb (b # bs) out = (NGX_OK, rb2, out2)"
      using *(1) r rb(3) by simp
    ultimately show ?thesis using *(2,4) by blast
  next
    case (dc_done rest)
    have "rest @ concat bs = []" using Cons.prems(4) a dc_done by (simp add: dechunk_append)
    then have "bs = []" "oa = o1" using Cons.prems(2,4) a dc_done by (cases bs; auto simp: dechunk_append)+
    with res dc_done r show ?thesis by (simp add: buf_result_def)
  next
    case dc_bad
    with Cons.prems(4) a show ?thesis by (simp add: dechunk_append)
  qed
qed simp

section \<open>Encoded bodies\<close>

text \<open>\<open>goes\<close>: the bytes in front give no data and lead from one configuration to the other.\<close>

definition goes :: "ck_state \<Rightarrow> i64 \<Rightarrow> byte list \<Rightarrow> ck_state \<Rightarrow> i64 \<Rightarrow> byte list \<Rightarrow> bool" where
  "goes st sz b st' sz' b' \<longleftrightarrow>
     dechunk st sz b = dechunk st' sz' b' \<and> (sizes_ok st' sz' b' \<longrightarrow> sizes_ok st sz b)"

lemma goes_trans: "goes st sz b st' sz' b' \<Longrightarrow> goes st' sz' b' st2 sz2 b2 \<Longrightarrow> goes st sz b st2 sz2 b2"
  by (simp add: goes_def)

lemma goes_step:
  "st \<noteq> ck_data \<Longrightarrow> ck_step st sz c = Inl (st', sz') \<Longrightarrow> sz < 2 ^ 59 \<Longrightarrow> goes st sz (c # b) st' sz' b"
  by (simp add: goes_def dstep_step apfst_def map_prod_def split: prod.split)

abbreviation is_hex :: "byte \<Rightarrow> bool" where
  "is_hex c \<equiv> is_digit c \<or> is_hex_letter c"

lemma hex_digit_value:
  assumes "is_hex c"
  shows "st_chunk_start sz c = Inl (ck_size, of_nat (hval c))"
    "st_chunk_size sz c = Inl (ck_size, sz * 16 + of_nat (hval c))"
proof -
  have "st_chunk_start sz c = Inl (ck_size, of_nat (hval c)) \<and>
      st_chunk_size sz c = Inl (ck_size, sz * 16 + of_nat (hval c))"
  proof (cases "is_digit c")
    case True
    then show ?thesis
      by (simp only: st_chunk_start_def st_chunk_size_def is_digit_def [symmetric] if_True
          ucast_digit hval_def)
  next
    case False
    with assms have "is_hex_letter c" by simp
    with False show ?thesis
      unfolding st_chunk_start_def st_chunk_size_def is_digit_def [symmetric] is_hex_letter_def Let_def hval_def
      by (simp only: unsigned_of_nat of_nat_unat if_False if_True simp_thms)
  qed
  then show "st_chunk_start sz c = Inl (ck_size, of_nat (hval c))"
    "st_chunk_size sz c = Inl (ck_size, sz * 16 + of_nat (hval c))" by simp_all
qed

lemma of_nat_less_2_59: "n < 2 ^ 59 \<Longrightarrow> (of_nat n :: i64) < 2 ^ 59"
  by (simp add: word_less_nat_alt unat_of_nat)

lemma goes_hex:
  assumes "list_all is_hex hs" "16 ^ length hs * v + hex_val hs < 2 ^ 59"
  shows "goes ck_size (of_nat v) (hs @ b) ck_size (of_nat (16 ^ length hs * v + hex_val hs)) b"
  using assms
proof (induction hs arbitrary: v)
  case Nil
  then show ?case by (simp add: goes_def)
next
  case (Cons h hs)
  have eq: "16 ^ length (h # hs) * v + hex_val (h # hs) = 16 ^ length hs * (v * 16 + hval h) + hex_val hs"
    by (simp add: num_val_Cons algebra_simps)
  have "v * 1 \<le> v * 16 ^ length (h # hs)" by (rule mult_le_mono2) simp
  also have "\<dots> \<le> 16 ^ length (h # hs) * v + hex_val (h # hs)" by simp
  finally have "v < 2 ^ 59" using Cons.prems(2) by linarith
  then have "goes ck_size (of_nat v) (h # hs @ b) ck_size (of_nat (v * 16 + hval h)) (hs @ b)"
    using goes_step [of ck_size "of_nat v" h _ _ "hs @ b"] hex_digit_value(2) [of h "of_nat v"] Cons.prems(1)
      of_nat_less_2_59
    by (simp add: ck_step_def)
  moreover have "goes ck_size (of_nat (v * 16 + hval h)) (hs @ b) ck_size
      (of_nat (16 ^ length hs * (v * 16 + hval h) + hex_val hs)) b"
    using Cons by (intro Cons.IH) (simp_all only: list.pred_inject eq)
  ultimately have "goes ck_size (of_nat v) (h # hs @ b) ck_size
      (of_nat (16 ^ length hs * (v * 16 + hval h) + hex_val hs)) b" by (rule goes_trans)
  then show ?case unfolding eq append_Cons .
qed

text \<open>A chunk is its size, in any number of hexadecimal digits of either case, and its data.\<close>

definition chunk_ok :: "byte list \<times> byte list \<Rightarrow> bool" where
  "chunk_ok ch \<longleftrightarrow> fst ch \<noteq> [] \<and> list_all is_hex (fst ch) \<and> hex_val (fst ch) = length (snd ch) \<and>
     snd ch \<noteq> [] \<and> length (snd ch) < 2 ^ 59"

fun encode_chunks :: "(byte list \<times> byte list) list \<Rightarrow> byte list" where
  "encode_chunks [] = bytes ''0'' @ [CR, LF, CR, LF]"
| "encode_chunks (ch # cs) = fst ch @ [CR, LF] @ snd ch @ [CR, LF] @ encode_chunks cs"

lemma st_chunk_size_special:
  "st_chunk_size sz CR = Inl (if sz = 0 then ck_last_extension_almost_done else ck_extension_almost_done, sz)"
  by (simp add: st_chunk_size_def Let_def)

lemma of_nat_ne_0: "0 < n \<Longrightarrow> n < 2 ^ 59 \<Longrightarrow> (of_nat n :: i64) \<noteq> 0"
proof
  assume "0 < n" "n < 2 ^ 59" "(of_nat n :: i64) = 0"
  then have "sint (of_nat n :: i64) = 0" by simp
  with \<open>0 < n\<close> \<open>n < 2 ^ 59\<close> sint_of_nat [of n] show False by simp
qed

lemma goes_chunk_head:
  assumes "chunk_ok ch" "sz < 2 ^ 59"
  shows "goes ck_start sz (fst ch @ [CR, LF] @ b) ck_data (of_nat (length (snd ch))) b"
proof -
  obtain h hs where h: "fst ch = h # hs" "is_hex h" "list_all is_hex hs"
    using assms(1) by (cases "fst ch") (auto simp: chunk_ok_def)
  let ?n = "length (snd ch)"
  have v: "16 ^ length hs * hval h + hex_val hs = ?n" "?n < 2 ^ 59" "0 < ?n"
    using assms(1) h(1) by (auto simp: chunk_ok_def num_val_Cons)
  have 1: "goes ck_start sz (h # hs @ [CR, LF] @ b) ck_size (of_nat (hval h)) (hs @ [CR, LF] @ b)"
    using goes_step [of ck_start sz h] hex_digit_value(1) [OF h(2)] assms(2) by (simp add: ck_step_def)
  have 2: "goes ck_size (of_nat (hval h)) (hs @ [CR, LF] @ b) ck_size (of_nat ?n) ([CR, LF] @ b)"
    using goes_hex [OF h(3), of "hval h" "[CR, LF] @ b"] v by simp
  have 3: "goes ck_size (of_nat ?n) ([CR, LF] @ b) ck_extension_almost_done (of_nat ?n) ([LF] @ b)"
    using goes_step [of ck_size "of_nat ?n" CR] of_nat_ne_0 [OF v(3,2)] of_nat_less_2_59 [OF v(2)]
    by (simp add: ck_step_def st_chunk_size_special)
  have 4: "goes ck_extension_almost_done (of_nat ?n) ([LF] @ b) ck_data (of_nat ?n) b"
    using goes_step [of ck_extension_almost_done "of_nat ?n" LF] of_nat_less_2_59 [OF v(2)]
    by (simp add: ck_step_def)
  show ?thesis
    using goes_trans [OF goes_trans [OF goes_trans [OF 1 2] 3] 4] by (simp add: h(1))
qed

lemma sizes_ok_data':
  assumes "length xs \<le> n" "n < 2 ^ 59" "sizes_ok ck_data (of_nat (n - length xs)) ys"
  shows "sizes_ok ck_data (of_nat n) (xs @ ys)"
  using assms
proof (induction xs arbitrary: n)
  case (Cons x xs)
  then obtain m where n: "n = Suc m" by (cases n) auto
  then have "(of_nat n :: i64) - 1 = of_nat m" by simp
  moreover have "(of_nat n :: i64) \<noteq> 0" using of_nat_ne_0 [of n] n Cons.prems by simp
  ultimately have "dstep ck_data (of_nat n) x = Inl ([x], ck_data, of_nat m)" by (simp add: dstep_def)
  moreover have "sizes_ok ck_data (of_nat m) (xs @ ys)" using Cons n by simp
  ultimately show ?case using of_nat_less_2_59 [OF Cons.prems(2)] by simp
qed simp

lemma encode_chunks_ok:
  assumes "list_all chunk_ok cs" "sz < 2 ^ 59"
  shows "dechunk ck_start sz (encode_chunks cs) = (concat (map snd cs), dc_done []) \<and>
    sizes_ok ck_start sz (encode_chunks cs)"
  using assms
proof (induction cs arbitrary: sz)
  case Nil
  have "goes ck_start sz (asc CHR ''0'' # [CR, LF, CR, LF]) ck_size 0 [CR, LF, CR, LF]"
    using goes_step [of ck_start sz "asc CHR ''0''"] Nil by (simp add: ck_step_def st_chunk_start_def)
  moreover have "dechunk ck_size 0 [CR, LF, CR, LF] = ([], dc_done [])" "sizes_ok ck_size 0 [CR, LF, CR, LF]"
    by (simp_all add: dstep_def ck_step_def st_chunk_size_special)
  ultimately show ?case by (simp add: goes_def)
next
  case (Cons ch cs)
  let ?n = "length (snd ch)" and ?rest = "[CR, LF] @ encode_chunks cs"
  have n: "?n < 2 ^ 59" using Cons.prems by (simp add: chunk_ok_def)
  have 1: "goes ck_start sz (encode_chunks (ch # cs)) ck_data (of_nat ?n) (snd ch @ ?rest)"
    using goes_chunk_head [of ch sz "snd ch @ ?rest"] Cons.prems by simp
  have 2: "goes ck_data 0 ?rest ck_start 0 (encode_chunks cs)"
    by (simp add: goes_def dstep_def ck_step_def apfst_def map_prod_def split: prod.split)
  have IH: "dechunk ck_start 0 (encode_chunks cs) = (concat (map snd cs), dc_done [])"
      "sizes_ok ck_start 0 (encode_chunks cs)"
    using Cons.IH [of 0] Cons.prems(1) by simp_all
  have "dechunk ck_data (of_nat ?n) (snd ch @ ?rest) = apfst (append (snd ch)) (dechunk ck_data 0 ?rest)"
    using dechunk_data [OF order.refl n, of ?rest] by simp
  moreover have "sizes_ok ck_data (of_nat ?n) (snd ch @ ?rest)"
    by (rule sizes_ok_data' [OF order.refl n]) (use 2 IH(2) in \<open>simp add: goes_def\<close>)
  ultimately show ?case using 1 2 IH by (simp add: goes_def)
qed

section \<open>Properties\<close>



lemma sizes_ok_behind:
  "sizes_ok st sz a \<Longrightarrow> dechunk st sz a = (o1, dc_done rest) \<Longrightarrow> sizes_ok st sz (a @ b)"
proof (induction a arbitrary: st sz o1)
  case (Cons c a)
  show ?case
  proof (cases "dstep st sz c")
    case (Inl x)
    obtain o2 st1 sz1 where x: "x = (o2, st1, sz1)" by (cases x)
    with Cons.prems Inl Cons.IH [of st1 sz1] show ?thesis
      by (cases "dechunk st1 sz1 a") auto
  next
    case (Inr y)
    with Cons.prems show ?thesis by simp
  qed
qed simp

text \<open>The same for the filter that throws the body away: it stops right behind the body.\<close>

lemma discard_dechunk:
  assumes "sizes_ok (cstate ctx) (csize ctx) b"
    and "dechunk (cstate ctx) (csize ctx) b = (o1, dc_done rest)"
  shows "\<exists>ctx'. discard_chunked ctx b = (NGX_OK, 0, ctx', rest) \<and> cstate ctx' = ck_start"
  using assms
proof (induction ctx b arbitrary: o1 rule: discard_chunked.induct)
  case (1 ctx b)
  let ?D = "dechunk (cstate ctx) (csize ctx) b"
  obtain rc ctx1 b' where p: "ngx_http_parse_chunked ctx b = (rc, ctx1, b')"
    using prod_cases3 by blast
  note unfold = discard_chunked.simps [of ctx b, unfolded p prod.case]
  from parse_dechunk [OF 1(2) p] show ?case
  proof (elim disjE conjE)
    assume rc: "rc = NGX_OK" and st: "cstate ctx1 = ck_data"
      and D: "fst ?D = fst (dechunk ck_data (csize ctx1) b')"
        "settled (snd ?D) = settled (snd (dechunk ck_data (csize ctx1) b'))"
      and ok: "sizes_ok ck_data (csize ctx1) b'"
    obtain o2 ctx2 b2 where t: "take_data ctx1 b' = (o2, ctx2, b2)" using prod_cases3 by blast
    note td = take_data_dechunk [OF ok st t]
    have "settled (snd (dechunk ck_data (csize ctx2) b2)) = dc_done rest" using D(2) td 1(3) by simp
    then have "dechunk ck_data (csize ctx2) b2 = (fst (dechunk ck_data (csize ctx2) b2), dc_done rest)"
      by (cases "dechunk ck_data (csize ctx2) b2"; cases "snd (dechunk ck_data (csize ctx2) b2)") auto
    with 1(1) [OF p [symmetric] refl rc t [symmetric] refl] td
    show ?thesis unfolding unfold using rc t by simp
  next
    assume "rc = NGX_AGAIN" "settled (snd ?D) = dc_more (settle (cstate ctx1) (csize ctx1)) (csize ctx1)"
    then show ?thesis using 1(3) by simp
  next
    assume "rc = NGX_DONE" "snd ?D = dc_done b'" "cstate ctx1 = ck_start"
    then show ?thesis unfolding unfold using 1(3) NGX_codes by simp
  next
    assume "snd ?D = dc_bad"
    then show ?thesis using 1(3) by simp
  qed
qed



subsection \<open>The limit\<close>

lemma sint_add_small:
  assumes "0 \<le> sint (a :: i64)" "int n \<le> sint (m :: i64) - sint a"
  shows "sint (a + of_nat n) = sint a + int n"
proof -
  have m: "sint m < 2 ^ 63" using sint_lt [of m] by simp
  define k where "k = nat (sint a) + n"
  have "a = of_nat (nat (sint a))" using assms(1) by simp
  then have "a + of_nat n = of_nat k" by (metis k_def of_nat_add)
  moreover have "k < 2 ^ 63" using assms m by (simp add: k_def nat_less_iff)
  ultimately show ?thesis using assms(1) sint_of_nat [of k] by (simp add: k_def)
qed

lemma sint_sub_small:
  assumes "0 \<le> sint (a :: i64)" "sint a \<le> sint (m :: i64)"
  shows "sint (m - a) = sint m - sint a"
proof -
  have m: "sint m < 2 ^ 63" using sint_lt [of m] by simp
  define k where "k = nat (sint m - sint a)"
  have "m - a = of_int (sint m - sint a)" by simp
  also have "\<dots> = of_nat k" using assms by (simp add: k_def)
  finally show ?thesis using assms m sint_of_nat [of k] by (simp add: k_def nat_less_iff)
qed

lemma body_buf_limit:
  assumes "body_chunked_buf lim rb b out = (rc, rb', out', b')" "lim \<noteq> 0"
    and "0 \<le> sint (bcontent rb)" "sint (bcontent rb) \<le> sint lim"
  shows "0 \<le> sint (bcontent rb') \<and> sint (bcontent rb') \<le> sint lim \<and>
    int (length (data_of out')) - sint (bcontent rb') = int (length (data_of out)) - sint (bcontent rb)"
  using assms
proof (induction lim rb b out arbitrary: rc rb' out' b' rule: body_chunked_buf.induct)
  case (1 lim rb b out)
  obtain rc1 ctx b1 where p: "ngx_http_parse_chunked (bchunked rb) b = (rc1, ctx, b1)"
    using prod_cases3 by blast
  note unfold = body_chunked_buf.simps [of lim rb b out, unfolded p prod.case]
  show ?case
  proof (cases "rc1 = NGX_OK \<and> \<not> lim - bcontent rb <s csize ctx")
    case False
    with 1(2-) unfold show ?thesis by (auto split: if_splits)
  next
    case True
    obtain o2 ctx2 b2 where t: "take_data ctx b1 = (o2, ctx2, b2)" using prod_cases3 by blast
    have "\<not> csize ctx <s 0" using parse_chunked_ok [of "bchunked rb" b ctx b1] p True by simp
    then have c: "0 \<le> sint (csize ctx)" by (simp add: word_sless_alt)
    have "sint (csize ctx) \<le> sint lim - sint (bcontent rb)"
      using True sint_sub_small [OF 1(4,5)] by (simp add: word_sless_alt)
    moreover have "int (length o2) \<le> sint (csize ctx)"
      using t c by (auto simp: take_data_def Let_def split: if_splits)
    ultimately have l: "int (length o2) \<le> sint lim - sint (bcontent rb)" by simp
    note s = sint_add_small [OF 1(4) l]
    let ?rb = "rb\<lparr>bchunked := ctx2, bcontent := bcontent rb + of_nat (length o2)\<rparr>"
    have r: "body_chunked_buf lim ?rb b2 (out @ [Some o2]) = (rc, rb', out', b')"
      using 1(2) unfold True t by simp
    have "\<not> (lim \<noteq> 0 \<and> lim - bcontent rb <s csize ctx)" using True by simp
    from 1(1) [OF p [symmetric] refl _ this t [symmetric] refl r 1(3)] True s l 1(4)
    show ?thesis by simp
  qed
qed

lemma body_bufs_limit:
  assumes "body_chunked_bufs lim rb bs out = (rc, rb', out')" "lim \<noteq> 0"
    and "0 \<le> sint (bcontent rb)" "sint (bcontent rb) \<le> sint lim"
  shows "sint (bcontent rb') \<le> sint lim \<and>
    int (length (data_of out')) - sint (bcontent rb') = int (length (data_of out)) - sint (bcontent rb)"
  using assms
proof (induction bs arbitrary: rb out)
  case (Cons b bs)
  obtain rc1 rb1 out1 b1 where r: "body_chunked_buf lim rb b out = (rc1, rb1, out1, b1)"
    using prod_cases4 by blast
  note l = body_buf_limit [OF r Cons.prems(2-4)]
  show ?case
  proof (cases "rc1 = NGX_OK")
    case True
    with Cons.IH [of rb1 out1] Cons.prems r l show ?thesis by simp
  next
    case False
    with Cons.prems(1) r l show ?thesis by auto
  qed
qed simp


definition filter_rc :: "i64 \<Rightarrow> byte list list \<Rightarrow> i64 \<times> byte list" where
  "filter_rc lim bs =
     (case ngx_http_request_body_chunked_filter lim \<lparr>brest = -1, bcontent = 0, bchunked = chunked_zero\<rparr> bs of
        (rc, rb, out) \<Rightarrow> (rc, data_of out))"


subsection \<open>What is awaited\<close>

fun ck_need :: "ck_state \<Rightarrow> nat \<Rightarrow> nat" where
  "ck_need ck_start n = 3"
| "ck_need ck_size n = (if n = 0 then 2 else n + 5)"
| "ck_need ck_extension n = n + 5"
| "ck_need ck_extension_almost_done n = n + 5"
| "ck_need ck_data n = n + 4"
| "ck_need ck_after_data n = 4"
| "ck_need ck_after_data_almost_done n = 4"
| "ck_need ck_last_extension n = 2"
| "ck_need ck_last_extension_almost_done n = 2"
| "ck_need ck_trailer n = 1"
| "ck_need ck_trailer_almost_done n = 1"
| "ck_need ck_trailer_header n = 2"
| "ck_need ck_trailer_header_almost_done n = 2"

lemma ck_length_need:
  assumes "sz < 2 ^ 59"
  shows "sint (ck_length st sz) = int (ck_need st (unat sz))"
proof -
  have s: "sint (sz + of_nat k) = int (unat sz + k)" if "k < 16" for k
    using sint_of_nat [of "unat sz + k"] small_word(3) [OF assms] that by simp
  have k: "sint (of_nat k :: i64) = int k" if "k < 16" for k
    using sint_of_nat [of k] that by simp
  show ?thesis
    using s [of 4] s [of 5] k [of 1] k [of 2] k [of 3] k [of 4]
    by (cases st) (auto simp: ck_length_def add.commute add.left_commute unat_eq_0)
qed

lemma dstep_need:
  assumes "sz < 2 ^ 59" "dstep st sz c = Inl (out, st', sz')"
  shows "ck_need st (unat sz) \<le> Suc (ck_need st' (unat sz'))"
proof (cases "st = ck_data")
  case True
  show ?thesis
  proof (cases "sz = 0")
    case False
    with True assms(2) have "st' = ck_data" "sz' = sz - 1" by (simp_all add: dstep_def)
    moreover have "unat (sz - 1) = unat sz - 1" "unat sz > 0"
      using False by (simp_all add: unat_minus_one unat_gt_0)
    ultimately show ?thesis using True by simp
  next
    case z: True
    with True assms(2) show ?thesis
      by (auto simp: dstep_def ck_step_def split: if_splits)
  qed
next
  case False
  with assms(2) have s: "ck_step st sz c = Inl (st', sz')"
    by (cases "ck_step st sz c") (auto simp: dstep_step)
  show ?thesis
  proof (cases "st = ck_size \<and> is_hex c")
    case True
    then have sz': "st' = ck_size" "sz' = of_nat (unat sz * 16 + hval c)"
      using s hex_digit_value(2) [of c sz] by (simp_all add: ck_step_def)
    have "hval c < 16" using True by (intro hval_less) simp
    then have "unat sz * 16 + hval c < 2 ^ 64" using small_word(3) [OF assms(1)] by simp
    then have "unat sz' = unat sz * 16 + hval c"
      using sz'(2) by (simp add: unat_of_nat take_bit_nat_eq_self del: of_nat_add of_nat_mult)
    with True sz'(1) show ?thesis by simp
  next
    case hex: False
    then have "st = ck_size \<Longrightarrow> sz' = sz \<and> (st' \<in> {ck_last_extension_almost_done, ck_trailer, ck_last_extension} \<and> sz = 0 \<or>
        st' \<in> {ck_extension_almost_done, ck_data, ck_extension} \<and> sz \<noteq> 0)"
      using s unfolding is_digit_def is_hex_letter_def
      by (auto simp: ck_step_def st_chunk_size_def Let_def split: if_splits)
    with s False show ?thesis
      by (cases st) (auto simp: ck_step_def st_chunk_start_def Let_def unat_eq_0 split: if_splits)
  qed
qed

text \<open>
  Claim C26. \<open>ctx->length\<close>, the amount the callers want to see next, is a lower bound of what is
  still to come: no continuation that ends the body is shorter, as long as sizes do not overflow.
\<close>
theorem chunked_length_bound:
  assumes "ngx_http_parse_chunked ctx b = (NGX_AGAIN, ctx', b')"
    and "sizes_ok (cstate ctx') (csize ctx') behind"
    and "dechunk (cstate ctx') (csize ctx') behind = (data, dc_done [])"
  shows "sint (clength ctx') \<le> int (length behind)"
proof -
  have "ck_need st (unat sz) \<le> length behind"
    if "sizes_ok st sz behind" "dechunk st sz behind = (data, dc_done [])" for st sz data
    using that
  proof (induction behind arbitrary: st sz data)
    case (Cons c behind)
    have sz: "sz < 2 ^ 59" using Cons.prems(1) by simp
    show ?case
    proof (cases "dstep st sz c")
      case (Inl x)
      obtain o2 st1 sz1 where x: "x = (o2, st1, sz1)" by (cases x)
      with Inl Cons.prems have "sizes_ok st1 sz1 behind" "dechunk st1 sz1 behind = (fst (dechunk st1 sz1 behind), dc_done [])"
        by (cases "dechunk st1 sz1 behind", auto)+
      with Cons.IH dstep_need [OF sz] Inl x show ?thesis by fastforce
    next
      case (Inr y)
      with Cons.prems have "y = ck_done" by (cases y) auto
      with Inr have "ck_need st (unat sz) = 1"
        by (cases st) (auto simp: dstep_def ck_step_def st_chunk_start_def st_chunk_size_def Let_def
            split: if_splits)
      then show ?thesis by simp
    qed
  qed simp
  then have n: "ck_need (cstate ctx') (unat (csize ctx')) \<le> length behind" using assms(2,3) by blast
  have "clength ctx' = ck_length (cstate ctx') (csize ctx')"
    using assms(1)
    by (auto simp: ngx_http_parse_chunked_def Let_def res_simps split: option.splits ck_stop.splits
        prod.splits if_splits)
  with n ck_length_need [OF sizes_ok_less [OF assms(2)]] show ?thesis by simp
qed

theorem chunked_length_bound_witness:
  "\<exists>ctx'. ngx_http_parse_chunked chunked_zero (bytes ''5'') = (NGX_AGAIN, ctx', []) \<and>
     sint (clength ctx') \<le> 14"
proof -
  let ?c = "\<lparr>cstate = ck_size, csize = 5, clength = 10\<rparr>"
  have p: "ngx_http_parse_chunked chunked_zero (bytes ''5'') = (NGX_AGAIN, ?c, [])" by code_simp
  let ?behind = "[CR, LF] @ bytes ''hello'' @ [LF] @ bytes ''0'' @ [CR, LF, CR, LF]"
  have "sizes_ok ck_size 5 ?behind" "dechunk ck_size 5 ?behind = (bytes ''hello'', dc_done [])"
    by code_simp+
  with chunked_length_bound [OF p, of ?behind] p show ?thesis by simp
qed

subsection \<open>What the parser lets through\<close>


text \<open>
  Behind the data of a chunk any bytes are skipped up to the end of the line instead
  of being refused: a chunk of size 5 with eleven bytes in it is a chunk of its first five.
\<close>
theorem chunk_data_junk:
  "filter_rc 0 [bytes ''5'' @ [LF] @ bytes ''hello world'' @ [LF] @ bytes ''0'' @ [LF, LF]] =
     (NGX_OK, bytes ''hello'')"
  by code_simp

section \<open>Bodies of known length\<close>

lemma length_bufs:
  assumes "body_length_bufs rest cl = (r, out, cl')" "sint rest = int n"
  shows "concat (map fst out) = take n (concat cl) \<and> concat cl' = drop n (concat cl) \<and>
    sint r = int (n - length (concat cl)) \<and> (list_ex snd out \<longleftrightarrow> 0 < n \<and> n \<le> length (concat cl))"
  using assms
proof (induction cl arbitrary: rest n r out cl')
  case (Cons b cl)
  show ?case
  proof (cases "rest = 0")
    case True
    with Cons.prems have "n = 0" by simp
    with Cons.prems True show ?thesis by auto
  next
    case False
    then have "sint rest \<noteq> 0" using signed_eq_0_iff by blast
    then have n: "0 < n" using Cons.prems(2) by simp
    have "rest = of_int (sint rest)" by simp
    then have rest: "rest = of_nat n" unfolding Cons.prems(2) by simp
    show ?thesis
    proof (cases "length b < n")
      case True
      obtain r1 o1 c1 where 1: "body_length_bufs (rest - of_nat (length b)) cl = (r1, o1, c1)"
        using prod_cases3 by blast
      have "n < 2 ^ 63" using Cons.prems(2) sint_lt [of rest] by simp
      then have "sint (rest - of_nat (length b)) = int (n - length b)"
        using True sint_of_nat [of "n - length b"] by (simp add: rest of_nat_diff)
      from Cons.IH [OF 1 this] Cons.prems False True 1 n show ?thesis
        by (auto simp: Let_def)
    next
      case False2: False
      obtain r1 o1 c1 where 1: "body_length_bufs 0 cl = (r1, o1, c1)"
        using prod_cases3 by blast
      have "sint (0 :: i64) = int 0" by simp
      from Cons.IH [OF 1 this] Cons.prems False False2 1 n show ?thesis
        by (auto simp: Let_def)
    qed
  qed
qed auto

text \<open>
  A body of known length: out of any buffers, the output chain is the first \<open>n\<close> bytes,
  what stays unread is the rest, \<open>rest\<close> counts down, and a buffer is marked \<open>last_buf\<close> exactly
  when the last byte has been seen.
\<close>
theorem length_filter_correct:
  assumes "ngx_http_request_body_length_filter rest content cl = (r, out, cl')"
    and "sint (if rest = -1 then content else rest) = int n"
  shows "concat (map fst out) = take n (concat cl) \<and> concat cl' = drop n (concat cl) \<and>
    sint r = int (n - length (concat cl)) \<and> (list_ex snd out \<longleftrightarrow> 0 < n \<and> n \<le> length (concat cl))"
  using assms(1) length_bufs [OF _ assms(2), of cl r out cl']
  by (simp add: ngx_http_request_body_length_filter_def)

theorem length_filter_correct_witness:
  "ngx_http_request_body_length_filter (-1) 3 [bytes ''ab'', bytes ''cd''] =
     (0, [(bytes ''ab'', False), (bytes ''c'', True)], [[], bytes ''d'']) \<and>
   concat (map fst [(bytes ''ab'', False), (bytes ''c'', True)]) = take 3 (bytes ''abcd'')"
proof -
  have r: "ngx_http_request_body_length_filter (-1) 3 [bytes ''ab'', bytes ''cd''] =
     (0, [(bytes ''ab'', False), (bytes ''c'', True)], [[], bytes ''d''])" by code_simp
  have "sint (if (-1 :: i64) = -1 then 3 else -1 :: i64) = int 3" using sint_of_nat [of 3] by simp
  from length_filter_correct [OF r this] r show ?thesis by simp
qed

end
