(* ===== verification/Toxic.thy ===== *)
theory Toxic
  imports Prelude
begin

unbundle bit_operations_syntax

text \<open>
  The toxic module, src/nginx-1.6.2/modules/toxic: \<open>ngx_http_toxic_module.c\<close> and \<open>toxic.c\<close>, the
  glue between a request of the server and the PHP script that answers it. The script, the
  engine under it and the functions of the server the module calls are outside: a script is
  the list of the callbacks it makes, and the calls into the server are recorded. A read
  outside an object, or of memory that was never written where its value matters, is \<open>None\<close>.
\<close>

section \<open>C strings\<close>

text \<open>The C string at an address, given the bytes from there on; \<open>strncpy\<close> into fresh memory.\<close>

definition c_string :: "byte list \<Rightarrow> byte list option" where
  "c_string mem = (if NUL \<in> set mem then Some (takeWhile (\<lambda>c. c \<noteq> NUL) mem) else None)"

definition strncpy :: "byte list \<Rightarrow> nat \<Rightarrow> byte list option" where
  "strncpy src n =
     (let s = takeWhile (\<lambda>c. c \<noteq> NUL) (take n src) in
      if length s < n \<and> length src \<le> length s then None else Some (s @ replicate (n - length s) NUL))"

text \<open>
  \<open>strncat dst src n\<close>: at the first null byte of the destination, up to \<open>n\<close> bytes and a null
  byte are written; all of it has to lie in the object.
\<close>

definition strncat :: "byte list \<Rightarrow> byte list \<Rightarrow> nat \<Rightarrow> byte list option" where
  "strncat dst src n =
     (case c_string dst of
        None \<Rightarrow> None
      | Some d \<Rightarrow>
          (let s = takeWhile (\<lambda>c. c \<noteq> NUL) (take n src) in
           if length d + length s < length dst
           then Some (d @ s @ NUL # drop (length d + length s + 1) dst) else None))"

section \<open>toxic_random_string\<close>

definition alphanum :: "byte list" where
  "alphanum = bytes ''ABCDEFGHIJKLMNOPQRSTUVWXYZabcdefghijklmnopqrstuvwxyz0123456789''"

text \<open>
  \<open>rand()\<close> is a stream of numbers, of which the loop uses a prefix; \<open>None\<close> is a stream too short
  for it to end. The result is not terminated.
\<close>

fun random_loop :: "nat \<Rightarrow> nat \<Rightarrow> byte list \<Rightarrow> nat list \<Rightarrow> byte list option" where
  "random_loop len i acc [] = (if i < len then None else Some acc)"
| "random_loop len i acc (r # rs) =
     (if i < len then
        (let c = alphanum ! (r mod length alphanum) in
         if i = 0 \<and> is_digit c then random_loop len 0 [] rs
         else random_loop len (Suc i) (acc @ [c]) rs)
      else Some acc)"

definition toxic_random_string :: "int \<Rightarrow> nat list \<Rightarrow> byte list option" where
  "toxic_random_string len rand = random_loop (nat len) 0 [] rand"

section \<open>toxic_parse_post\<close>

text \<open>
  A buffer of the body: the memory from \<open>start\<close> to \<open>end\<close>, and how much of it, up to \<open>last\<close>, holds
  data. \<open>fresh\<close> gives what is in the memory that each \<open>malloc\<close> returns.
\<close>

record post_buf =
  pmem :: "byte list"
  plast :: nat

fun post_loop :: "(nat \<Rightarrow> byte list) \<Rightarrow> nat \<Rightarrow> byte list \<Rightarrow> nat \<Rightarrow> post_buf list \<Rightarrow> (byte list \<times> nat) option" where
  "post_loop fresh k post_body post_len [] = Some (post_body, post_len)"
| "post_loop fresh k post_body post_len (buf # chain) =
     (let len = length (pmem buf) in
      if len > 0 then
        (if post_len = 0 then
           do { t \<leftarrow> strncpy (pmem buf) len;
                post_loop fresh (Suc k) (t @ drop len (take (len + 1) (fresh k))) len chain }
         else
           do { t \<leftarrow> strncpy post_body post_len;
                t' \<leftarrow> strncat (t @ drop post_len (take (post_len + len + 1) (fresh k))) (pmem buf) len;
                post_loop fresh (Suc k) t' (post_len + len) chain })
      else post_loop fresh k post_body post_len chain)"

text \<open>The string handed to \<open>parse_str\<close>: \<open>post_len\<close> bytes at \<open>post_body\<close>.\<close>

definition toxic_parse_post :: "(nat \<Rightarrow> byte list) \<Rightarrow> post_buf list \<Rightarrow> byte list option" where
  "toxic_parse_post fresh bufs =
     (case post_loop fresh 0 [] 0 bufs of
        None \<Rightarrow> None
      | Some (body, len) \<Rightarrow> if len \<le> length body then Some (take len body) else None)"

section \<open>The callbacks of a request\<close>

record obuf =
  obytes :: "byte list"
  olast_buf :: bool
  olast_in_chain :: bool

text \<open>
  An element of \<open>headers_out\<close>: \<open>ngx_list_push\<close> does not clear it, so a field is \<open>None\<close> until it is
  set. \<open>hkey\<close> and \<open>hvalue\<close> are the bytes at \<open>data\<close>, the lengths are kept apart.
\<close>

record helt =
  hhash :: "nat option"
  hkey_len :: "nat option"
  hkey :: "byte list option"
  hvalue_len :: "nat option"
  hvalue :: "byte list option"

definition helt_fresh :: helt where
  "helt_fresh = \<lparr>hhash = None, hkey_len = None, hkey = None, hvalue_len = None, hvalue = None\<rparr>"

text \<open>
  The state the nested functions of \<open>toxic_excecute\<close> share: the chain from \<open>out_chain\<close> to
  \<open>temp_chain\<close> (no link has a buffer as long as the list is empty), the counter, the table of
  callbacks with the keys it holds, and the fields of \<open>r->headers_out\<close>.
\<close>

record tox =
  out_chain :: "obuf list"
  base_len :: u32
  callbacks :: "byte list option list"
  content_type :: "byte list option"
  status :: nat
  hlist :: "helt list"
  content_length_n :: i64

definition mark_not_last :: "obuf list \<Rightarrow> obuf list" where
  "mark_not_last bs = (if bs = [] then [] else butlast bs @ [(last bs)\<lparr>olast_buf := False\<rparr>])"

definition callback_output :: "byte list \<Rightarrow> nat \<Rightarrow> tox \<Rightarrow> tox option" where
  "callback_output str len t =
     (if len = 0 then Some t
      else if length str < len then None
      else Some (t\<lparr>
        out_chain := mark_not_last (out_chain t) @
          [\<lparr>obytes = take len str @ [NUL], olast_buf = True, olast_in_chain = True\<rparr>],
        base_len := base_len t + of_nat len\<rparr>))"

definition header_callback :: "byte list option \<Rightarrow> tox \<Rightarrow> tox" where
  "header_callback mimetype t =
     (case mimetype of
        Some m \<Rightarrow> t\<lparr>content_type := Some m, status := 200\<rparr>
      | None \<Rightarrow> t\<lparr>content_type := Some (bytes ''text/html''), status := 200\<rparr>)"

text \<open>The index of the first colon, 0 when there is none, as the loop leaves it.\<close>

fun colon_index :: "nat \<Rightarrow> byte list \<Rightarrow> nat \<Rightarrow> nat option" where
  "colon_index i line 0 = Some 0"
| "colon_index i [] (Suc n) = None"
| "colon_index i (c # line) (Suc n) = (if c = asc CHR '':'' then Some i else colon_index (Suc i) line n)"

definition header_function :: "byte list option \<Rightarrow> nat \<Rightarrow> tox \<Rightarrow> tox option" where
  "header_function line line_len t =
     (case line of
        None \<Rightarrow> Some t
      | Some l \<Rightarrow> do {
          key_index \<leftarrow> colon_index 0 l line_len;
          if key_index = 0 then Some t
          else
            let h = helt_fresh\<lparr>hkey_len := Some key_index\<rparr>;
                vlen = line_len - 1 - key_index;
                h = h\<lparr>hvalue_len := Some vlen\<rparr>
            in if vlen = 0 then Some (t\<lparr>hlist := hlist t @ [h]\<rparr>)
               else do {
                 key \<leftarrow> strncpy l key_index;
                 val \<leftarrow> strncpy (drop (key_index + 1) l) vlen;
                 Some (t\<lparr>hlist := hlist t @ [h\<lparr>hkey := Some key, hvalue := Some val\<rparr>]\<rparr>) } })"

text \<open>\<open>toxic_output\<close>: \<open>callbacks\<close> has one element, the loop counts to ten.\<close>

function toxic_output_loop :: "byte list \<Rightarrow> byte list \<Rightarrow> nat \<Rightarrow> nat \<Rightarrow> tox \<Rightarrow> tox option" where
  "toxic_output_loop idx str len i t =
     (if i < 10 then
        (case rd (callbacks t) i of
           None \<Rightarrow> None
         | Some None \<Rightarrow> toxic_output_loop idx str len (Suc i) t
         | Some (Some key) \<Rightarrow>
             if idx = key then callback_output str len t else toxic_output_loop idx str len (Suc i) t)
      else Some t)"
  by pat_completeness auto
termination
  by (relation "measure (\<lambda>(idx, str, len, i, t). 10 - i)") auto

declare toxic_output_loop.simps [simp del]

definition toxic_output :: "byte list option \<Rightarrow> byte list \<Rightarrow> nat \<Rightarrow> tox \<Rightarrow> tox option" where
  "toxic_output request_index str len t =
     (case request_index of None \<Rightarrow> Some t | Some idx \<Rightarrow> toxic_output_loop idx str len 0 t)"

section \<open>A request\<close>

text \<open>What a running script does to the module, and the whole of it.\<close>

datatype tox_event =
    ev_output "byte list option" "byte list" nat
  | ev_send_headers "byte list option"
  | ev_header "byte list option" nat

fun tox_handle :: "tox_event \<Rightarrow> tox \<Rightarrow> tox option" where
  "tox_handle (ev_output idx str len) t = toxic_output idx str len t"
| "tox_handle (ev_send_headers mimetype) t = Some (header_callback mimetype t)"
| "tox_handle (ev_header line len) t = header_function line len t"

text \<open>
  The first part of \<open>toxic_excecute\<close>: an empty chain, and the key in the only slot. The key is
  read with \<open>strlen\<close> and \<open>strcmp\<close>: \<open>behind\<close> is the memory behind the ten bytes.
\<close>

definition toxic_start :: "nat list \<Rightarrow> byte list \<Rightarrow> tox \<Rightarrow> tox option" where
  "toxic_start rand behind t =
     do { s \<leftarrow> toxic_random_string 10 rand;
          key \<leftarrow> c_string (s @ behind);
          Some (t\<lparr>out_chain := [], callbacks := [Some key]\<rparr>) }"

text \<open>
  \<open>exit_request\<close>: the length that is announced, and the buffers that are passed on (none if the
  chain is empty).
\<close>

definition exit_request :: "tox \<Rightarrow> tox \<times> byte list" where
  "exit_request t =
     (t\<lparr>content_length_n := scast (base_len t)\<rparr>, concat (map obytes (out_chain t)))"

fun tox_script :: "tox_event list \<Rightarrow> tox \<Rightarrow> tox option" where
  "tox_script [] t = Some t"
| "tox_script (e # es) t = do { t' \<leftarrow> tox_handle e t; tox_script es t' }"

definition toxic_excecute :: "nat list \<Rightarrow> byte list \<Rightarrow> tox_event list \<Rightarrow> tox \<Rightarrow> (tox \<times> byte list) option" where
  "toxic_excecute rand behind script t =
     do { t1 \<leftarrow> toxic_start rand behind t;
          t2 \<leftarrow> tox_script script t1;
          Some (exit_request t2) }"

section \<open>The handler\<close>

text \<open>
  What the handler asks the server for, in the process that goes on under the same pid and in
  the child of \<open>fork\<close>, if there is one.
\<close>

datatype fork_result = in_child | in_parent | fork_failed

datatype tox_action =
    act_read_body | act_fork | act_add_cleanup | act_parse_post | act_execute | act_close
  | act_finalize i64 | act_wait_thread

definition toxic_post_body_handler :: "fork_result \<Rightarrow> bool \<Rightarrow> tox_action list" where
  "toxic_post_body_handler f cleanup_ok =
     (if f = in_child then
        [act_fork, act_add_cleanup] @ (if cleanup_ok then [act_parse_post, act_execute] else [])
      else [act_fork, act_close, act_finalize NGX_OK])"

definition ngx_http_toxic_handler :: "u32 \<Rightarrow> i64 \<Rightarrow> fork_result \<Rightarrow> i64 \<times> tox_action list" where
  "ngx_http_toxic_handler method rc f =
     (if method AND (0x0008 OR 0x0010) \<noteq> 0 then
        (if rc = NGX_ERROR \<or> \<not> rc <s 300 then (rc, [act_read_body]) else (NGX_OK, [act_read_body]))
      else
        (NGX_OK, [act_fork] @ (if f = in_child then [act_execute, act_wait_thread] else []) @
           [act_finalize NGX_AGAIN]))"

section \<open>The request key\<close>

lemma alphanum_ok:
  assumes "n < 62"
  shows "alphanum ! n \<noteq> NUL \<and> (is_digit (alphanum ! n) \<longleftrightarrow> 52 \<le> n)"
proof -
  have "list_all (\<lambda>(n, c). c \<noteq> NUL \<and> (is_digit c \<longleftrightarrow> 52 \<le> n)) (zip [0..<62] alphanum) \<and> length alphanum = 62"
    by code_simp
  with assms show ?thesis by (force simp: list_all_length)
qed

lemma length_alphanum: "length alphanum = 62"
  by (simp add: alphanum_def)

lemma random_loop_rest:
  "0 < i \<Longrightarrow> n = len - i \<Longrightarrow> i \<le> len \<Longrightarrow> n \<le> length rs \<Longrightarrow>
     random_loop len i acc rs = Some (acc @ map (\<lambda>r. alphanum ! (r mod 62)) (take n rs))"
proof (induction rs arbitrary: i acc n)
  case (Cons r rs)
  show ?case
  proof (cases "i < len")
    case True
    then obtain m where m: "n = Suc m" "m = len - Suc i" using Cons.prems by (cases n) auto
    then have "m \<le> length rs" using Cons.prems(4) by simp
    with Cons.IH [of "Suc i" m "acc @ [alphanum ! (r mod 62)]"] m(2) True have
      "random_loop len (Suc i) (acc @ [alphanum ! (r mod 62)]) rs =
        Some ((acc @ [alphanum ! (r mod 62)]) @ map (\<lambda>r. alphanum ! (r mod 62)) (take m rs))"
      by (simp only: zero_less_Suc Suc_leI)
    with Cons.prems(1) True show ?thesis by (simp add: length_alphanum Let_def m(1))
  qed (use Cons.prems in auto)
qed auto

lemma random_loop_digits:
  "\<forall>r \<in> set ds. 52 \<le> r mod 62 \<Longrightarrow> 0 < len \<Longrightarrow> random_loop len 0 [] (ds @ rs) = random_loop len 0 [] rs"
  by (induction ds) (simp_all add: length_alphanum alphanum_ok Let_def)

text \<open>
  Claim C29. The key of a request: leading draws that give a digit are thrown away, and as soon as
  one gives a letter, the string is that letter and the next \<open>len - 1\<close> draws. So the loop ends
  on every stream that has a letter and enough draws behind it, and the key has exactly \<open>len\<close>
  bytes, all of the alphabet, the first not a digit.
\<close>
theorem toxic_random_string_correct:
  assumes "\<forall>d \<in> set ds. 52 \<le> d mod 62" "r mod 62 < 52" "len = int (Suc n)" "n \<le> length rs"
  shows "toxic_random_string len (ds @ r # rs) =
      Some (map (\<lambda>r. alphanum ! (r mod 62)) (r # take n rs)) \<and>
    length (r # take n rs) = Suc n \<and> \<not> is_digit (alphanum ! (r mod 62))"
proof -
  have "nat len = Suc n" by (simp only: assms(3) nat_int)
  moreover have "random_loop (Suc n) 0 [] (ds @ r # rs) = random_loop (Suc n) 0 [] (r # rs)"
    by (rule random_loop_digits [OF assms(1)]) simp
  moreover have "\<dots> = random_loop (Suc n) 1 [alphanum ! (r mod 62)] rs"
    using assms(2) by (simp add: length_alphanum alphanum_ok Let_def)
  moreover have "\<dots> = Some ([alphanum ! (r mod 62)] @ map (\<lambda>r. alphanum ! (r mod 62)) (take n rs))"
    by (rule random_loop_rest) (use assms(4) in simp_all)
  ultimately show ?thesis using assms(2,4) by (simp add: toxic_random_string_def alphanum_ok)
qed

theorem toxic_random_string_correct_witness:
  "toxic_random_string 3 [55, 60, 1, 52, 27, 9] = Some (bytes ''B0b'')"
  using toxic_random_string_correct [of "[55, 60]" 1 3 2 "[52, 27, 9]"]
  by (simp add: alphanum_def)

section \<open>The body of a POST request\<close>

lemma takeWhile_no_NUL: "NUL \<notin> set s \<Longrightarrow> takeWhile (\<lambda>c. c \<noteq> NUL) s = s"
  by (induction s) auto

lemma strncpy_no_NUL: "NUL \<notin> set (take n src) \<Longrightarrow> n \<le> length src \<Longrightarrow> strncpy src n = Some (take n src)"
  by (simp add: strncpy_def takeWhile_no_NUL Let_def)

text \<open>
  A body in one buffer without null bytes is handed over unchanged, but up to the end of
  the buffer, not of the data: the bytes from \<open>last\<close> to \<open>end\<close> go with it.
\<close>
theorem toxic_parse_post_one:
  assumes "NUL \<notin> set (pmem b)" "pmem b \<noteq> []"
  shows "toxic_parse_post fresh [b] = Some (take (plast b) (pmem b) @ drop (plast b) (pmem b))"
  using assms strncpy_no_NUL [of "length (pmem b)" "pmem b"]
  by (simp add: toxic_parse_post_def Let_def)

theorem toxic_parse_post_one_witness:
  "toxic_parse_post (\<lambda>k. replicate 9 7) [\<lparr>pmem = bytes ''a=1???'', plast = 3\<rparr>] = Some (bytes ''a=1???'')"
  using toxic_parse_post_one [of "\<lparr>pmem = bytes ''a=1???'', plast = 3\<rparr>"] by simp

lemma c_string_app: "NUL \<notin> set a \<Longrightarrow> c_string (a @ m) = map_option (append a) (c_string m)"
  by (induction a) (auto simp: c_string_def)

lemma strncat_here:
  assumes "NUL \<notin> set a" "NUL \<notin> set src" "length src < length m" "m ! 0 = NUL"
  shows "strncat (a @ m) src (length src) = Some (a @ src @ NUL # drop (length src + 1) m)"
proof -
  obtain m' where "m = NUL # m'" using assms(3,4) by (cases m) auto
  then have "c_string (a @ m) = Some a" using assms(1) by (simp add: c_string_app) (simp add: c_string_def)
  with assms show ?thesis by (simp add: strncat_def takeWhile_no_NUL)
qed

lemma strncat_nowhere: "NUL \<notin> set a \<Longrightarrow> NUL \<notin> set m \<Longrightarrow> strncat (a @ m) src n = None"
  by (simp add: strncat_def c_string_app) (simp add: c_string_def)



section \<open>The output of a script\<close>

text \<open>
  The table has one element, so an output for any other key than the one in it reads the
  memory behind the table; an output without a key is dropped.
\<close>
theorem toxic_output_table:
  "toxic_output None str len t = Some t \<and>
   toxic_output (Some idx) str len (t\<lparr>callbacks := [Some key]\<rparr>) =
     (if idx = key then callback_output str len (t\<lparr>callbacks := [Some key]\<rparr>) else None)"
  by (simp add: toxic_output_def toxic_output_loop.simps [of idx str len 0]
      toxic_output_loop.simps [of idx str len "Suc 0"])

text \<open>The strings a script writes, and the buffers they are sent in.\<close>

fun written :: "tox_event list \<Rightarrow> byte list list" where
  "written (ev_output (Some idx) str len # es) = (if len = 0 then [] else [take len str]) @ written es"
| "written (_ # es) = written es"
| "written [] = []"

fun out_bufs :: "byte list list \<Rightarrow> obuf list" where
  "out_bufs [] = []"
| "out_bufs [w] = [\<lparr>obytes = w @ [NUL], olast_buf = True, olast_in_chain = True\<rparr>]"
| "out_bufs (w # ws) = \<lparr>obytes = w @ [NUL], olast_buf = False, olast_in_chain = True\<rparr> # out_bufs ws"

lemma out_bufs_snoc: "out_bufs (ws @ [w]) =
    mark_not_last (out_bufs ws) @ [\<lparr>obytes = w @ [NUL], olast_buf = True, olast_in_chain = True\<rparr>]"
proof (induction ws rule: out_bufs.induct)
  case (3 w v ws)
  moreover have "out_bufs (v # ws) \<noteq> []" by (cases ws) simp_all
  ultimately show ?case by (simp add: mark_not_last_def)
qed (simp_all add: mark_not_last_def)

lemma out_bufs_bytes: "map obytes (out_bufs ws) = map (\<lambda>w. w @ [NUL]) ws"
  by (induction ws rule: out_bufs.induct) simp_all

text \<open>
  A step of a script, and the invariant: the chain holds what was written, in order, one buffer
  for each string, and only the last buffer is marked as the last of the response.
\<close>

inductive tox_step :: "tox \<Rightarrow> byte list list \<Rightarrow> tox \<Rightarrow> bool" where
  wrote: "len \<noteq> 0 \<Longrightarrow> callback_output str len t = Some t' \<Longrightarrow> tox_step t [take len str] t'"
| wrote_nothing: "tox_step t [] t"
| send_headers: "tox_step t [] (header_callback m t)"
| header: "header_function l n t = Some t' \<Longrightarrow> tox_step t [] t'"

definition out_inv :: "byte list list \<Rightarrow> tox \<Rightarrow> bool" where
  "out_inv ws t \<longleftrightarrow> out_chain t = out_bufs ws \<and> base_len t = of_nat (length (concat ws))"

lemma header_function_keeps:
  assumes "header_function l n t = Some t'"
  shows "out_chain t' = out_chain t \<and> base_len t' = base_len t \<and> callbacks t' = callbacks t"
  using assms
  by (auto simp: header_function_def Let_def split: option.splits if_splits bind_splits)

lemma out_inv_step: "tox_step t ws t' \<Longrightarrow> out_inv vs t \<Longrightarrow> out_inv (vs @ ws) t'"
proof (induction rule: tox_step.induct)
  case (wrote len str t t')
  then show ?case
    by (auto simp: out_inv_def callback_output_def out_bufs_snoc min_absorb2 split: if_splits)
next
  case (send_headers t m)
  then show ?case by (simp add: out_inv_def header_callback_def split: option.splits)
next
  case (header l n t t')
  then show ?case using header_function_keeps [of l n t t'] by (simp add: out_inv_def)
qed simp

lemma callback_keeps_table: "callback_output str len t = Some t' \<Longrightarrow> callbacks t' = callbacks t"
  by (auto simp: callback_output_def split: if_splits)

lemma tox_handle_step:
  assumes "tox_handle e t = Some t'" "callbacks t = [Some key]"
  shows "tox_step t (written [e]) t' \<and> callbacks t' = [Some key]"
proof (cases e)
  case (ev_output idx str len)
  have t: "t\<lparr>callbacks := [Some key]\<rparr> = t" using assms(2) by simp
  show ?thesis
  proof (cases idx)
    case None
    with ev_output assms show ?thesis by (simp add: toxic_output_def tox_step.wrote_nothing)
  next
    case (Some i)
    with ev_output assms have cb: "callback_output str len t = Some t'"
      using toxic_output_loop.simps [of i str len 0 t] toxic_output_loop.simps [of i str len "Suc 0" t]
      by (simp add: toxic_output_def split: if_splits)
    then have "tox_step t (if len = 0 then [] else [take len str]) t'"
      by (cases "len = 0") (auto intro: tox_step.intros simp: callback_output_def)
    with ev_output Some cb assms(2) callback_keeps_table [OF cb] show ?thesis by simp
  qed
next
  case (ev_send_headers m)
  with assms show ?thesis
    using tox_step.send_headers [of t m] by (auto simp: header_callback_def split: option.splits)
next
  case (ev_header l n)
  with assms header_function_keeps [of l n t t'] show ?thesis by (auto intro: tox_step.header)
qed

lemma written_Cons: "written (e # es) = written [e] @ written es"
  by (cases "(e # es)" rule: written.cases) simp_all

lemma tox_script_inv:
  assumes "tox_script es t = Some t'" "callbacks t = [Some key]" "out_inv vs t"
  shows "out_inv (vs @ written es) t'"
  using assms
proof (induction es arbitrary: t vs)
  case (Cons e es)
  then obtain t1 where t1: "tox_handle e t = Some t1" "tox_script es t1 = Some t'"
    by (auto split: bind_splits)
  with tox_handle_step Cons.prems have "tox_step t (written [e]) t1" "callbacks t1 = [Some key]" by blast+
  with Cons.IH [OF t1(2)] out_inv_step Cons.prems(3) have "out_inv ((vs @ written [e]) @ written es) t'"
    by blast
  then show ?case by (simp only: written_Cons [of e es] append_assoc)
qed simp

lemma length_concat_NUL: "length (concat (map (\<lambda>w. w @ [NUL]) ws)) = length (concat ws) + length ws"
  by (induction ws) simp_all

lemma scast_small: "n < 2 ^ 31 \<Longrightarrow> sint (scast (of_nat n :: u32) :: i64) = int n"
  by (simp add: signed_scast_eq signed_of_nat signed_take_bit_int_eq_self)

text \<open>
  Claim C6. The response of a request: every string the script writes, in order, each followed by a
  null byte, in a chain of which only the last buffer is marked as last; the announced length
  counts the strings without the null bytes, so it is too small by one for each write.
\<close>
theorem toxic_excecute_response:
  assumes "toxic_excecute rand behind script t = Some (t', body)" "base_len t = 0"
    and "length (concat (written script)) < 2 ^ 31"
  shows "body = concat (map (\<lambda>w. w @ [NUL]) (written script)) \<and>
    out_chain t' = out_bufs (written script) \<and>
    int (length body) = sint (content_length_n t') + int (length (written script))"
proof -
  obtain t1 t2 where t: "toxic_start rand behind t = Some t1" "tox_script script t1 = Some t2"
      "exit_request t2 = (t', body)"
    using assms(1) by (auto simp: toxic_excecute_def split: bind_splits)
  obtain key where "callbacks t1 = [Some key]" "out_inv [] t1"
    using t(1) assms(2) by (auto simp: toxic_start_def out_inv_def split: bind_splits)
  from tox_script_inv [OF t(2) this] have inv: "out_inv (written script) t2" by simp
  with t(3) have "body = concat (map (\<lambda>w. w @ [NUL]) (written script))"
    "out_chain t' = out_bufs (written script)"
    "content_length_n t' = scast (of_nat (length (concat (written script))) :: u32)"
    by (auto simp: exit_request_def out_inv_def out_bufs_bytes)
  with assms(3) show ?thesis by (simp only: length_concat_NUL scast_small) simp
qed

definition tox0 :: tox where
  "tox0 = \<lparr>out_chain = [], base_len = 0, callbacks = [], content_type = None, status = 0, hlist = [],
     content_length_n = -1\<rparr>"

theorem toxic_excecute_response_witness:
  "\<exists>t' body. toxic_excecute [1,2,3,4,5,6,7,8,9,10] [NUL]
     [ev_output (Some (bytes ''BCDEFGHIJK'')) (bytes ''Hi'') 2, ev_output None (bytes ''x'') 1,
      ev_output (Some (bytes ''BCDEFGHIJK'')) (bytes ''!'') 1] tox0 = Some (t', body) \<and>
   body = bytes ''Hi'' @ [NUL] @ bytes ''!'' @ [NUL] \<and> sint (content_length_n t') = 3"
proof -
  let ?es = "[ev_output (Some (bytes ''BCDEFGHIJK'')) (bytes ''Hi'') 2, ev_output None (bytes ''x'') 1,
      ev_output (Some (bytes ''BCDEFGHIJK'')) (bytes ''!'') 1]"
  have "toxic_excecute [1,2,3,4,5,6,7,8,9,10] [NUL] ?es tox0 \<noteq> None" by code_simp
  then obtain t' body where e: "toxic_excecute [1,2,3,4,5,6,7,8,9,10] [NUL] ?es tox0 = Some (t', body)"
    by auto
  with toxic_excecute_response [OF e] show ?thesis by (auto simp: tox0_def)
qed

text \<open>
  A header line of the script that has a name before its first colon: name and value are
  copied, the value with the blank behind the colon, and the hash of the new element is never
  set. With nothing behind the colon an element is added of which nothing but the lengths is set.
\<close>
theorem header_function_line:
  assumes "asc CHR '':'' \<notin> set name" "name \<noteq> []" "NUL \<notin> set name" "NUL \<notin> set val"
  shows "header_function (Some (name @ asc CHR '':'' # val @ rest)) (length name + 1 + length val) t =
    Some (t\<lparr>hlist := hlist t @ [\<lparr>hhash = None, hkey_len = Some (length name),
      hkey = (if val = [] then None else Some name), hvalue_len = Some (length val),
      hvalue = (if val = [] then None else Some val)\<rparr>]\<rparr>)"
proof -
  have col: "colon_index i (name @ asc CHR '':'' # l) (length name + 1 + n) = Some (i + length name)" for i l n
    using assms(1) by (induction name arbitrary: i) auto
  have "strncpy (name @ asc CHR '':'' # val @ rest) (length name) = Some name"
    using strncpy_no_NUL [of "length name" "name @ asc CHR '':'' # val @ rest"] assms(3) by simp
  moreover have "strncpy (val @ rest) (length val) = Some val"
    using strncpy_no_NUL [of "length val" "val @ rest"] assms(4) by simp
  ultimately show ?thesis
    using assms(2) col [of 0 "val @ rest" "length val"]
    by (simp add: header_function_def helt_fresh_def Let_def)
qed

theorem header_function_line_witness:
  "header_function (Some (bytes ''A: b'')) (length (bytes ''A'') + 1 + length (bytes '' b'')) tox0 =
     Some (tox0\<lparr>hlist := [\<lparr>hhash = None, hkey_len = Some 1, hkey = Some (bytes ''A''), hvalue_len = Some (length (bytes '' b'')),
       hvalue = Some (bytes '' b'')\<rparr>]\<rparr>)"
  using header_function_line [of "bytes ''A''" "bytes '' b''" "[]" tox0] by (simp add: tox0_def)

end
