(* ===== verification/Spec2Isabelle.thy ===== *)
theory Spec2Isabelle
  imports NgxTimer NgxTimes HttpStatus HttpArgs NgxStr UpstreamRR HttpUri NgxNum NgxBase64 NgxEscape HttpLine HttpHeader HttpChunked Toxic
begin

text \<open>
  toxic-php is the HTTP server nginx 1.6.2 with a module, toxic, that answers requests by running
  PHP scripts in an embedded PHP 5.6.0. This library models the parts of the server that decide
  what a request means and what is done for it, and the module, and proves them correct. Paths
  are relative to src/nginx-1.6.2.

  The program. A worker process waits for events. \<open>ngx_event_find_timer\<close> says how long it may
  wait, \<open>ngx_event_expire_timers\<close> then calls the handlers of what has timed out; both use the
  red-black tree of src/core/ngx_rbtree.c. On a connection, the request line, each header line and
  a chunked body are read by automata that go on where the bytes of the last call ended
  (src/http/ngx_http_parse.c). The URI is normalised in one pass, arguments and cookies are looked
  up in place, numbers and dates of headers are read by the functions of src/core/ngx_string.c and
  src/http/ngx_http_parse_time.c. A request is then answered by a handler: the toxic module reads
  the body, runs the script and sends what it writes; a proxied request is given to a peer
  (src/http/ngx_http_upstream_round_robin.c), whose status line is read by another automaton. What
  is sent is formatted by \<open>ngx_vslprintf\<close>, escaped and dated by the inverse functions of the
  readers.

  The theories, in the order of the layers:

  \<^item> \<open>Prelude\<close>: bytes and machine integers, return codes, checked reads, digits. The loop
    \<open>feed\<close> that drives an automaton over a buffer and the locale \<open>incremental\<close> of what makes it
    resumable; the locales \<open>codec\<close> and \<open>sized_codec\<close> of an encoder with its inverse and its
    announced size.
  \<^item> \<open>NgxNum\<close>: \<open>ngx_atoi\<close> and its variants (src/core/ngx_string.c), sizes, offsets and times of
    src/core/ngx_parse.c. Values, overflow, the sum a time denotes.
  \<^item> \<open>NgxBase64\<close>, \<open>NgxEscape\<close>: Base64 in both alphabets, escaping of URIs by seven tables and of HTML,
    unescaping, hexadecimal dumps. Round trips, by interpretation of \<open>sized_codec\<close>.
  \<^item> \<open>NgxStr\<close>: comparison and search of strings, \<open>ngx_sort\<close> with the order of listening addresses.
    Each comparison is an interpretation of the locale \<open>three_way\<close>, which makes it an order.
  \<^item> \<open>NgxPrint\<close>: \<open>ngx_vslprintf\<close> with all its conversions. A smaller buffer gets a prefix of what a
    larger one gets; the output is the concatenation of the texts of the items.
  \<^item> \<open>NgxTimes\<close>: seconds to a date and back, in three formats (src/core/ngx_times.c and
    src/http/ngx_http_parse_time.c).
  \<^item> \<open>HttpLine\<close>, \<open>HttpHeader\<close>, \<open>HttpStatus\<close>: the automata for request line, header line and status line,
    one function per state (\<open>st_\<close>, \<open>hst_\<close>, \<open>sl_\<close>) and a step function that dispatches on the state.
    Each is an interpretation of \<open>incremental\<close>: input in pieces is parsed like input at once. Every
    well-formed line is accepted and taken apart exactly; what is accepted has the stated form.
  \<^item> \<open>HttpUri\<close>: the three URI functions. The one-pass normalisation equals decoding followed by resolving
    the segments on a list of segments; what is accepted does not leave the root.
  \<^item> \<open>HttpArgs\<close>: arguments, the split at the question mark, the lines of a multi-line header.
  \<^item> \<open>HttpChunked\<close>: the chunked parser and the three loops around it (src/http/ngx_http_request_body.c).
    The filter over any split of the body into buffers refines a decoder that reads byte by byte.
  \<^item> \<open>Toxic\<close>: modules/toxic/toxic.c and ngx_http_toxic_module.c. The key, the POST body, the
    callbacks and the request; a script is the list of the callbacks that it makes.
  \<^item> \<open>UpstreamRR\<close>: the smooth weighted round robin. A step relation interleaves requests; invariants
    bound the weights and the peers a request is given, and over a cycle every peer gets its weight.
  \<^item> \<open>NgxRbtree\<close>, \<open>NgxRbtreeDel\<close>: the red-black tree on a memory with one function per field. Abstract
    trees are data types whose nodes are addresses; insertion and deletion refine insertion into and
    removal from the sorted list of nodes, keep the colours and heights, and change nothing else. The
    locale \<open>ordered_store\<close> states this for any sequence of operations; it is interpreted for trees
    by key and for trees by time that may wrap around.
  \<^item> \<open>NgxTimer\<close>: the timers, on that tree. The loop that expires timers returns, and fires exactly what
    has expired.

  Conventions. A buffer is the list of its bytes, a pointer into it an index, and memory with
  identity (the nodes of the tree) a function of addresses. Machine integers are words of their
  width, compared signed or unsigned as declared. \<open>None\<close> is an execution without defined behaviour:
  a read outside an object, a missing argument. Error codes are values of a sum or of a return code.
  There is no fuel: loops with a bound are structural or have a measure; loops that need not end
  (the walks and repairs of the tree, the expiry of timers, the draws for the key) are
  \<open>partial_function\<close>s into \<open>option\<close>, and that they return is proved.

  Deviations that the proofs show. A header name that starts with an invalid byte keeps the hash of
  the line before; chunk sizes and the HTTP version wrap around; the length that the toxic module
  announces is too small by one for each write, and it joins the buffers of a body at a null byte
  of fresh memory; day 0 of a month is accepted; sizes such as 18014398509481985K wrap around.

  Not modelled. PHP itself: the module only calls it, and these calls are parameters or events.
  The event loop, connections, processes, files and sockets: system calls. Memory pools, slabs and
  shared memory: fresh memory is given where the code takes it. The configuration and the
  tables of handlers it builds; the phases, variables, scripts, filters and handlers of the HTTP
  server other than those above; the transport of upstream requests, caches, SPDY, TLS, mail. The
  branches for Windows and for NGX_THREADS, which the build does not take.
\<close>

end
